(* ===== verification/Prelude.thy ===== *)
theory Prelude
  imports Main
begin

text \<open>
  Shared vocabulary of the development: the errors a C++ operation can end with, results
  as sums, 64-bit unsigned arithmetic written out on \<^typ>\<open>nat\<close>, contiguous slices of a
  list (what an iterator range denotes) and the list searches of the standard library.
  Every component theory imports this one.
\<close>

named_theorems size_arith \<open>arithmetic of 64-bit unsigned values\<close>
named_theorems slice_simps \<open>lengths, elements and compositions of slices\<close>

section \<open>Errors and results\<close>

text \<open>
  \<open>Assert_failed\<close> is a failed \<^verbatim>\<open>assert\<close>, \<open>Std_exception\<close> a thrown
  \<^verbatim>\<open>std::exception\<close> (or a subclass raised by the standard library), \<open>Int_thrown\<close> is
  \<^verbatim>\<open>throw -1\<close>, and \<open>Undefined\<close> marks a step whose behaviour the C++ standard leaves
  undefined (a read out of range, a division by zero, an empty optional dereferenced).
\<close>

datatype cpp_error = Assert_failed | Std_exception | Int_thrown int | Undefined

type_synonym 'a res = "cpp_error + 'a"

definition res_bind :: "'a res \<Rightarrow> ('a \<Rightarrow> 'b res) \<Rightarrow> 'b res" where
  "res_bind r f = (case r of Inl e \<Rightarrow> Inl e | Inr x \<Rightarrow> f x)"

definition res_map :: "('a \<Rightarrow> 'b) \<Rightarrow> 'a res \<Rightarrow> 'b res" where
  "res_map f r = (case r of Inl e \<Rightarrow> Inl e | Inr x \<Rightarrow> Inr (f x))"

text \<open>
  What a handler of exceptions catches, and whether the program goes on after an operation: it
  returned, or threw an exception its caller may catch.
\<close>

definition is_exception :: "cpp_error \<Rightarrow> bool" where
  "is_exception e \<longleftrightarrow> (case e of Std_exception \<Rightarrow> True | Int_thrown _ \<Rightarrow> True | _ \<Rightarrow> False)"

definition survives :: "'r res \<Rightarrow> bool" where
  "survives r \<longleftrightarrow> (case r of Inl e \<Rightarrow> is_exception e | Inr _ \<Rightarrow> True)"

lemma res_bind_simps [simp]:
  "res_bind (Inl e) f = Inl e"
  "res_bind (Inr x) f = f x"
  by (simp_all add: res_bind_def)

lemma res_map_simps [simp]:
  "res_map f (Inl e) = Inl e"
  "res_map f (Inr x) = Inr (f x)"
  by (simp_all add: res_map_def)

lemma res_bind_eq_Inr_iff: "res_bind r f = Inr y \<longleftrightarrow> (\<exists>x. r = Inr x \<and> f x = Inr y)"
  by (cases r) simp_all

section \<open>Unsigned 64-bit arithmetic\<close>

text \<open>
  \<^verbatim>\<open>unsigned long\<close> and \<^verbatim>\<open>std::size_t\<close> are 64 bits wide on the program's platform. A
  value is a \<^typ>\<open>nat\<close> below \<open>2 ^ 64\<close>; the operations wrap around.
\<close>

definition usub :: "nat \<Rightarrow> nat \<Rightarrow> nat" where
  "usub a b = nat ((int a - int b) mod 2 ^ 64)"

definition uadd :: "nat \<Rightarrow> nat \<Rightarrow> nat" where
  "uadd a b = (a + b) mod 2 ^ 64"

definition umul :: "nat \<Rightarrow> nat \<Rightarrow> nat" where
  "umul a b = (a * b) mod 2 ^ 64"

text \<open>The conversion of a signed value to \<^verbatim>\<open>std::size_t\<close> is modular.\<close>

definition to_unsigned :: "int \<Rightarrow> nat" where
  "to_unsigned i = nat (i mod 2 ^ 64)"

text \<open>The conversion of an unsigned value to a 64-bit signed one (two's complement).\<close>

definition to_signed :: "nat \<Rightarrow> int" where
  "to_signed n = (if n mod 2 ^ 64 < 2 ^ 63 then int (n mod 2 ^ 64)
                  else int (n mod 2 ^ 64) - 2 ^ 64)"

lemma usub_le [size_arith]:
  assumes "b \<le> a" and "a < 2 ^ 64"
  shows "usub a b = a - b"
proof -
  have "(int a - int b) mod 2 ^ 64 = int a - int b"
    using assms by (intro mod_pos_pos_trivial) auto
  then show ?thesis using assms by (simp add: usub_def nat_diff_distrib)
qed

lemma usub_underflow [size_arith]:
  assumes "a < b" and "b < 2 ^ 64"
  shows "usub a b = 2 ^ 64 - (b - a)"
proof -
  have "(int a - int b) mod 2 ^ 64 = (int a - int b + 2 ^ 64) mod 2 ^ 64" by simp
  also have "\<dots> = int a - int b + 2 ^ 64"
    using assms by (intro mod_pos_pos_trivial) auto
  finally have "(int a - int b) mod 2 ^ 64 = int (2 ^ 64 - (b - a))"
    using assms by (simp add: of_nat_diff)
  then show ?thesis by (simp add: usub_def)
qed

lemma usub_less [simp]: "usub a b < 2 ^ 64"
  by (simp add: usub_def nat_less_iff)

lemma uadd_small [size_arith]: "a + b < 2 ^ 64 \<Longrightarrow> uadd a b = a + b"
  by (simp add: uadd_def)

lemma umul_small [size_arith]: "a * b < 2 ^ 64 \<Longrightarrow> umul a b = a * b"
  by (simp add: umul_def)

lemma to_unsigned_nonneg [size_arith]: "0 \<le> i \<Longrightarrow> i < 2 ^ 64 \<Longrightarrow> to_unsigned i = nat i"
  by (simp add: to_unsigned_def)

lemma to_unsigned_less [simp]: "to_unsigned i < 2 ^ 64"
  by (simp add: to_unsigned_def nat_less_iff)

lemma to_signed_small [size_arith]: "n < 2 ^ 63 \<Longrightarrow> to_signed n = int n"
  by (simp add: to_signed_def)

lemma to_signed_usub [size_arith]:
  assumes "a < 2 ^ 63" and "b < 2 ^ 63"
  shows "to_signed (usub a b) = int a - int b"
proof (cases "b \<le> a")
  case True
  then show ?thesis using assms by (simp add: usub_le to_signed_small of_nat_diff)
next
  case False
  then have "usub a b = 2 ^ 64 - (b - a)" using assms by (simp add: usub_underflow)
  then show ?thesis using False assms by (simp add: to_signed_def of_nat_diff)
qed

text \<open>Division of signed values truncates towards zero.\<close>

definition trunc_div :: "int \<Rightarrow> int \<Rightarrow> int" where
  "trunc_div dividend divisor =
     (let magnitude = \<bar>dividend\<bar> div \<bar>divisor\<bar>
      in if (dividend < 0) = (divisor < 0) then magnitude else - magnitude)"

lemma trunc_div_nonneg: "0 \<le> a \<Longrightarrow> 0 < b \<Longrightarrow> trunc_div a b = a div b"
  by (simp add: trunc_div_def)

lemma trunc_div_neg: "a < 0 \<Longrightarrow> 0 < b \<Longrightarrow> trunc_div a b = - ((- a) div b)"
  by (simp add: trunc_div_def)

lemma trunc_div_mono:
  assumes "a \<le> a'" and "0 < b"
  shows "trunc_div a b \<le> trunc_div a' b"
proof (cases "0 \<le> a")
  case True
  then show ?thesis using assms by (simp add: trunc_div_nonneg zdiv_mono1)
next
  case False
  show ?thesis
  proof (cases "0 \<le> a'")
    case True
    then have "0 \<le> a' div b" using assms by (simp add: pos_imp_zdiv_nonneg_iff)
    moreover have "0 \<le> (- a) div b" using False assms by (simp add: pos_imp_zdiv_nonneg_iff)
    ultimately show ?thesis using False True assms by (simp add: trunc_div_nonneg trunc_div_neg)
  next
    case False': False
    have "(- a') div b \<le> (- a) div b" using assms by (intro zdiv_mono1) auto
    then show ?thesis using False False' assms by (simp add: trunc_div_neg)
  qed
qed

lemma trunc_div_error:
  assumes "0 < b"
  shows "\<bar>a - b * trunc_div a b\<bar> < b"
proof (cases "0 \<le> a")
  case True
  then show ?thesis using assms
    by (simp add: trunc_div_nonneg minus_mult_div_eq_mod abs_of_nonneg)
next
  case False
  have "a - b * trunc_div a b = - ((- a) - b * ((- a) div b))"
    using False assms by (simp add: trunc_div_neg)
  also have "\<dots> = - ((- a) mod b)" by (simp only: minus_mult_div_eq_mod)
  finally show ?thesis using assms by simp
qed

section \<open>Slices: what an iterator range denotes\<close>

definition slice :: "'a list \<Rightarrow> nat \<Rightarrow> nat \<Rightarrow> 'a list" where
  "slice xs i n = take n (drop i xs)"

lemma length_slice [slice_simps]: "length (slice xs i n) = min n (length xs - i)"
  by (simp add: slice_def min.commute)

lemma length_slice_full [slice_simps]: "i + n \<le> length xs \<Longrightarrow> length (slice xs i n) = n"
  by (simp add: slice_def)

lemma slice_zero [slice_simps, simp]: "slice xs i 0 = []"
  by (simp add: slice_def)

lemma slice_append_drop [slice_simps]: "take i xs @ slice xs i n = take (i + n) xs"
  by (simp add: slice_def take_add)

lemma slice_slice [slice_simps]:
  "j + m \<le> n \<Longrightarrow> slice (slice xs i n) j m = slice xs (i + j) m"
  by (simp add: slice_def drop_take min_def add.commute)

lemma slice_append_slice [slice_simps]: "slice xs i m @ slice xs (i + m) n = slice xs i (m + n)"
  by (simp add: slice_def take_add add.commute)

lemma drop_slice [slice_simps]: "drop j (slice xs i n) = slice xs (i + j) (n - j)"
  by (simp add: slice_def drop_take add.commute)

lemma set_slice: "set (slice xs i n) \<subseteq> set xs"
  by (auto simp: slice_def dest: in_set_takeD in_set_dropD)

section \<open>Searches of the standard library\<close>

text \<open>\<^verbatim>\<open>std::find_if\<close>: the position of the first element that satisfies the predicate.\<close>

fun find_index :: "('a \<Rightarrow> bool) \<Rightarrow> 'a list \<Rightarrow> nat option" where
  "find_index P [] = None"
| "find_index P (x # xs) = (if P x then Some 0 else map_option Suc (find_index P xs))"

lemma find_index_SomeD:
  "find_index P xs = Some i \<Longrightarrow> i < length xs \<and> P (xs ! i) \<and> (\<forall>j<i. \<not> P (xs ! j))"
proof (induction xs arbitrary: i)
  case Nil
  then show ?case by simp
next
  case (Cons x xs)
  then show ?case
    by (auto split: if_splits simp: less_Suc_eq_0_disj)
qed

lemma find_index_None_iff: "find_index P xs = None \<longleftrightarrow> (\<forall>x \<in> set xs. \<not> P x)"
  by (induction xs) auto

lemma find_index_Some_iff: "(\<exists>i. find_index P xs = Some i) \<longleftrightarrow> (\<exists>x \<in> set xs. P x)"
  using find_index_None_iff [of P xs] by (cases "find_index P xs") auto

text \<open>
  \<^verbatim>\<open>std::max_element\<close> with a comparator: the first of the greatest elements. The running
  best is replaced only by an element it compares below.
\<close>

fun max_elem_from :: "('a \<Rightarrow> 'a \<Rightarrow> bool) \<Rightarrow> 'a \<Rightarrow> 'a list \<Rightarrow> 'a" where
  "max_elem_from lt b [] = b"
| "max_elem_from lt b (x # xs) = max_elem_from lt (if lt b x then x else b) xs"

text \<open>\<^verbatim>\<open>std::min_element\<close>: the first of the least elements.\<close>

fun min_elem_from :: "('a \<Rightarrow> 'a \<Rightarrow> bool) \<Rightarrow> 'a \<Rightarrow> 'a list \<Rightarrow> 'a" where
  "min_elem_from lt b [] = b"
| "min_elem_from lt b (x # xs) = min_elem_from lt (if lt x b then x else b) xs"

text \<open>On an empty range both return the end iterator; dereferencing it is undefined.\<close>

definition max_element :: "('a \<Rightarrow> 'a \<Rightarrow> bool) \<Rightarrow> 'a list \<Rightarrow> 'a option" where
  "max_element lt xs = (case xs of [] \<Rightarrow> None | x # ys \<Rightarrow> Some (max_elem_from lt x ys))"

definition min_element :: "('a \<Rightarrow> 'a \<Rightarrow> bool) \<Rightarrow> 'a list \<Rightarrow> 'a option" where
  "min_element lt xs = (case xs of [] \<Rightarrow> None | x # ys \<Rightarrow> Some (min_elem_from lt x ys))"

lemma max_elem_from_mem: "max_elem_from lt b xs \<in> insert b (set xs)"
  by (induction xs arbitrary: b) (auto split: if_splits)

lemma min_elem_from_mem: "min_elem_from lt b xs \<in> insert b (set xs)"
  by (induction xs arbitrary: b) (auto split: if_splits)

lemma max_elem_from_ge:
  fixes f :: "'a \<Rightarrow> int"
  shows "y \<in> insert b (set xs) \<Longrightarrow> f y \<le> f (max_elem_from (\<lambda>u v. f u < f v) b xs)"
proof (induction xs arbitrary: b y)
  case Nil
  then show ?case by simp
next
  case (Cons x xs)
  let ?b = "if f b < f x then x else b"
  have best: "f z \<le> f (max_elem_from (\<lambda>u v. f u < f v) ?b xs)" if "z \<in> insert ?b (set xs)" for z
    using Cons.IH that by blast
  have "f ?b \<le> f (max_elem_from (\<lambda>u v. f u < f v) ?b xs)" using best by blast
  then show ?case using Cons.prems best by (fastforce split: if_splits)
qed

lemma min_elem_from_le:
  fixes f :: "'a \<Rightarrow> int"
  shows "y \<in> insert b (set xs) \<Longrightarrow> f (min_elem_from (\<lambda>u v. f u < f v) b xs) \<le> f y"
proof (induction xs arbitrary: b y)
  case Nil
  then show ?case by simp
next
  case (Cons x xs)
  let ?b = "if f x < f b then x else b"
  have best: "f (min_elem_from (\<lambda>u v. f u < f v) ?b xs) \<le> f z" if "z \<in> insert ?b (set xs)" for z
    using Cons.IH that by blast
  have "f (min_elem_from (\<lambda>u v. f u < f v) ?b xs) \<le> f ?b" using best by blast
  then show ?case using Cons.prems best by (fastforce split: if_splits)
qed

lemma max_element_Some:
  fixes f :: "'a \<Rightarrow> int"
  assumes "max_element (\<lambda>u v. f u < f v) xs = Some m"
  shows "m \<in> set xs" and "y \<in> set xs \<Longrightarrow> f y \<le> f m"
proof -
  from assms obtain x ys where xs: "xs = x # ys" and m: "m = max_elem_from (\<lambda>u v. f u < f v) x ys"
    by (auto simp: max_element_def split: list.splits)
  show "m \<in> set xs" using max_elem_from_mem [of "\<lambda>u v. f u < f v" x ys] by (simp add: xs m)
  show "f y \<le> f m" if "y \<in> set xs" using max_elem_from_ge [of y x ys f] that by (simp add: xs m)
qed

lemma min_element_Some:
  fixes f :: "'a \<Rightarrow> int"
  assumes "min_element (\<lambda>u v. f u < f v) xs = Some m"
  shows "m \<in> set xs" and "y \<in> set xs \<Longrightarrow> f m \<le> f y"
proof -
  from assms obtain x ys where xs: "xs = x # ys" and m: "m = min_elem_from (\<lambda>u v. f u < f v) x ys"
    by (auto simp: min_element_def split: list.splits)
  show "m \<in> set xs" using min_elem_from_mem [of "\<lambda>u v. f u < f v" x ys] by (simp add: xs m)
  show "f m \<le> f y" if "y \<in> set xs" using min_elem_from_le [of y x ys f] that by (simp add: xs m)
qed

lemma max_element_None [simp]: "max_element lt xs = None \<longleftrightarrow> xs = []"
  by (simp add: max_element_def split: list.splits)

lemma min_element_None [simp]: "min_element lt xs = None \<longleftrightarrow> xs = []"
  by (simp add: min_element_def split: list.splits)

section \<open>Swap with the last element, then drop it\<close>

text \<open>
  The idiom \<^verbatim>\<open>std::swap(v.back(), v[i]); ...; v.pop_back()\<close>: the element at \<open>i\<close> leaves
  the vector and the last one takes its place.
\<close>

definition swap_pop :: "'a list \<Rightarrow> nat \<Rightarrow> 'a list" where
  "swap_pop xs i = butlast (xs[i := last xs, length xs - 1 := xs ! i])"

lemma swap_pop_alt:
  "i < length xs \<Longrightarrow> swap_pop xs i =
     (if i = length xs - 1 then butlast xs else (butlast xs)[i := last xs])"
  by (auto simp: swap_pop_def butlast_list_update)

end
