(* ===== verification/Async_Queue.thy ===== *)
theory Async_Queue
  imports Prelude
begin

text \<open>
  \<^verbatim>\<open>data_loader/src/AsyncDataQueue.h\<close>, one operation at a time: the state under the
  mutex, the wait predicates, the critical sections, and the operations as they run when no
  other thread interferes (\<open>None\<close> means that the call blocks for ever: the predicate it
  waits for is false and nobody else runs). How threads interleave is the subject of
  \<^verbatim>\<open>Queue_Threads\<close>.

  The interface \<open>point_source\<close> is what a reader of the queue relies on; it is interpreted
  on \<open>popDataPoints\<close> at the end of the theory.
\<close>

named_theorems queue_defs \<open>definitions of the queue's critical sections\<close>

section \<open>State and accessors\<close>

record 'a async_queue =
  data_queue :: "'a list"
  stream_ended :: bool
  queue_max_size :: nat

definition new_queue :: "'a async_queue" where
  "new_queue = \<lparr>data_queue = [], stream_ended = False, queue_max_size = 4096\<rparr>"

definition getQueueMaxSize :: "'a async_queue \<Rightarrow> nat" where
  "getQueueMaxSize q = queue_max_size q"

definition getQueueSize :: "'a async_queue \<Rightarrow> nat" where
  "getQueueSize q = length (data_queue q)"

definition setQueueMaxSize :: "nat \<Rightarrow> 'a async_queue \<Rightarrow> 'a async_queue" where
  "setQueueMaxSize max_size q = q\<lparr>queue_max_size := max_size\<rparr>"

definition notifyStreamEnd :: "'a async_queue \<Rightarrow> 'a async_queue" where
  "notifyStreamEnd q = q\<lparr>stream_ended := True\<rparr>"

definition restartStreaming :: "'a async_queue \<Rightarrow> 'a async_queue" where
  "restartStreaming q = q\<lparr>stream_ended := False\<rparr>"

definition unblockReadOperations :: "'a async_queue \<Rightarrow> 'a async_queue" where
  "unblockReadOperations q = notifyStreamEnd q"

definition discardRestOfStream :: "'a async_queue \<Rightarrow> 'a async_queue" where
  "discardRestOfStream q = q\<lparr>data_queue := [], stream_ended := True\<rparr>"

section \<open>The wait predicates\<close>

definition queueHasEnoughElements :: "nat \<Rightarrow> 'a async_queue \<Rightarrow> bool" where
  "queueHasEnoughElements num_elements q \<longleftrightarrow> num_elements \<le> length (data_queue q) \<or> stream_ended q"

definition queueNotEmpty :: "'a async_queue \<Rightarrow> bool" where
  "queueNotEmpty q \<longleftrightarrow> 0 < length (data_queue q) \<or> stream_ended q"

definition queueNotFull :: "'a async_queue \<Rightarrow> bool" where
  "queueNotFull q \<longleftrightarrow> length (data_queue q) < queue_max_size q \<or> stream_ended q"

section \<open>The critical sections\<close>

text \<open>
  One round of the loop of \<open>addDataPoints\<close> after its wait: how many elements fit is an
  unsigned difference, which wraps when the queue is longer than its maximum.
\<close>

definition add_chunk :: "'a list \<Rightarrow> 'a async_queue \<Rightarrow> 'a list \<times> 'a async_queue" where
  "add_chunk xs q =
     (let pushable_elements = usub (queue_max_size q) (length (data_queue q));
          elements_pushed = min (length xs) pushable_elements
      in (drop elements_pushed xs, q\<lparr>data_queue := data_queue q @ take elements_pushed xs\<rparr>))"

definition removePointsFromQueue :: "nat \<Rightarrow> 'a async_queue \<Rightarrow> 'a async_queue" where
  "removePointsFromQueue num_data_points q =
     (if num_data_points \<ge> length (data_queue q) then q\<lparr>data_queue := []\<rparr>
      else q\<lparr>data_queue := drop num_data_points (data_queue q)\<rparr>)"

text \<open>One round of the loop of \<open>popDataPoints\<close>; \<open>n\<close> is \<^verbatim>\<open>end - begin\<close>.\<close>

definition pop_chunk :: "nat \<Rightarrow> 'a async_queue \<Rightarrow> 'a list \<times> 'a async_queue" where
  "pop_chunk n q =
     (let elements_pulled = min n (length (data_queue q))
      in (take elements_pulled (data_queue q), removePointsFromQueue elements_pulled q))"

definition push_one :: "'a \<Rightarrow> 'a async_queue \<Rightarrow> 'a async_queue" where
  "push_one data_point q = q\<lparr>data_queue := data_queue q @ [data_point]\<rparr>"

text \<open>
  The copy of \<open>getDataPoints\<close>: the number of elements that can be read is a signed
  difference, a negative count copies nothing, and an iterator moved past the end of the
  deque is undefined.
\<close>

definition get_chunk :: "nat \<Rightarrow> nat \<Rightarrow> 'a async_queue \<Rightarrow> 'a list res" where
  "get_chunk n offset q =
     (if length (data_queue q) < offset then Inl Undefined
      else let pullable_elements = to_signed (usub (length (data_queue q)) offset);
               elements_pulled = min (int n) pullable_elements
           in Inr (slice (data_queue q) offset (nat elements_pulled)))"

lemmas [queue_defs] = notifyStreamEnd_def restartStreaming_def discardRestOfStream_def
  queueHasEnoughElements_def queueNotEmpty_def queueNotFull_def add_chunk_def
  removePointsFromQueue_def pop_chunk_def push_one_def

section \<open>The operations, run by one thread alone\<close>

definition addDataPoint :: "'a \<Rightarrow> 'a async_queue \<Rightarrow> 'a async_queue option" where
  "addDataPoint data_point q = (if queueNotFull q then Some (push_one data_point q) else None)"

partial_function (option) addDataPoints :: "'a list \<Rightarrow> 'a async_queue \<Rightarrow> 'a async_queue option" where
  "addDataPoints xs q =
     (if xs = [] \<or> stream_ended q then Some q
      else if \<not> queueNotFull q then None
      else addDataPoints (fst (add_chunk xs q)) (snd (add_chunk xs q)))"

definition getDataPoints :: "nat \<Rightarrow> nat \<Rightarrow> 'a async_queue \<Rightarrow> 'a list res option" where
  "getDataPoints n offset q =
     (if queueHasEnoughElements (uadd n offset) q then Some (get_chunk n offset q) else None)"

definition nextDataPoints :: "nat \<Rightarrow> 'a async_queue \<Rightarrow> 'a async_queue option" where
  "nextDataPoints num_data_points q =
     (if queueHasEnoughElements num_data_points q then Some (removePointsFromQueue num_data_points q)
      else None)"

text \<open>
  The loop of \<open>popDataPoints\<close> tests its condition after the body: \<open>n\<close> elements are still
  wanted, \<open>got\<close> have been copied.
\<close>

partial_function (option) pop_loop ::
  "nat \<Rightarrow> 'a list \<Rightarrow> 'a async_queue \<Rightarrow> ('a list \<times> 'a async_queue) option" where
  "pop_loop n got q =
     (if \<not> queueNotEmpty q then None
      else let pulled = fst (pop_chunk n q); q' = snd (pop_chunk n q); rest = n - length pulled
           in if rest \<noteq> 0 \<and> \<not> stream_ended q' then pop_loop rest (got @ pulled) q'
              else Some (got @ pulled, q'))"

definition popDataPoints :: "nat \<Rightarrow> 'a async_queue \<Rightarrow> ('a list \<times> 'a async_queue) option" where
  "popDataPoints n q = pop_loop n [] q"

section \<open>What the critical sections do\<close>

definition queue_wf :: "'a async_queue \<Rightarrow> bool" where
  "queue_wf q \<longleftrightarrow> length (data_queue q) \<le> queue_max_size q \<and> queue_max_size q < 2 ^ 63"

lemma new_queue_wf [simp]: "queue_wf new_queue"
  by (simp add: queue_wf_def new_queue_def)

lemma removePointsFromQueue_alt:
  "removePointsFromQueue n q = q\<lparr>data_queue := drop n (data_queue q)\<rparr>"
  by (simp add: removePointsFromQueue_def)

lemma pop_chunk_alt:
  "pop_chunk n q = (take n (data_queue q), q\<lparr>data_queue := drop n (data_queue q)\<rparr>)"
  by (simp add: pop_chunk_def removePointsFromQueue_alt Let_def min_def)

lemma add_chunk_split:
  "add_chunk xs q = (ys, q') \<Longrightarrow>
     \<exists>zs. xs = zs @ ys \<and> q' = q\<lparr>data_queue := data_queue q @ zs\<rparr>"
  by (auto simp: add_chunk_def Let_def intro: append_take_drop_id [symmetric])

lemma add_chunk_wf:
  assumes "queue_wf q"
  shows "add_chunk xs q =
     (let k = queue_max_size q - length (data_queue q)
      in (drop k xs, q\<lparr>data_queue := data_queue q @ take k xs\<rparr>))"
  using assms by (simp add: add_chunk_def queue_wf_def usub_le Let_def min_def)

lemma queue_wf_add_chunk: "queue_wf q \<Longrightarrow> queue_wf (snd (add_chunk xs q))"
  by (simp add: add_chunk_wf Let_def) (auto simp: queue_wf_def)

lemma queue_wf_remove: "queue_wf q \<Longrightarrow> queue_wf (removePointsFromQueue n q)"
  by (auto simp: removePointsFromQueue_alt queue_wf_def)

lemma queue_wf_flags [simp]:
  "queue_wf (q\<lparr>stream_ended := b\<rparr>) = queue_wf q"
  by (simp add: queue_wf_def)

lemma addDataPoints_empty [simp]: "addDataPoints [] q = Some q"
  by (subst addDataPoints.simps) simp

lemma addDataPoints_ended: "stream_ended q \<Longrightarrow> addDataPoints xs q = Some q"
  by (subst addDataPoints.simps) simp

lemma pop_loop_result:
  "pop_loop n got q =
     (if stream_ended q \<or> n \<le> length (data_queue q) \<and> data_queue q \<noteq> []
      then Some (got @ take n (data_queue q), q\<lparr>data_queue := drop n (data_queue q)\<rparr>)
      else None)"
proof -
  have blocked: "pop_loop m xs q' = None" if "data_queue q' = []" "\<not> stream_ended q'" for m xs q'
    using that by (subst pop_loop.simps) (simp add: queueNotEmpty_def)
  show ?thesis
    by (subst pop_loop.simps) (auto simp: queueNotEmpty_def pop_chunk_alt Let_def blocked min_def)
qed

lemma popDataPoints_result:
  "popDataPoints n q =
     (if stream_ended q \<or> n \<le> length (data_queue q) \<and> data_queue q \<noteq> []
      then Some (take n (data_queue q), q\<lparr>data_queue := drop n (data_queue q)\<rparr>)
      else None)"
  by (simp add: popDataPoints_def pop_loop_result)

lemma addDataPoints_result:
  assumes "queue_wf q" and "\<not> stream_ended q"
  shows "addDataPoints xs q =
     (if length xs \<le> queue_max_size q - length (data_queue q)
      then Some (q\<lparr>data_queue := data_queue q @ xs\<rparr>) else None)"
proof -
  let ?k = "queue_max_size q - length (data_queue q)"
  let ?q = "q\<lparr>data_queue := data_queue q @ take ?k xs\<rparr>"
  have step: "addDataPoints xs q = (if xs = [] then Some q else if ?k = 0 then None
      else addDataPoints (drop ?k xs) ?q)"
    using assms by (subst addDataPoints.simps) (auto simp: queueNotFull_def add_chunk_wf Let_def queue_wf_def)
  have full: "addDataPoints ys ?q = None" if "ys \<noteq> []" "?k \<le> length xs" for ys
    using that assms by (subst addDataPoints.simps) (auto simp: queueNotFull_def queue_wf_def min_def)
  show ?thesis
    by (subst step) (auto simp: full)
qed

text \<open>The queue has room for \<open>n\<close> more points, so that the writer of these never waits.\<close>

definition has_room :: "nat \<Rightarrow> 'a async_queue \<Rightarrow> bool" where
  "has_room n q \<longleftrightarrow> queue_wf q \<and> \<not> stream_ended q \<and> length (data_queue q) + n \<le> queue_max_size q"

lemma has_room_add:
  "has_room (length xs + n) q \<Longrightarrow> addDataPoints xs q = Some (q\<lparr>data_queue := data_queue q @ xs\<rparr>)"
  "has_room (length xs + n) q \<Longrightarrow> has_room n (q\<lparr>data_queue := data_queue q @ xs\<rparr>)"
  by (auto simp: has_room_def addDataPoints_result queue_wf_def)

lemma new_queue_room: "n \<le> 4096 \<Longrightarrow> has_room n new_queue"
  by (simp add: has_room_def queue_wf_def new_queue_def)

section \<open>The interface of a reader\<close>

text \<open>
  A source hands out the points of a stream in order. \<open>content\<close> is what it still holds; a
  short answer is only given by a closed source, and then it is all that was left.
\<close>

locale point_source =
  fixes pop :: "nat \<Rightarrow> 'q \<Rightarrow> ('a list \<times> 'q) option"
    and content :: "'q \<Rightarrow> 'a list"
    and closed :: "'q \<Rightarrow> bool"
  assumes pop_prefix: "pop n q = Some (xs, q') \<Longrightarrow> content q = xs @ content q'"
    and pop_length: "pop n q = Some (xs, q') \<Longrightarrow> length xs \<le> n"
    and pop_short: "pop n q = Some (xs, q') \<Longrightarrow> length xs < n \<Longrightarrow> closed q \<and> content q' = []"
    and pop_closed: "pop n q = Some (xs, q') \<Longrightarrow> closed q' = closed q"
    and pop_returns: "closed q \<Longrightarrow> \<exists>r. pop n q = Some r"
begin

lemma pop_take: "pop n q = Some (xs, q') \<Longrightarrow> xs = take n (content q)"
  using pop_prefix [of n q xs q'] pop_length [of n q xs q'] pop_short [of n q xs q']
  by (cases "length xs < n") auto

lemma pop_drop: "pop n q = Some (xs, q') \<Longrightarrow> content q' = drop n (content q)"
  using pop_prefix [of n q xs q'] pop_length [of n q xs q'] pop_short [of n q xs q']
  by (cases "length xs < n") auto

lemma pop_empty_iff: "pop n q = Some (xs, q') \<Longrightarrow> 0 < n \<Longrightarrow> xs = [] \<longleftrightarrow> closed q \<and> content q = []"
  using pop_take [of n q xs q'] pop_short [of n q xs q'] by auto

end

interpretation queue_source: point_source popDataPoints data_queue stream_ended
proof unfold_locales
  fix n :: nat and q q' :: "'a async_queue" and xs
  assume pop: "popDataPoints n q = Some (xs, q')"
  then have eq: "xs = take n (data_queue q)" "q' = q\<lparr>data_queue := drop n (data_queue q)\<rparr>"
    and cond: "stream_ended q \<or> n \<le> length (data_queue q)"
    by (auto simp: popDataPoints_result split: if_splits)
  show "data_queue q = xs @ data_queue q'" "length xs \<le> n" "stream_ended q' = stream_ended q"
    by (simp_all add: eq)
  show "stream_ended q \<and> data_queue q' = []" if "length xs < n"
    using that cond by (auto simp: eq)
next
  show "\<exists>r. popDataPoints n q = Some r" if "stream_ended q" for n and q :: "'a async_queue"
    using that by (simp add: popDataPoints_result)
qed

end
