(* ===== verification/Queue_Order.thy ===== *)
theory Queue_Order
  imports Queue_Threads
begin

text \<open>
  What every interleaving of the queue's threads keeps (the step relation is in
  \<^verbatim>\<open>Queue_Threads\<close>): the order of the data, the bound on the queue's length, and, for one
  writer and one reader, that a sleeping thread has a reason to sleep. The last section holds
  the two runs in which the announcement of the stream's end is overtaken.
\<close>

section \<open>Kinds of operations\<close>

datatype op_kind = K_add | K_add_one | K_pop | K_next | K_end | K_discard | K_set_max

fun kind_of :: "'a op \<Rightarrow> op_kind" where
  "kind_of (Op_add xs) = K_add"
| "kind_of (Op_add_one x) = K_add_one"
| "kind_of (Op_pop n got) = K_pop"
| "kind_of (Op_next n) = K_next"
| "kind_of Op_end = K_end"
| "kind_of Op_discard = K_discard"
| "kind_of (Op_set_max m) = K_set_max"

fun thread_kind :: "'a thread \<Rightarrow> op_kind option" where
  "thread_kind (At ph op) = Some (kind_of op)"
| "thread_kind _ = None"

lemma thread_kind_woken [simp]: "thread_kind (woken th) = thread_kind th"
  by (cases th rule: woken.cases) auto

text \<open>A step changes the thread that moves; the others keep their state or are woken.\<close>

lemma run_step_others:
  assumes "run_step t s s'" and "u \<noteq> t"
  shows "threads s' u = threads s u \<or> threads s' u = woken (threads s u)"
  using assms(1)
proof cases
  case (body_add xs rest q')
  then show ?thesis using notify_one_threads [of Underflow _ s' u] assms(2) by fastforce
next
  case (body_add_one x)
  then show ?thesis using notify_one_threads [of Underflow _ s' u] assms(2) by fastforce
next
  case (body_pop n got pulled q')
  then show ?thesis using notify_one_threads [of Overflow _ s' u] assms(2) by fastforce
next
  case (body_next n)
  then show ?thesis using notify_one_threads [of Overflow _ s' u] assms(2) by fastforce
next
  case end_notify
  then show ?thesis using notify_one_threads [of Underflow _ s' u] assms(2) by fastforce
next
  case body_discard
  then show ?thesis using assms(2) by (simp add: notify_all_def)
next
  case (body_set_max m)
  then show ?thesis using notify_one_threads [of Overflow _ s' u] assms(2) by fastforce
qed (use assms(2) in simp_all)

lemma notify_one_not_waiting:
  "notify_one c s s' \<Longrightarrow> \<not> waiting_for c (threads s u) \<Longrightarrow> threads s' u = threads s u"
  by (auto elim!: notify_one.cases)

lemma not_waiting [simp]:
  "\<not> waiting_for c (Done xs)" "ph \<noteq> Waiting \<Longrightarrow> \<not> waiting_for c (At ph op)" "\<not> waiting_for c Idle"
  by (auto simp: waiting_for_def)

lemma run_step_kind:
  assumes "run_step t s s'"
  shows "thread_kind (threads s' t) = None \<or> thread_kind (threads s' t) = thread_kind (threads s t)"
  using assms
proof cases
  case (body_add xs rest q')
  then show ?thesis using notify_one_not_waiting [OF body_add(3), of t] by simp
next
  case (body_add_one x)
  then show ?thesis using notify_one_not_waiting [OF body_add_one(2), of t] by simp
next
  case (body_pop n got pulled q')
  then show ?thesis using notify_one_not_waiting [OF body_pop(3), of t] by simp
next
  case (body_next n)
  then show ?thesis using notify_one_not_waiting [OF body_next(2), of t] by simp
next
  case end_notify
  then show ?thesis using notify_one_not_waiting [OF end_notify(2), of t] by simp
next
  case body_discard
  then show ?thesis by (simp add: notify_all_def)
next
  case (body_set_max m)
  then show ?thesis using notify_one_not_waiting [OF body_set_max(2), of t] by simp
qed simp_all

text \<open>A thread only ever runs operations of the kinds it may call.\<close>

lemma reachable_kinds:
  assumes "reachable allowed q0 s" and "\<And>t op. allowed t op \<Longrightarrow> K t (kind_of op)"
    and "thread_kind (threads s t) = Some k"
  shows "K t k"
  using assms(1,3)
proof (induction arbitrary: t k rule: reachable.induct)
  case start
  then show ?case by (simp add: initial_sys_def)
next
  case (calls s s')
  from calls(2) show ?case
    by cases (use calls assms(2) in \<open>auto split: if_splits\<close>)
next
  case (runs s u s')
  show ?case
  proof (cases "t = u")
    case True
    then show ?thesis using runs run_step_kind [OF runs(2)] by auto
  next
    case False
    then show ?thesis using runs run_step_others [OF runs(2) False] by auto
  qed
qed

section \<open>First in, first out\<close>

definition fifo_inv :: "'a qsys \<Rightarrow> bool" where
  "fifo_inv s \<longleftrightarrow> map snd (taken s) @ data_queue (queue s) = written s"

lemma map_snd_Pair [simp]: "map (snd \<circ> Pair t) xs = xs"
  by (induction xs) auto

lemma run_step_fifo:
  assumes "run_step t s s'" and "fifo_inv s"
  shows "fifo_inv s'"
  using assms(1)
proof cases
  case (body_add xs rest q')
  from add_chunk_split [OF body_add(2)] obtain zs
    where "xs = zs @ rest" "q' = (queue s)\<lparr>data_queue := data_queue (queue s) @ zs\<rparr>" by blast
  then show ?thesis using assms(2) notify_one_frame [OF body_add(3)] by (auto simp: fifo_inv_def)
next
  case (body_add_one x)
  then show ?thesis using assms(2) notify_one_frame [OF body_add_one(2)]
    by (simp add: fifo_inv_def push_one_def)
next
  case (body_pop n got pulled q')
  from body_pop(2) have "pulled @ data_queue q' = data_queue (queue s)" by (auto simp: pop_chunk_alt)
  then show ?thesis using assms(2) notify_one_frame [OF body_pop(3)]
    by (simp add: fifo_inv_def)
next
  case (body_next n)
  then show ?thesis using assms(2) notify_one_frame [OF body_next(2)]
    by (simp add: fifo_inv_def removePointsFromQueue_alt)
next
  case end_notify
  then show ?thesis using assms(2) notify_one_frame [OF end_notify(2)] by (simp add: fifo_inv_def)
next
  case (body_set_max m)
  then show ?thesis using assms(2) notify_one_frame [OF body_set_max(2)]
    by (simp add: fifo_inv_def setQueueMaxSize_def)
qed (use assms(2) in \<open>simp_all add: fifo_inv_def notifyStreamEnd_def discardRestOfStream_def\<close>)

lemma reachable_fifo: "reachable allowed q0 s \<Longrightarrow> fifo_inv s"
proof (induction rule: reachable.induct)
  case start
  then show ?case by (simp add: fifo_inv_def initial_sys_def)
next
  case (calls s s')
  then show ?case by (auto simp: fifo_inv_def elim: call_step.cases)
qed (rule run_step_fifo)

text \<open>What a call has copied so far is the end of what its thread has taken.\<close>

fun copied :: "'a thread \<Rightarrow> 'a list" where
  "copied (At ph (Op_pop n got)) = got"
| "copied (Done got) = got"
| "copied _ = []"

definition taken_by :: "nat \<Rightarrow> 'a qsys \<Rightarrow> 'a list" where
  "taken_by t s = map snd (filter (\<lambda>e. fst e = t) (taken s))"

definition copied_inv :: "'a qsys \<Rightarrow> bool" where
  "copied_inv s \<longleftrightarrow> (\<forall>t. \<exists>before. taken_by t s = before @ copied (threads s t))"

lemma copied_woken [simp]: "copied (woken th) = copied th"
proof (cases th rule: woken.cases)
  case (1 op)
  then show ?thesis by (cases op) auto
qed auto

lemma copied_other [simp]: "kind_of op \<noteq> K_pop \<Longrightarrow> copied (At ph op) = []"
  by (cases op) auto

lemma copied_phase: "copied (At ph op) = copied (At ph' op)"
  by (cases op) auto

lemma taken_by_append [simp]:
  "taken s' = taken s @ map (Pair t) xs \<Longrightarrow>
     taken_by u s' = (if u = t then taken_by u s @ xs else taken_by u s)"
  by (induction xs arbitrary: s' s rule: rev_induct) (auto simp: taken_by_def)

lemma taken_by_same: "taken s' = taken s \<Longrightarrow> taken_by u s' = taken_by u s"
  by (simp add: taken_by_def)

lemma run_step_copied:
  assumes "run_step t s s'"
  shows "(\<exists>xs. taken s' = taken s @ map (Pair t) xs
            \<and> (copied (threads s' t) = copied (threads s t) @ xs \<or> copied (threads s' t) = []))"
  using assms
proof cases
  case (add_enter xs)
  then show ?thesis by (intro exI [of _ "[]"]) simp
next
  case (acquire op)
  then show ?thesis by (intro exI [of _ "[]"]) (simp add: copied_phase [of Test op Acquire] copied_phase [of Body op Acquire])
next
  case (test_true op)
  then show ?thesis by (intro exI [of _ "[]"]) (simp add: copied_phase [of Body op Test])
next
  case (test_false op)
  then show ?thesis by (intro exI [of _ "[]"]) (simp add: copied_phase [of Sleep op Test])
next
  case (fall_asleep op)
  then show ?thesis by (intro exI [of _ "[]"]) (simp add: copied_phase [of Waiting op Sleep])
next
  case (body_add xs rest q')
  then show ?thesis
    using notify_one_frame [OF body_add(3)] notify_one_not_waiting [OF body_add(3), of t]
    by (intro exI [of _ "[]"]) simp
next
  case (body_add_one x)
  then show ?thesis
    using notify_one_frame [OF body_add_one(2)] notify_one_not_waiting [OF body_add_one(2), of t]
    by (intro exI [of _ "[]"]) simp
next
  case (body_pop n got pulled q')
  then show ?thesis
    using notify_one_frame [OF body_pop(3)] notify_one_not_waiting [OF body_pop(3), of t]
    by (intro exI [of _ pulled]) simp
next
  case (body_next n)
  then show ?thesis
    using notify_one_frame [OF body_next(2)] notify_one_not_waiting [OF body_next(2), of t]
    by (intro exI [of _ "take n (data_queue (queue s))"]) simp
next
  case end_notify
  then show ?thesis
    using notify_one_frame [OF end_notify(2)] notify_one_not_waiting [OF end_notify(2), of t]
    by (intro exI [of _ "[]"]) simp
next
  case body_discard
  then show ?thesis
    by (intro exI [of _ "data_queue (queue s)"]) (simp add: notify_all_def)
next
  case (body_set_max m)
  then show ?thesis
    using notify_one_frame [OF body_set_max(2)] notify_one_not_waiting [OF body_set_max(2), of t]
    by (intro exI [of _ "[]"]) simp
qed (auto intro!: exI [of _ "[]"])

lemma reachable_copied: "reachable allowed q0 s \<Longrightarrow> copied_inv s"
proof (induction rule: reachable.induct)
  case start
  then show ?case by (simp add: copied_inv_def initial_sys_def)
next
  case (calls s s')
  from calls(2) show ?case
  proof cases
    case (call t r op)
    then have "copied (At (entry_phase op) op) = []" by (cases op) auto
    then show ?thesis using calls(3) call by (auto simp: copied_inv_def taken_by_def)
  qed
next
  case (runs s t s')
  from run_step_copied [OF runs(2)] obtain xs where xs: "taken s' = taken s @ map (Pair t) xs"
    and now: "copied (threads s' t) = copied (threads s t) @ xs \<or> copied (threads s' t) = []" by blast
  show ?case
    unfolding copied_inv_def
  proof
    fix u
    obtain b where b: "taken_by u s = b @ copied (threads s u)" using runs(3) by (auto simp: copied_inv_def)
    show "\<exists>before. taken_by u s' = before @ copied (threads s' u)"
    proof (cases "u = t")
      case True
      then show ?thesis using taken_by_append [OF xs, of u] b now by auto
    next
      case False
      then show ?thesis using taken_by_append [OF xs, of u] b run_step_others [OF runs(2) False] by auto
    qed
  qed
qed

text \<open>With a single reader everything taken was taken by it.\<close>

definition single_reader :: "(nat \<Rightarrow> 'a op \<Rightarrow> bool) \<Rightarrow> nat \<Rightarrow> bool" where
  "single_reader allowed r \<longleftrightarrow>
     (\<forall>t op. allowed t op \<longrightarrow> kind_of op \<in> {K_pop, K_next, K_discard} \<longrightarrow> t = r)"

lemma run_step_takes:
  assumes "run_step t s s'" and "\<forall>k. thread_kind (threads s t) = Some k \<longrightarrow> k \<notin> {K_pop, K_next, K_discard}"
  shows "taken s' = taken s"
  using assms by cases (auto dest: notify_one_frame)

lemma reachable_single_reader:
  assumes "reachable allowed q0 s" and "single_reader allowed r"
  shows "\<forall>e \<in> set (taken s). fst e = r"
  using assms(1)
proof (induction rule: reachable.induct)
  case start
  then show ?case by (simp add: initial_sys_def)
next
  case (calls s s')
  from calls(2) show ?case by cases (use calls(3) in auto)
next
  case (runs s t s')
  show ?case
  proof (cases "t = r")
    case True
    then show ?thesis using runs run_step_copied [OF runs(2)] by auto
  next
    case False
    have "k \<notin> {K_pop, K_next, K_discard}" if "thread_kind (threads s t) = Some k" for k
      using reachable_kinds [OF runs(1), of "\<lambda>t k. k \<in> {K_pop, K_next, K_discard} \<longrightarrow> t = r", OF _ that]
        assms(2) False by (auto simp: single_reader_def)
    then show ?thesis using run_step_takes [OF runs(2)] runs(3) by simp
  qed
qed

lemma single_reader_segment:
  assumes "reachable allowed q0 s" and "single_reader allowed r"
  shows "\<exists>before. written s = before @ copied (threads s r) @ data_queue (queue s)"
proof -
  have "taken_by r s = map snd (taken s)"
    using reachable_single_reader [OF assms] by (simp add: taken_by_def)
  moreover obtain b where "taken_by r s = b @ copied (threads s r)"
    using reachable_copied [OF assms(1)] by (auto simp: copied_inv_def)
  ultimately have "written s = b @ copied (threads s r) @ data_queue (queue s)"
    using reachable_fifo [OF assms(1)] by (metis append.assoc fifo_inv_def)
  then show ?thesis ..
qed

section \<open>The bound on the queue's length\<close>

text \<open>Writers that only use \<open>addDataPoints\<close>, and nobody who changes the maximum.\<close>

definition chunk_writers :: "(nat \<Rightarrow> 'a op \<Rightarrow> bool) \<Rightarrow> bool" where
  "chunk_writers allowed \<longleftrightarrow> (\<forall>t op. allowed t op \<longrightarrow> kind_of op \<notin> {K_add_one, K_set_max})"

lemma run_step_wf:
  assumes "run_step t s s'" and "queue_wf (queue s)"
    and "\<forall>k. thread_kind (threads s t) = Some k \<longrightarrow> k \<notin> {K_add_one, K_set_max}"
  shows "queue_wf (queue s') \<and> queue_max_size (queue s') = queue_max_size (queue s)"
  using assms(1)
proof cases
  case (body_add xs rest q')
  have "queue_wf q' \<and> queue_max_size q' = queue_max_size (queue s)"
    using queue_wf_add_chunk [OF assms(2), of xs] body_add(2) by (auto simp: add_chunk_def Let_def)
  then show ?thesis using notify_one_frame [OF body_add(3)] by simp
next
  case (body_pop n got pulled q')
  have "queue_wf q' \<and> queue_max_size q' = queue_max_size (queue s)"
    using queue_wf_remove [OF assms(2), of n] body_pop(2)
    by (auto simp: pop_chunk_alt removePointsFromQueue_alt)
  then show ?thesis using notify_one_frame [OF body_pop(3)] by simp
next
  case (body_next n)
  then show ?thesis using notify_one_frame [OF body_next(2)] queue_wf_remove [OF assms(2), of n]
    by (simp add: removePointsFromQueue_alt)
qed (use assms(2,3) in \<open>auto dest: notify_one_frame simp: notifyStreamEnd_def discardRestOfStream_def queue_wf_def\<close>)

lemma reachable_wf:
  assumes "reachable allowed q0 s" and "chunk_writers allowed" and "queue_wf q0"
  shows "queue_wf (queue s) \<and> queue_max_size (queue s) = queue_max_size q0"
  using assms(1)
proof (induction rule: reachable.induct)
  case start
  then show ?case using assms(3) by (simp add: initial_sys_def)
next
  case (calls s s')
  from calls(2) show ?case by cases (use calls(3) in auto)
next
  case (runs s t s')
  have "k \<notin> {K_add_one, K_set_max}" if "thread_kind (threads s t) = Some k" for k
    using reachable_kinds [OF runs(1), of "\<lambda>t k. k \<notin> {K_add_one, K_set_max}", OF _ that] assms(2)
    by (simp add: chunk_writers_def)
  then show ?case using run_step_wf [OF runs(2)] runs(3) by auto
qed

section \<open>One writer and one reader\<close>

definition spsc :: "nat \<Rightarrow> nat \<Rightarrow> nat \<Rightarrow> 'a op \<Rightarrow> bool" where
  "spsc w r t op \<longleftrightarrow> w \<noteq> r \<and> (t = w \<and> kind_of op \<in> {K_add, K_end} \<or> t = r \<and> kind_of op = K_pop)"

lemma spsc_restrictions: "chunk_writers (spsc w r)" "single_reader (spsc w r) r"
  by (auto simp: chunk_writers_def single_reader_def spsc_def)

lemma spsc_kinds:
  assumes "reachable (spsc w r) q0 s" and "thread_kind (threads s t) = Some k"
  shows "w \<noteq> r \<and> (t = w \<and> k \<in> {K_add, K_end} \<or> t = r \<and> k = K_pop)"
  by (rule reachable_kinds [OF assms(1) _ assms(2)]) (simp add: spsc_def)

text \<open>
  A thread that sleeps, or is about to, has a reason: a reader an empty queue, a writer a
  full one.
\<close>

definition asleep :: "'a thread \<Rightarrow> bool" where
  "asleep th \<longleftrightarrow> (\<exists>op. th = At Sleep op \<or> th = At Waiting op)"

definition sleep_inv :: "nat \<Rightarrow> nat \<Rightarrow> 'a qsys \<Rightarrow> bool" where
  "sleep_inv w r s \<longleftrightarrow>
     (asleep (threads s r) \<longrightarrow> data_queue (queue s) = []) \<and>
     (asleep (threads s w) \<longrightarrow> queue_max_size (queue s) \<le> length (data_queue (queue s)))"

lemma asleep_simps [simp]:
  "asleep (At ph op) = (ph = Sleep \<or> ph = Waiting)" "\<not> asleep Idle" "\<not> asleep (Done xs)"
  by (auto simp: asleep_def)

lemma asleep_woken: "asleep (woken th) \<Longrightarrow> asleep th"
  by (cases th rule: woken.cases) auto

lemma kind_cases:
  "kind_of op = K_add \<Longrightarrow> \<exists>xs. op = Op_add xs"
  "kind_of op = K_pop \<Longrightarrow> \<exists>n got. op = Op_pop n got"
  "kind_of op = K_end \<Longrightarrow> op = Op_end"
  by (cases op; simp)+

text \<open>The two kinds of thread, and which condition variable they can wait for.\<close>

lemma spsc_waiting:
  assumes "reachable (spsc w r) q0 s" and "waiting_for c (threads s u)"
  shows "(c = Underflow \<longrightarrow> u = r) \<and> (c = Overflow \<longrightarrow> u = w)"
proof -
  from assms(2) obtain op where op: "threads s u = At Waiting op" "waits_on op = Some c"
    by (auto simp: waiting_for_def)
  then show ?thesis using spsc_kinds [OF assms(1), of u "kind_of op"] by (cases op) auto
qed

lemma spsc_asleep_waits:
  assumes "reachable (spsc w r) q0 s" and "asleep (threads s t)" and "mutex s \<noteq> Some t"
  shows "(t = r \<longrightarrow> waiting_for Underflow (threads s t)) \<and> (t = w \<longrightarrow> waiting_for Overflow (threads s t))"
proof -
  note inv = reachable_mutex_inv [OF assms(1)]
  from assms(2) obtain op where "threads s t = At Sleep op \<or> threads s t = At Waiting op"
    by (auto simp: asleep_def)
  moreover have "threads s t \<noteq> At Sleep op" for op
    using mutex_invD [OF inv, of t] assms(3) by auto
  ultimately have op: "threads s t = At Waiting op" by auto
  then have "op \<noteq> Op_end" using mutex_invD(2) [OF inv, of t] by auto
  moreover have "w \<noteq> r \<and> (t = w \<and> kind_of op \<in> {K_add, K_end} \<or> t = r \<and> kind_of op = K_pop)"
    by (rule spsc_kinds [OF assms(1)]) (simp add: op)
  ultimately show ?thesis using op by (cases op) (auto simp: waiting_for_def)
qed

lemma notify_one_wakes_other:
  assumes "notify_one c s1 s'" and "threads s1 = (threads s)(t := th)" and "\<not> waiting_for c th"
    and "waiting_for c (threads s u)" and "u \<noteq> t"
    and "\<And>v. waiting_for c (threads s v) \<Longrightarrow> v = u"
  shows "threads s' u = woken (threads s u)"
proof -
  have "threads s' u = woken (threads s1 u)"
  proof (rule notify_one_wakes [OF assms(1)])
    show "waiting_for c (threads s1 u)" using assms(2,4,5) by simp
    show "v = u" if "waiting_for c (threads s1 v)" for v
      using that assms(2,3,6) by (cases "v = t") simp_all
  qed
  then show ?thesis using assms(2,5) by simp
qed

lemma asleep_woken_waiting: "waiting_for c th \<Longrightarrow> \<not> asleep (woken th)"
  by (auto simp: waiting_for_def)

lemma run_step_sleep_inv:
  assumes reach: "reachable (spsc w r) q0 s" and step: "run_step t s s'" and inv: "sleep_inv w r s"
  shows "sleep_inv w r s'"
proof -
  have kind: "w \<noteq> r \<and> (t = w \<and> kind_of op \<in> {K_add, K_end} \<or> t = r \<and> kind_of op = K_pop)"
    if "threads s t = At ph op" for ph op
    by (rule spsc_kinds [OF reach]) (simp add: that)
  have others: "asleep (threads s u)" if "asleep (threads s' u)" "u \<noteq> t" for u
    using run_step_others [OF step that(2)] that(1) asleep_woken by metis
  show ?thesis using step
  proof cases
    case (test_false op)
    then show ?thesis using kind [OF test_false(2)] inv others
      by (cases op) (auto simp: sleep_inv_def queueNotFull_def queueNotEmpty_def)
  next
    case (fall_asleep op)
    then show ?thesis using inv by (auto simp: sleep_inv_def)
  next
    case (body_add xs rest q')
    have t: "t = w" "w \<noteq> r" using kind [OF body_add(1)] by auto
    have me: "\<not> asleep (threads s' w)" using notify_one_not_waiting [OF body_add(3), of t] by (simp add: t)
    have "mutex s = Some t" using mutex_invD [OF reachable_mutex_inv [OF reach], of t] body_add(1) by auto
    have "\<not> asleep (threads s' r)"
    proof
      assume "asleep (threads s' r)"
      then have "waiting_for Underflow (threads s r)"
        using others [of r] spsc_asleep_waits [OF reach, of r] \<open>mutex s = Some t\<close> t by auto
      moreover have "threads s' r = woken (threads s r)"
      proof (rule notify_one_wakes_other [OF body_add(3) _ _ calculation])
        show "v = r" if "waiting_for Underflow (threads s v)" for v
          using spsc_waiting [OF reach that] by simp
      qed (use t in \<open>auto simp: waiting_for_def\<close>)
      ultimately show False using \<open>asleep (threads s' r)\<close> asleep_woken_waiting by metis
    qed
    with me show ?thesis by (simp add: sleep_inv_def)
  next
    case (body_pop n got pulled q')
    have t: "t = r" "w \<noteq> r" using kind [OF body_pop(1)] by auto
    have me: "\<not> asleep (threads s' r)" using notify_one_not_waiting [OF body_pop(3), of t] by (simp add: t)
    have "mutex s = Some t" using mutex_invD [OF reachable_mutex_inv [OF reach], of t] body_pop(1) by auto
    have "\<not> asleep (threads s' w)"
    proof
      assume "asleep (threads s' w)"
      then have "waiting_for Overflow (threads s w)"
        using others [of w] spsc_asleep_waits [OF reach, of w] \<open>mutex s = Some t\<close> t by auto
      moreover have "threads s' w = woken (threads s w)"
      proof (rule notify_one_wakes_other [OF body_pop(3) _ _ calculation])
        show "v = w" if "waiting_for Overflow (threads s v)" for v
          using spsc_waiting [OF reach that] by simp
      qed (use t in \<open>auto simp: waiting_for_def\<close>)
      ultimately show False using \<open>asleep (threads s' w)\<close> asleep_woken_waiting by metis
    qed
    with me show ?thesis by (simp add: sleep_inv_def)
  next
    case end_notify
    then show ?thesis using inv others notify_one_frame [OF end_notify(2)]
      notify_one_not_waiting [OF end_notify(2), of t] unfolding sleep_inv_def
      by (metis asleep_simps(3) fun_upd_same move_simps(1) move_simps(5) not_waiting(1))
  next
    case (body_add_one x)
    then show ?thesis using kind [OF body_add_one(1)] by auto
  next
    case (body_next n)
    then show ?thesis using kind [OF body_next(1)] by auto
  next
    case body_discard
    then show ?thesis using kind [OF body_discard(2)] by auto
  next
    case (body_set_max m)
    then show ?thesis using kind [OF body_set_max(1)] by auto
  qed (use inv in \<open>auto simp: sleep_inv_def notifyStreamEnd_def split: if_splits\<close>)
qed

lemma reachable_sleep_inv: "reachable (spsc w r) q0 s \<Longrightarrow> sleep_inv w r s"
proof (induction rule: reachable.induct)
  case start
  then show ?case by (simp add: sleep_inv_def initial_sys_def)
next
  case (calls s s')
  from calls(2) show ?case
  proof cases
    case (call t x op)
    then have "\<not> asleep (At (entry_phase op) op)" by (cases op) auto
    then show ?thesis using calls(3) call by (auto simp: sleep_inv_def)
  qed
next
  case (runs s t s')
  show ?case by (rule run_step_sleep_inv [OF runs(1) runs(2) runs(3)])
qed

section \<open>Progress\<close>

text \<open>A thread in a call that does not sleep can take a step as soon as the mutex allows it.\<close>

lemma holder_can_step:
  assumes "mutex_inv s" and "mutex s = Some t"
  shows "\<exists>s'. run_step t s s'"
proof -
  have "holds_mutex (threads s t)" using mutex_invD(1) [OF assms(1), of t] assms(2) by simp
  then obtain ph op where op: "threads s t = At ph op" "ph \<in> {Test, Sleep, Body}" "op \<noteq> Op_end"
    by (auto simp: holds_mutex_def)
  show ?thesis
  proof (cases ph)
    case Test
    then show ?thesis using op run_step.test_true run_step.test_false by blast
  next
    case Sleep
    then show ?thesis using op run_step.fall_asleep by blast
  next
    case Body
    then have b: "threads s t = At Body op" using op by simp
    show ?thesis
    proof (cases op)
      case (Op_add xs)
      then show ?thesis
        using b run_step.body_add notify_one_total by (metis surj_pair)
    next
      case (Op_pop n got)
      then show ?thesis using b run_step.body_pop notify_one_total by (metis surj_pair)
    next
      case (Op_add_one x)
      then show ?thesis using b run_step.body_add_one notify_one_total by metis
    next
      case (Op_next n)
      then show ?thesis using b run_step.body_next notify_one_total by metis
    next
      case (Op_set_max m)
      then show ?thesis using b run_step.body_set_max notify_one_total by metis
    next
      case Op_discard
      then show ?thesis using b run_step.body_discard by blast
    next
      case Op_end
      then show ?thesis using op by simp
    qed
  qed (use op in auto)
qed

lemma awake_can_step:
  assumes "mutex_inv s" and "mutex s = None" and "threads s t = At ph op" and "ph \<noteq> Waiting"
    and "ph = Loop \<Longrightarrow> op = Op_end \<or> (\<exists>xs. op = Op_add xs) \<or> (\<exists>n got. op = Op_pop n got)"
  shows "\<exists>s'. run_step t s s'"
proof -
  have "\<not> holds_mutex (threads s t)" using mutex_invD(1) [OF assms(1), of t] assms(2) by simp
  then have "ph = Loop \<or> ph = Acquire \<or> ph = Body \<and> op = Op_end"
    using assms(3,4) mutex_invD(2) [OF assms(1), of t] by (cases ph) auto
  then show ?thesis
  proof (elim disjE)
    assume "ph = Acquire"
    then show ?thesis using assms(2,3) run_step.acquire by blast
  next
    assume "ph = Body \<and> op = Op_end"
    then show ?thesis using assms(3) run_step.end_notify notify_one_total by metis
  next
    assume loop: "ph = Loop"
    with assms(5) consider "op = Op_end" | xs where "op = Op_add xs" | n got where "op = Op_pop n got"
      by blast
    then show ?thesis
    proof cases
      case 1
      then show ?thesis using assms(3) loop run_step.end_flag by metis
    next
      case (2 xs)
      then show ?thesis using assms(3) loop run_step.add_enter run_step.add_leave by metis
    next
      case (3 n got)
      then show ?thesis using assms(3) loop run_step.pop_again run_step.pop_leave by metis
    qed
  qed
qed

text \<open>
  In the middle of a write and a read one of the two can always move: they are never both
  asleep, for the queue cannot be both full and empty.
\<close>


lemma spsc_not_stuck:
  assumes "reachable (spsc w r) q0 s"
    and "threads s w = At ph1 (Op_add xs)" and "threads s r = At ph2 (Op_pop n got)"
    and "0 < queue_max_size (queue s)"
  shows "\<exists>t s'. run_step t s s'"
proof (cases "mutex s")
  case (Some t)
  then show ?thesis using holder_can_step [OF reachable_mutex_inv [OF assms(1)] Some] by blast
next
  case None
  have "\<not> (ph1 = Waiting \<and> ph2 = Waiting)"
    using reachable_sleep_inv [OF assms(1)] assms(2-4) by (auto simp: sleep_inv_def)
  then show ?thesis
    using awake_can_step [OF reachable_mutex_inv [OF assms(1)] None assms(2)]
      awake_can_step [OF reachable_mutex_inv [OF assms(1)] None assms(3)] by blast
qed

section \<open>Two runs\<close>

lemma step_to: "reachable A q s \<Longrightarrow> run_step t s s'' \<Longrightarrow> s'' = s' \<Longrightarrow> reachable A q s'"
  by (metis reachable.runs)

lemma call_to: "reachable A q s \<Longrightarrow> call_step A s s'' \<Longrightarrow> s'' = s' \<Longrightarrow> reachable A q s'"
  by (metis reachable.calls)

text \<open>A state in which only the threads 0 and 1 have made calls.\<close>

definition two_threads ::
  "'a async_queue \<Rightarrow> nat option \<Rightarrow> 'a thread \<Rightarrow> 'a thread \<Rightarrow> 'a list \<Rightarrow> (nat \<times> 'a) list \<Rightarrow> 'a qsys" where
  "two_threads q m a b ws ts =
     \<lparr>queue = q, mutex = m, threads = (\<lambda>_. Idle)(0 := a, 1 := b), written = ws, taken = ts\<rparr>"

lemma two_threads_simps [simp]:
  "queue (two_threads q m a b ws ts) = q" "mutex (two_threads q m a b ws ts) = m"
  "written (two_threads q m a b ws ts) = ws" "taken (two_threads q m a b ws ts) = ts"
  "threads (two_threads q m a b ws ts) 0 = a" "threads (two_threads q m a b ws ts) 1 = b"
  "threads (two_threads q m a b ws ts) (Suc 0) = b"
  by (simp_all add: two_threads_def)

lemma two_threads_move [simp]:
  "move 0 th (two_threads q m a b ws ts) = two_threads q m th b ws ts"
  "move 1 th (two_threads q m a b ws ts) = two_threads q m a th ws ts"
  "move (Suc 0) th (two_threads q m a b ws ts) = two_threads q m a th ws ts"
  "(two_threads q m a b ws ts)\<lparr>mutex := m'\<rparr> = two_threads q m' a b ws ts"
  "(two_threads q m a b ws ts)\<lparr>queue := q'\<rparr> = two_threads q' m a b ws ts"
  "(two_threads q m a b ws ts)\<lparr>written := ws'\<rparr> = two_threads q m a b ws' ts"
  "(two_threads q m a b ws ts)\<lparr>taken := ts'\<rparr> = two_threads q m a b ws ts'"
  by (auto simp: two_threads_def move_def)

lemma two_threads_other: "u \<noteq> 0 \<Longrightarrow> u \<noteq> 1 \<Longrightarrow> threads (two_threads q m a b ws ts) u = Idle"
  by (simp add: two_threads_def)

lemma initial_two: "initial_sys q = two_threads q None Idle Idle (data_queue q) []"
  by (auto simp: initial_sys_def two_threads_def)

lemma two_threads_no_waiter:
  "\<not> waiting_for c a \<Longrightarrow> \<not> waiting_for c b \<Longrightarrow>
     notify_one c (two_threads q m a b ws ts) (two_threads q m a b ws ts)"
  by (rule notify_one.no_waiter) (simp add: two_threads_def waiting_for_def)

lemmas two_thread_steps = two_threads_no_waiter waiting_for_def

text \<open>
  Thread 0 reads, thread 1 announces the end of the stream after the reader has tested the
  wait predicate and before it sleeps: the notification finds nobody, and the reader sleeps
  although the flag is set.
\<close>

definition lost_wakeup :: "'a qsys" where
  "lost_wakeup = two_threads (notifyStreamEnd new_queue) None
     (At Waiting (Op_pop 1 [])) (Done []) [] []"

lemma lost_wakeup_reachable: "reachable (spsc 1 0) new_queue lost_wakeup"
proof -
  let ?q = "new_queue :: 'a async_queue" and ?e = "notifyStreamEnd (new_queue :: 'a async_queue)"
  let ?R = "reachable (spsc 1 0) ?q" and ?p = "Op_pop 1 [] :: 'a op"
  have s0: "?R (two_threads ?q None Idle Idle [] [])"
    using reachable.start [of "spsc 1 0" ?q] by (simp add: initial_two new_queue_def)
  have s1: "?R (two_threads ?q None (At Acquire ?p) Idle [] [])"
    by (rule call_to [OF s0 call_step.call [where t = 0 and op = ?p]]) (simp_all add: spsc_def)
  have s2: "?R (two_threads ?q (Some 0) (At Test ?p) Idle [] [])"
    by (rule step_to [OF s1 run_step.acquire [where t = 0 and op = ?p]]) simp_all
  have s3: "?R (two_threads ?q (Some 0) (At Sleep ?p) Idle [] [])"
    by (rule step_to [OF s2 run_step.test_false [where t = 0 and op = ?p]])
      (simp_all add: queueNotEmpty_def new_queue_def)
  have s4: "?R (two_threads ?q (Some 0) (At Sleep ?p) (At Loop Op_end) [] [])"
    by (rule call_to [OF s3 call_step.call [where t = 1 and op = Op_end]]) (simp_all add: spsc_def)
  have s5: "?R (two_threads ?e (Some 0) (At Sleep ?p) (At Body Op_end) [] [])"
    by (rule step_to [OF s4 run_step.end_flag [where t = 1]]) simp_all
  have s6: "?R (two_threads ?e (Some 0) (At Sleep ?p) (Done []) [] [])"
    by (rule step_to [OF s5 run_step.end_notify [where t = 1 and
          s' = "two_threads ?e (Some 0) (At Sleep ?p) (Done []) [] []"]])
      (simp_all add: two_thread_steps)
  show ?thesis unfolding lost_wakeup_def
    by (rule step_to [OF s6 run_step.fall_asleep [where t = 0 and op = ?p]]) simp_all
qed

lemma run_step_active: "run_step t s s' \<Longrightarrow> \<exists>ph op. threads s t = At ph op \<and> ph \<noteq> Waiting"
  by (erule run_step.cases; blast)

lemma lost_wakeup_stuck: "\<not> run_step t (lost_wakeup :: 'a qsys) s'"
proof
  assume "run_step t lost_wakeup s'"
  note run_step_active [OF this]
  moreover have "threads (lost_wakeup :: 'a qsys) t = At Waiting (Op_pop 1 []) \<or> threads (lost_wakeup :: 'a qsys) t = Done []
      \<or> threads (lost_wakeup :: 'a qsys) t = Idle"
    by (cases "t = 0"; cases "t = 1") (auto simp: lost_wakeup_def two_threads_other)
  ultimately show False by auto
qed

text \<open>
  Thread 0 wants two points and has copied one; thread 1 writes the second and announces the
  end of the stream before the reader evaluates its loop condition: the reader returns with
  one point although the other lies in the queue.
\<close>

abbreviation of_points :: "'a list \<Rightarrow> 'a async_queue" where
  "of_points xs \<equiv> new_queue\<lparr>data_queue := xs\<rparr>"

lemma add_to_new: "add_chunk [x] (of_points []) = ([], of_points [x])"
  by (subst add_chunk_wf) (simp_all add: queue_wf_def new_queue_def)

lemma pop_from_new:
  "pop_chunk 2 (of_points [x]) = ([x], of_points [])"
  by (simp add: pop_chunk_alt)

definition before_short_read :: "'a \<Rightarrow> 'a \<Rightarrow> 'a qsys" where
  "before_short_read x y = two_threads (notifyStreamEnd (of_points [y])) None
     (At Loop (Op_pop 1 [x])) (At Body Op_end) [x, y] [(0, x)]"

definition short_read :: "'a \<Rightarrow> 'a \<Rightarrow> 'a qsys" where
  "short_read x y = two_threads (notifyStreamEnd (of_points [y])) None
     (Done [x]) (At Body Op_end) [x, y] [(0, x)]"

lemma write_one:
  fixes x :: 'a
  assumes R: "reachable (spsc 1 0) new_queue (two_threads (of_points []) None a b ws ts)"
    and b: "b = Idle \<or> b = Done []" and a: "\<not> waiting_for Underflow a"
  shows "reachable (spsc 1 0) new_queue (two_threads (of_points [x]) None a (Done []) (ws @ [x]) ts)"
proof -
  let ?R = "reachable (spsc 1 0) new_queue"
  let ?w = "Op_add [x]" and ?q = "of_points [] :: 'a async_queue" and ?q' = "of_points [x]"
  have s1: "?R (two_threads ?q None a (At Loop ?w) ws ts)"
    by (rule call_to [OF R call_step.call [where t = 1 and op = ?w and r = "[]"]]) (use b in \<open>simp_all add: spsc_def\<close>)
  have s2: "?R (two_threads ?q None a (At Acquire ?w) ws ts)"
    by (rule step_to [OF s1 run_step.add_enter [where t = 1 and xs = "[x]"]]) (simp_all add: new_queue_def)
  have s3: "?R (two_threads ?q (Some 1) a (At Test ?w) ws ts)"
    by (rule step_to [OF s2 run_step.acquire [where t = 1 and op = ?w]]) simp_all
  have s4: "?R (two_threads ?q (Some 1) a (At Body ?w) ws ts)"
    by (rule step_to [OF s3 run_step.test_true [where t = 1 and op = ?w]])
      (simp_all add: queueNotFull_def new_queue_def)
  have s5: "?R (two_threads ?q' None a (At Loop (Op_add [])) (ws @ [x]) ts)"
    by (rule step_to [OF s4 run_step.body_add [where t = 1 and xs = "[x]" and rest = "[]" and q' = ?q' and
          s' = "two_threads ?q' None a (At Loop (Op_add [])) (ws @ [x]) ts"]])
      (use a in \<open>simp_all add: add_to_new two_thread_steps\<close>)
  show ?thesis
    by (rule step_to [OF s5 run_step.add_leave [where t = 1 and xs = "[]"]]) simp_all
qed

lemma before_short_read_reachable: "reachable (spsc 1 0) new_queue (before_short_read x y)"
proof -
  let ?R = "reachable (spsc 1 0) new_queue" and ?p = "Op_pop 2 []" and ?p1 = "Op_pop 1 [x]"
  let ?e = "notifyStreamEnd (of_points [y])" and ?D = "Done []"
  have s0: "?R (two_threads (of_points []) None Idle Idle [] [])"
    using reachable.start [of "spsc 1 0" new_queue] by (simp add: initial_two new_queue_def)
  have s1: "?R (two_threads (of_points [x]) None Idle ?D [x] [])"
    using write_one [OF s0] by (simp add: waiting_for_def)
  have s2: "?R (two_threads (of_points [x]) None (At Acquire ?p) ?D [x] [])"
    by (rule call_to [OF s1 call_step.call [where t = 0 and op = ?p]]) (simp_all add: spsc_def)
  have s3: "?R (two_threads (of_points [x]) (Some 0) (At Test ?p) ?D [x] [])"
    by (rule step_to [OF s2 run_step.acquire [where t = 0 and op = ?p]]) simp_all
  have s4: "?R (two_threads (of_points [x]) (Some 0) (At Body ?p) ?D [x] [])"
    by (rule step_to [OF s3 run_step.test_true [where t = 0 and op = ?p]]) (simp_all add: queueNotEmpty_def)
  have s5: "?R (two_threads (of_points []) None (At Loop ?p1) ?D [x] [(0, x)])"
    by (rule step_to [OF s4 run_step.body_pop [where t = 0 and n = 2 and got = "[]" and pulled = "[x]"
          and q' = "of_points []" and s' = "two_threads (of_points []) None (At Loop ?p1) ?D [x] [(0, x)]"]])
      (simp_all add: pop_from_new two_thread_steps)
  have s6: "?R (two_threads (of_points [y]) None (At Loop ?p1) ?D ([x] @ [y]) [(0, x)])"
    by (rule write_one [OF s5]) (simp_all add: waiting_for_def)
  have s7: "?R (two_threads (of_points [y]) None (At Loop ?p1) (At Loop Op_end) [x, y] [(0, x)])"
    by (rule call_to [OF s6 call_step.call [where t = 1 and op = Op_end]]) (simp_all add: spsc_def)
  show ?thesis unfolding before_short_read_def
    by (rule step_to [OF s7 run_step.end_flag [where t = 1]]) simp_all
qed

lemma short_read_step: "run_step 0 (before_short_read x y) (short_read x y)"
  using run_step.pop_leave [of "before_short_read x y" 0 1 "[x]"]
  by (simp add: before_short_read_def short_read_def notifyStreamEnd_def)

lemma short_read_reachable: "reachable (spsc 1 0) new_queue (short_read x y)"
  by (rule reachable.runs [OF before_short_read_reachable short_read_step])

section \<open>Properties\<close>

text \<open>
  C1: in every reachable state of any threads making any calls, the points written so far, in
  the order of their insertion, are the points removed so far in the order of their removal,
  followed by what the queue holds: nothing is lost, duplicated or reordered.
\<close>

theorem queue_is_fifo:
  assumes "reachable allowed q0 s"
  shows "written s = map snd (taken s) @ data_queue (queue s)"
  using reachable_fifo [OF assms] by (simp add: fifo_inv_def)

theorem queue_is_fifo_witness:
  "written (short_read (1::nat) 2) = [1, 2] \<and> map snd (taken (short_read (1::nat) 2)) = [1]
     \<and> data_queue (queue (short_read (1::nat) 2)) = [2]"
  using queue_is_fifo [OF short_read_reachable [of "1::nat" 2]]
  by (simp add: short_read_def notifyStreamEnd_def)

text \<open>
  No two threads are ever inside the queue's critical sections at once (the announcement
  of the stream's end is the exception: it has none), and a thread inside one can always move.
\<close>

theorem critical_sections_exclude:
  assumes "reachable allowed q0 s" and "holds_mutex (threads s t)"
  shows "mutex s = Some t \<and> (\<forall>u. u \<noteq> t \<longrightarrow> \<not> holds_mutex (threads s u)) \<and> (\<exists>s'. run_step t s s')"
proof -
  note inv = reachable_mutex_inv [OF assms(1)]
  have t: "mutex s = Some t" using mutex_invD(1) [OF inv] assms(2) by simp
  with holder_can_step [OF inv t] mutex_invD(1) [OF inv] show ?thesis by simp
qed

lemma reader_inside:
  "reachable (spsc 1 0) new_queue
     (two_threads (new_queue :: nat async_queue) (Some 0) (At Test (Op_pop 1 [])) Idle [] [])"
proof -
  have s0: "reachable (spsc 1 0) new_queue (two_threads (new_queue :: nat async_queue) None Idle Idle [] [])"
    using reachable.start [of "spsc 1 0" "new_queue :: nat async_queue"] by (simp add: initial_two new_queue_def)
  have s1: "reachable (spsc 1 0) new_queue
      (two_threads (new_queue :: nat async_queue) None (At Acquire (Op_pop 1 [])) Idle [] [])"
    by (rule call_to [OF s0 call_step.call [where t = 0 and op = "Op_pop 1 []"]]) (simp_all add: spsc_def)
  show ?thesis
    by (rule step_to [OF s1 run_step.acquire [where t = 0 and op = "Op_pop 1 []"]]) simp_all
qed

theorem critical_sections_exclude_witness:
  "mutex (two_threads (new_queue :: nat async_queue) (Some 0) (At Test (Op_pop 1 [])) Idle [] []) = Some 0"
  using critical_sections_exclude [OF reader_inside, of 0] by simp

text \<open>
  C2: when a single thread reads, what its current (or just finished) call has copied is a
  contiguous piece of the stream, the one that ends where the queue's contents begin.
\<close>

theorem reader_gets_segment:
  assumes "reachable allowed q0 s" and "single_reader allowed r"
  shows "\<exists>before. written s = before @ copied (threads s r) @ data_queue (queue s)"
  by (rule single_reader_segment [OF assms])

theorem reader_gets_segment_witness:
  "\<exists>before. written (short_read (1::nat) 2) = before @ [1] @ [2]"
  using reader_gets_segment [OF short_read_reachable [of "1::nat" 2] spsc_restrictions(2)]
  by (simp add: short_read_def notifyStreamEnd_def)

text \<open>
  C4: while points are written in chunks (\<open>addDataPoints\<close>) and nobody changes the maximal size,
  the queue never holds more points than its maximum, whatever the readers do.
\<close>

theorem queue_respects_maximum:
  assumes "reachable allowed q0 s" and "chunk_writers allowed" and "queue_wf q0"
  shows "length (data_queue (queue s)) \<le> queue_max_size q0"
  using reachable_wf [OF assms] by (simp add: queue_wf_def)

theorem queue_respects_maximum_witness:
  "length (data_queue (queue (short_read (1::nat) 2))) \<le> 4096"
  using queue_respects_maximum [OF short_read_reachable [of "1::nat" 2] spsc_restrictions(1) new_queue_wf]
  by (simp add: new_queue_def)

text \<open>
  C3: one thread that writes chunks and one that reads never block each other: while both are
  in the middle of their calls and the queue has room for at least one point, one of them can
  take a step.
\<close>

theorem writer_and_reader_progress:
  assumes "reachable (spsc w r) q0 s"
    and "threads s w = At ph1 (Op_add xs)" and "threads s r = At ph2 (Op_pop n got)"
    and "0 < queue_max_size (queue s)"
  shows "\<exists>t s'. run_step t s s'"
  by (rule spsc_not_stuck [OF assms])

lemma both_calling:
  "reachable (spsc 1 0) new_queue
     (two_threads (new_queue :: nat async_queue) (Some 0) (At Test (Op_pop 1 [])) (At Loop (Op_add [7])) [] [])"
  by (rule call_to [OF reader_inside call_step.call [where t = 1 and op = "Op_add [7]"]])
    (simp_all add: spsc_def)

theorem writer_and_reader_progress_witness:
  "\<exists>t s'. run_step t
     (two_threads (new_queue :: nat async_queue) (Some 0) (At Test (Op_pop 1 [])) (At Loop (Op_add [7])) [] []) s'"
  using writer_and_reader_progress [OF both_calling, where xs = "[7]" and n = 1 and got = "[]"]
  by (simp add: new_queue_def)

text \<open>
  C5: \<open>notifyStreamEnd\<close> sets its flag without the mutex. There is a run of one reader and one
  writer in which the flag is set and the notification sent while the reader, having found the
  queue empty, is about to sleep: in the state that results the reader sleeps, the stream has
  ended, and no thread can take a step.
\<close>

theorem stream_end_can_be_missed:
  "\<exists>s :: nat qsys. reachable (spsc 1 0) new_queue s \<and> threads s 0 = At Waiting (Op_pop 1 [])
     \<and> threads s 1 = Done [] \<and> stream_ended (queue s) \<and> mutex s = None \<and> (\<forall>t s'. \<not> run_step t s s')"
proof (intro exI conjI)
  show "reachable (spsc 1 0) new_queue (lost_wakeup :: nat qsys)" by (rule lost_wakeup_reachable)
  show "\<forall>t s'. \<not> run_step t (lost_wakeup :: nat qsys) s'" using lost_wakeup_stuck by blast
qed (simp_all add: lost_wakeup_def notifyStreamEnd_def)

text \<open>
  C6: \<open>popDataPoints\<close> may return with fewer points than it was asked for although the queue
  holds the missing ones: its loop ends as soon as the flag is set.
\<close>

theorem reader_can_return_early:
  "\<exists>s s' :: nat qsys. reachable (spsc 1 0) new_queue s \<and> threads s 0 = At Loop (Op_pop 1 [1])
     \<and> run_step 0 s s' \<and> threads s' 0 = Done [1] \<and> data_queue (queue s') = [2]"
proof (intro exI conjI)
  show "reachable (spsc 1 0) new_queue (before_short_read (1::nat) 2)" by (rule before_short_read_reachable)
  show "run_step 0 (before_short_read (1::nat) 2) (short_read 1 2)" by (rule short_read_step)
qed (simp_all add: before_short_read_def short_read_def notifyStreamEnd_def)

end
