(* ===== verification/Ieee_Float.thy ===== *)
theory Ieee_Float
  imports Prelude Complex_Main
begin

text \<open>
  The program computes in \<^verbatim>\<open>float\<close> and \<^verbatim>\<open>double\<close>, which are IEEE 754 binary32 and
  binary64 on its platform. This theory gives the two formats an executable model: a value
  is a NaN, a signed infinity or a signed finite magnitude, an operation computes the exact
  rational result and rounds it to nearest, ties to even, with gradual underflow and overflow
  to infinity. Contraction of a product and a sum into one rounding (fused multiply-add) and
  extended precision are not modelled: the x86-64 build evaluates each operation in its own
  format. NaN payloads are not distinguished.

  The lemmas show the facts the components use: rounding is monotone and exact on
  representable values, subtraction of a value from itself is zero, squares and sums of
  squares are not negative, and the comparison is a strict order in which NaN is incomparable.
\<close>

named_theorems float_simps \<open>evaluation of float operations on the value classes\<close>

section \<open>Formats and values\<close>

record float_format =
  prec :: nat
  emin :: int
  emax :: int

definition binary32 :: float_format where
  "binary32 = \<lparr>prec = 24, emin = -126, emax = 127\<rparr>"

definition binary64 :: float_format where
  "binary64 = \<lparr>prec = 53, emin = -1022, emax = 1023\<rparr>"

text \<open>\<open>Fin s m\<close> is the finite value of magnitude \<open>m\<close>, negative when \<open>s\<close>; zeros are signed.\<close>

datatype fl = NaN | Inf bool | Fin bool rat

type_synonym f32 = fl
type_synonym f64 = fl

fun fl_val :: "fl \<Rightarrow> rat" where
  "fl_val (Fin s m) = (if s then - m else m)"
| "fl_val _ = 0"

abbreviation fl_zero :: fl where "fl_zero \<equiv> Fin False 0"
abbreviation fl_one :: fl where "fl_one \<equiv> Fin False 1"

fun is_fin :: "fl \<Rightarrow> bool" where
  "is_fin (Fin s m) = True"
| "is_fin _ = False"

section \<open>Rounding to nearest, ties to even\<close>

function bit_count :: "int \<Rightarrow> int" where
  "bit_count n = (if n \<le> 0 then 0 else bit_count (n div 2) + 1)"
  by pat_completeness auto
termination
  by (relation "measure nat") auto

declare bit_count.simps [simp del]

text \<open>The binary exponent of a positive magnitude: \<open>2 ^ bexp q \<le> q < 2 ^ (bexp q + 1)\<close>.\<close>

definition bexp :: "rat \<Rightarrow> int" where
  "bexp q = (let n = fst (quotient_of q); d = snd (quotient_of q);
                 e = bit_count n - bit_count d
             in if 2 powi e \<le> q then e else e - 1)"

definition round_half_even :: "rat \<Rightarrow> int" where
  "round_half_even x =
     (let f = \<lfloor>x\<rfloor>; r = x - of_int f
      in if r < 1 / 2 then f else if r > 1 / 2 then f + 1 else if even f then f else f + 1)"

text \<open>The spacing of the format's values around a magnitude.\<close>

definition ulp_exp :: "float_format \<Rightarrow> rat \<Rightarrow> int" where
  "ulp_exp fmt q = max (bexp q) (emin fmt) - (int (prec fmt) - 1)"

definition round_mag :: "float_format \<Rightarrow> rat \<Rightarrow> rat" where
  "round_mag fmt q = of_int (round_half_even (q / 2 powi ulp_exp fmt q)) * 2 powi ulp_exp fmt q"

definition fl_round :: "float_format \<Rightarrow> bool \<Rightarrow> rat \<Rightarrow> fl" where
  "fl_round fmt s q =
     (if q = 0 then Fin s 0
      else let r = round_mag fmt q in if 2 powi (emax fmt + 1) \<le> r then Inf s else Fin s r)"

text \<open>Rounding of an exact signed result; an exact zero takes the given sign.\<close>

definition fl_of_rat :: "float_format \<Rightarrow> bool \<Rightarrow> rat \<Rightarrow> fl" where
  "fl_of_rat fmt zero_sign v =
     (if v = 0 then Fin zero_sign 0 else fl_round fmt (v < 0) \<bar>v\<bar>)"

section \<open>Operations\<close>

fun fl_neg :: "fl \<Rightarrow> fl" where
  "fl_neg NaN = NaN"
| "fl_neg (Inf s) = Inf (\<not> s)"
| "fl_neg (Fin s m) = Fin (\<not> s) m"

fun fl_abs :: "fl \<Rightarrow> fl" where
  "fl_abs NaN = NaN"
| "fl_abs (Inf s) = Inf False"
| "fl_abs (Fin s m) = Fin False m"

fun fl_add :: "float_format \<Rightarrow> fl \<Rightarrow> fl \<Rightarrow> fl" where
  "fl_add fmt NaN b = NaN"
| "fl_add fmt a NaN = NaN"
| "fl_add fmt (Inf s) (Inf t) = (if s = t then Inf s else NaN)"
| "fl_add fmt (Inf s) (Fin t n) = Inf s"
| "fl_add fmt (Fin s m) (Inf t) = Inf t"
| "fl_add fmt (Fin s m) (Fin t n) = fl_of_rat fmt (s \<and> t) (fl_val (Fin s m) + fl_val (Fin t n))"

definition fl_sub :: "float_format \<Rightarrow> fl \<Rightarrow> fl \<Rightarrow> fl" where
  "fl_sub fmt a b = fl_add fmt a (fl_neg b)"

fun fl_mul :: "float_format \<Rightarrow> fl \<Rightarrow> fl \<Rightarrow> fl" where
  "fl_mul fmt NaN b = NaN"
| "fl_mul fmt a NaN = NaN"
| "fl_mul fmt (Inf s) (Inf t) = Inf (s \<noteq> t)"
| "fl_mul fmt (Inf s) (Fin t n) = (if n = 0 then NaN else Inf (s \<noteq> t))"
| "fl_mul fmt (Fin s m) (Inf t) = (if m = 0 then NaN else Inf (s \<noteq> t))"
| "fl_mul fmt (Fin s m) (Fin t n) = fl_round fmt (s \<noteq> t) (m * n)"

fun fl_div :: "float_format \<Rightarrow> fl \<Rightarrow> fl \<Rightarrow> fl" where
  "fl_div fmt NaN b = NaN"
| "fl_div fmt a NaN = NaN"
| "fl_div fmt (Inf s) (Inf t) = NaN"
| "fl_div fmt (Inf s) (Fin t n) = Inf (s \<noteq> t)"
| "fl_div fmt (Fin s m) (Inf t) = Fin (s \<noteq> t) 0"
| "fl_div fmt (Fin s m) (Fin t n) =
     (if n = 0 then (if m = 0 then NaN else Inf (s \<noteq> t)) else fl_round fmt (s \<noteq> t) (m / n))"

function isqrt :: "int \<Rightarrow> int" where
  "isqrt n = (if n \<le> 0 then 0
              else let r = 2 * isqrt (n div 4) in if (r + 1) * (r + 1) \<le> n then r + 1 else r)"
  by pat_completeness auto
termination
  by (relation "measure nat") auto

declare isqrt.simps [simp del]

text \<open>
  The square root: with \<open>2 ^ k\<close> the spacing of the result, the scaled radicand
  \<open>q / 2 ^ (2 * k)\<close> lies between the squares of two consecutive integers, and its
  comparison with the square of their midpoint decides the rounding.
\<close>

definition sqrt_mag :: "float_format \<Rightarrow> rat \<Rightarrow> rat" where
  "sqrt_mag fmt q =
     (let k = bexp q div 2 - (int (prec fmt) - 1); t = q / 2 powi (2 * k);
          r = of_int (isqrt \<lfloor>t\<rfloor>)
      in (if t \<le> (r + 1 / 2) * (r + 1 / 2) then r else r + 1) * 2 powi k)"

fun fl_sqrt :: "float_format \<Rightarrow> fl \<Rightarrow> fl" where
  "fl_sqrt fmt NaN = NaN"
| "fl_sqrt fmt (Inf s) = (if s then NaN else Inf False)"
| "fl_sqrt fmt (Fin s m) = (if m = 0 then Fin s 0 else if s then NaN else Fin False (sqrt_mag fmt m))"

text \<open>Comparison: every comparison with a NaN is false.\<close>

fun fl_less :: "fl \<Rightarrow> fl \<Rightarrow> bool" where
  "fl_less NaN b = False"
| "fl_less a NaN = False"
| "fl_less (Inf s) (Inf t) = (s \<and> \<not> t)"
| "fl_less (Inf s) (Fin t n) = s"
| "fl_less (Fin s m) (Inf t) = (\<not> t)"
| "fl_less (Fin s m) (Fin t n) = (fl_val (Fin s m) < fl_val (Fin t n))"

fun fl_eq :: "fl \<Rightarrow> fl \<Rightarrow> bool" where
  "fl_eq NaN b = False"
| "fl_eq a NaN = False"
| "fl_eq (Inf s) (Inf t) = (s = t)"
| "fl_eq (Fin s m) (Fin t n) = (fl_val (Fin s m) = fl_val (Fin t n))"
| "fl_eq _ _ = False"

text \<open>Conversions: from an integer, and between the formats.\<close>

definition fl_of_int :: "float_format \<Rightarrow> int \<Rightarrow> fl" where
  "fl_of_int fmt i = fl_of_rat fmt False (of_int i)"

fun fl_conv :: "float_format \<Rightarrow> fl \<Rightarrow> fl" where
  "fl_conv fmt (Fin s m) = fl_round fmt s m"
| "fl_conv fmt a = a"

section \<open>The binary exponent\<close>

lemma bit_count_bounds:
  "0 < n \<Longrightarrow> 2 ^ nat (bit_count n - 1) \<le> n \<and> n < 2 ^ nat (bit_count n) \<and> 0 < bit_count n"
proof (induction n rule: bit_count.induct)
  case (1 n)
  show ?case
  proof (cases "n = 1")
    case True
    then show ?thesis by (simp add: bit_count.simps)
  next
    case False
    define b where "b = bit_count (n div 2)"
    from False "1.prems" have pos: "0 < n div 2" by linarith
    have eq: "bit_count n = b + 1" using "1.prems" by (simp add: bit_count.simps [of n] b_def)
    have IH: "2 ^ nat (b - 1) \<le> n div 2" "n div 2 < 2 ^ nat b" "0 < b"
      using "1.IH" "1.prems" pos unfolding b_def by simp_all
    have "nat b = Suc (nat (b - 1))" using IH(3) by simp
    then have "(2::int) ^ nat b = 2 * 2 ^ nat (b - 1)" by simp
    moreover have "(2::int) ^ nat (b + 1) = 2 * 2 ^ nat b" using IH(3) by (simp add: nat_add_distrib)
    moreover have "2 * (n div 2) \<le> n" and "n < 2 * (n div 2) + 2" by linarith+
    ultimately show ?thesis using IH by (simp add: eq)
  qed
qed

lemma powi_mono: "a \<le> b \<Longrightarrow> (2::rat) powi a \<le> 2 powi b"
  by (rule power_int_increasing) auto

lemma powi_less_iff: "(2::rat) powi a < 2 powi b \<longleftrightarrow> a < b"
  by (meson linorder_not_le order.strict_iff_order one_less_numeral_iff power_int_strict_increasing
      powi_mono semiring_norm(76))

lemma powi_pos [simp]: "0 < (2::rat) powi a"
  by (simp add: zero_less_power_int)

lemma powi_add: "(2::rat) powi (a + b) = 2 powi a * 2 powi b"
  by (rule power_int_add) simp

lemma powi_diff: "(2::rat) powi (a - b) = 2 powi a / 2 powi b"
  by (rule power_int_diff) simp

lemma bexp_bounds:
  assumes "0 < q"
  shows "2 powi bexp q \<le> q" and "q < 2 powi (bexp q + 1)"
proof -
  obtain n d where nd: "quotient_of q = (n, d)" by force
  have d: "0 < d" using quotient_of_denom_pos [OF nd] .
  have q: "q = of_int n / of_int d" using quotient_of_div [OF nd] .
  have n: "0 < n" using assms d q by (simp add: zero_less_divide_iff)
  define a where "a = bit_count n"
  define b where "b = bit_count d"
  have A: "2 ^ nat (a - 1) \<le> n" "n < 2 ^ nat a" "0 < a"
    using bit_count_bounds [OF n] by (auto simp: a_def)
  have B: "2 ^ nat (b - 1) \<le> d" "d < 2 ^ nat b" "0 < b"
    using bit_count_bounds [OF d] by (auto simp: b_def)
  have bound: "(2::rat) powi (c - 1) \<le> of_int i \<and> of_int i < (2::rat) powi c"
    if "2 ^ nat (c - 1) \<le> i" "i < 2 ^ nat c" "0 < c" for c i :: int
  proof -
    have "(of_int (2 ^ nat (c - 1)) :: rat) \<le> of_int i" using that(1) by (rule of_int_le_iff [THEN iffD2])
    moreover have "(of_int i :: rat) < of_int (2 ^ nat c)" using that(2) by (rule of_int_less_iff [THEN iffD2])
    ultimately show ?thesis using that(3) by (simp add: power_int_def)
  qed
  have nr: "(2::rat) powi (a - 1) \<le> of_int n" "of_int n < (2::rat) powi a" using bound [OF A] by auto
  have dr: "(2::rat) powi (b - 1) \<le> of_int d" "of_int d < (2::rat) powi b" using bound [OF B] by auto
  have lo: "2 powi (a - b - 1) \<le> q"
  proof -
    have "(2::rat) powi (a - b - 1) = 2 powi ((a - 1) - b)" by (simp add: algebra_simps)
    also have "\<dots> = 2 powi (a - 1) / 2 powi b" by (rule powi_diff)
    also have "\<dots> \<le> of_int n / of_int d"
      using nr dr d n by (intro frac_le) auto
    finally show ?thesis by (simp add: q)
  qed
  have hi: "q < 2 powi (a - b + 1)"
  proof -
    have "q = of_int n / of_int d" by (rule q)
    also have "\<dots> < 2 powi a / 2 powi (b - 1)"
      using nr dr d n by (intro frac_less) auto
    also have "\<dots> = 2 powi (a - (b - 1))" by (simp only: powi_diff)
    also have "\<dots> = 2 powi (a - b + 1)" by (simp add: algebra_simps)
    finally show ?thesis .
  qed
  show "2 powi bexp q \<le> q" "q < 2 powi (bexp q + 1)"
    using lo hi by (auto simp: bexp_def nd Let_def a_def [symmetric] b_def [symmetric] algebra_simps)
qed

lemma bexp_mono:
  assumes "0 < p" and "p \<le> q"
  shows "bexp p \<le> bexp q"
proof -
  have "(2::rat) powi bexp p < 2 powi (bexp q + 1)"
    using bexp_bounds(1) [OF assms(1)] bexp_bounds(2) [of q] assms by linarith
  then show ?thesis by (simp add: powi_less_iff)
qed

lemma bexp_less_iff: "0 < q \<Longrightarrow> q < 2 powi e \<longleftrightarrow> bexp q < e"
  using bexp_bounds [of q] powi_mono [of "bexp q + 1" e] powi_mono [of e "bexp q"] by fastforce

section \<open>Rounding\<close>

lemma round_half_even_mono: "x \<le> y \<Longrightarrow> round_half_even x \<le> round_half_even y"
proof -
  assume le: "x \<le> y"
  then have fl: "\<lfloor>x\<rfloor> \<le> \<lfloor>y\<rfloor>" by (rule floor_mono)
  show ?thesis
  proof (cases "\<lfloor>x\<rfloor> = \<lfloor>y\<rfloor>")
    case True
    then show ?thesis using le by (auto simp: round_half_even_def Let_def)
  next
    case False
    with fl have "\<lfloor>x\<rfloor> + 1 \<le> \<lfloor>y\<rfloor>" by simp
    then show ?thesis by (auto simp: round_half_even_def Let_def)
  qed
qed

lemma round_half_even_of_int [simp]: "round_half_even (of_int i) = i"
  by (simp add: round_half_even_def)

lemma round_half_even_0 [simp]: "round_half_even 0 = 0"
  by (simp add: round_half_even_def)

lemma round_half_even_nonneg: "0 \<le> x \<Longrightarrow> 0 \<le> round_half_even x"
  using round_half_even_mono [of 0 x] by simp

text \<open>The representable magnitudes of a format.\<close>

definition representable :: "float_format \<Rightarrow> rat \<Rightarrow> bool" where
  "representable fmt q \<longleftrightarrow>
     (\<exists>m e. q = of_nat m * 2 powi e \<and> m < 2 ^ prec fmt \<and> emin fmt - (int (prec fmt) - 1) \<le> e)
     \<and> q < 2 powi (emax fmt + 1)"

fun fl_wf :: "float_format \<Rightarrow> fl \<Rightarrow> bool" where
  "fl_wf fmt (Fin s m) = representable fmt m"
| "fl_wf fmt _ = True"

definition good_format :: "float_format \<Rightarrow> bool" where
  "good_format fmt \<longleftrightarrow> 0 < prec fmt \<and> emin fmt \<le> 0 \<and> int (prec fmt) \<le> emax fmt"

lemma good_formats [simp]: "good_format binary32" "good_format binary64"
  by (simp_all add: good_format_def binary32_def binary64_def)

lemma representable_nonneg: "representable fmt q \<Longrightarrow> 0 \<le> q"
  by (auto simp: representable_def)

lemma powi_integral: "0 \<le> k \<Longrightarrow> (2::rat) powi k = of_int (2 ^ nat k)"
  by (simp add: power_int_def)

lemma round_mag_id:
  assumes "representable fmt q" and "0 < q"
  shows "round_mag fmt q = q"
proof -
  from assms obtain m e where q: "q = of_nat m * 2 powi e" and m: "m < 2 ^ prec fmt"
    and e: "emin fmt - (int (prec fmt) - 1) \<le> e"
    by (auto simp: representable_def)
  have "(of_nat m :: rat) < of_nat (2 ^ prec fmt)" using m by (rule of_nat_less_iff [THEN iffD2])
  then have mr: "(of_nat m :: rat) < 2 powi int (prec fmt)" by simp
  have "q < 2 powi int (prec fmt) * 2 powi e" unfolding q using mr by (intro mult_strict_right_mono) auto
  then have "q < 2 powi (int (prec fmt) + e)" by (simp only: powi_add)
  then have "bexp q < int (prec fmt) + e" using assms(2) by (simp add: bexp_less_iff)
  then have k: "ulp_exp fmt q \<le> e" using e by (simp add: ulp_exp_def)
  have "q / 2 powi ulp_exp fmt q = of_nat m * (2 powi e / 2 powi ulp_exp fmt q)" by (simp add: q)
  also have "\<dots> = of_nat m * 2 powi (e - ulp_exp fmt q)" by (simp only: powi_diff)
  also have "\<dots> = of_int (int m * 2 ^ nat (e - ulp_exp fmt q))"
    using k by (simp add: powi_integral)
  finally have eq: "q / 2 powi ulp_exp fmt q = of_int (int m * 2 ^ nat (e - ulp_exp fmt q))" .
  have "round_mag fmt q = q / 2 powi ulp_exp fmt q * 2 powi ulp_exp fmt q"
    unfolding round_mag_def eq by (simp only: round_half_even_of_int)
  then show ?thesis by simp
qed

lemma round_mag_le_powi:
  assumes "0 < q" and "q \<le> 2 powi e" and "emin fmt - (int (prec fmt) - 1) \<le> e" and "0 < prec fmt"
  shows "round_mag fmt q \<le> 2 powi e"
proof -
  let ?k = "ulp_exp fmt q"
  have "bexp q \<le> e" 
  proof -
    have "(2::rat) powi bexp q < 2 powi (e + 1)"
      using bexp_bounds(1) [OF assms(1)] assms(2) powi_less_iff [of e "e + 1"] by linarith
    then show ?thesis by (simp add: powi_less_iff)
  qed
  then have k: "?k \<le> e" using assms(3,4) by (simp add: ulp_exp_def)
  have "q / 2 powi ?k \<le> 2 powi e / 2 powi ?k" using assms(2) by (intro divide_right_mono) auto
  also have "\<dots> = 2 powi (e - ?k)" by (simp only: powi_diff)
  also have "\<dots> = of_int (2 ^ nat (e - ?k))" using k by (simp add: powi_integral)
  finally have "round_half_even (q / 2 powi ?k) \<le> 2 ^ nat (e - ?k)"
    using round_half_even_mono round_half_even_of_int by metis
  then have "(of_int (round_half_even (q / 2 powi ?k)) :: rat) \<le> of_int (2 ^ nat (e - ?k))"
    by (rule of_int_le_iff [THEN iffD2])
  also have "\<dots> = 2 powi (e - ?k)" using k by (simp add: powi_integral)
  finally have "round_mag fmt q \<le> 2 powi (e - ?k) * 2 powi ?k"
    unfolding round_mag_def by (intro mult_right_mono) auto
  then show ?thesis by (simp flip: powi_add)
qed

lemma round_mag_ge_powi:
  assumes "0 < q" and "2 powi e \<le> q" and "ulp_exp fmt q \<le> e"
  shows "2 powi e \<le> round_mag fmt q"
proof -
  let ?k = "ulp_exp fmt q"
  have "of_int (2 ^ nat (e - ?k)) = (2::rat) powi (e - ?k)" using assms(3) by (simp add: powi_integral)
  also have "\<dots> = 2 powi e / 2 powi ?k" by (simp only: powi_diff)
  also have "\<dots> \<le> q / 2 powi ?k" using assms(2) by (intro divide_right_mono) auto
  finally have "2 ^ nat (e - ?k) \<le> round_half_even (q / 2 powi ?k)"
    using round_half_even_mono round_half_even_of_int by metis
  then have "(of_int (2 ^ nat (e - ?k)) :: rat) \<le> of_int (round_half_even (q / 2 powi ?k))"
    by (rule of_int_le_iff [THEN iffD2])
  then have "2 powi (e - ?k) * 2 powi ?k \<le> round_mag fmt q"
    unfolding round_mag_def using assms(3) by (intro mult_right_mono) (auto simp: powi_integral)
  then show ?thesis by (simp flip: powi_add)
qed

lemma round_mag_nonneg: "0 \<le> q \<Longrightarrow> 0 \<le> round_mag fmt q"
  by (simp add: round_mag_def round_half_even_nonneg)

lemma round_mag_mono:
  assumes "0 < p" and "p \<le> q" and "0 < prec fmt"
  shows "round_mag fmt p \<le> round_mag fmt q"
proof (cases "ulp_exp fmt p = ulp_exp fmt q")
  case True
  have "p / 2 powi ulp_exp fmt q \<le> q / 2 powi ulp_exp fmt q"
    using assms(2) by (intro divide_right_mono) auto
  then have "round_half_even (p / 2 powi ulp_exp fmt q) \<le> round_half_even (q / 2 powi ulp_exp fmt q)"
    by (rule round_half_even_mono)
  then show ?thesis unfolding round_mag_def True by (intro mult_right_mono) auto
next
  case False
  have q0: "0 < q" using assms by simp
  have "bexp p \<le> bexp q" using assms(1,2) by (rule bexp_mono)
  with False have lt: "bexp p < bexp q" and em: "emin fmt < bexp q" 
    by (auto simp: ulp_exp_def max_def split: if_splits)
  let ?e = "max (bexp p + 1) (emin fmt)"
  have "round_mag fmt p \<le> 2 powi ?e"
  proof (rule round_mag_le_powi [OF assms(1)])
    show "p \<le> 2 powi ?e"
      using bexp_bounds(2) [OF assms(1)] powi_mono [of "bexp p + 1" ?e] by simp
  qed (use assms(3) in auto)
  also have "\<dots> \<le> 2 powi bexp q" using lt em by (intro powi_mono) auto
  also have "\<dots> \<le> round_mag fmt q"
    using q0 bexp_bounds(1) [OF q0] em assms(3) by (intro round_mag_ge_powi) (auto simp: ulp_exp_def)
  finally show ?thesis .
qed

lemma round_mag_representable:
  assumes "0 < q" and "0 < prec fmt" and "round_mag fmt q < 2 powi (emax fmt + 1)"
  shows "representable fmt (round_mag fmt q)"
proof -
  let ?k = "ulp_exp fmt q" and ?p = "prec fmt"
  define n where "n = nat (round_half_even (q / 2 powi ?k))"
  have nn: "0 \<le> round_half_even (q / 2 powi ?k)" using assms(1) by (simp add: round_half_even_nonneg)
  have r: "round_mag fmt q = of_nat n * 2 powi ?k" using nn by (simp add: round_mag_def n_def)
  have k: "emin fmt - (int ?p - 1) \<le> ?k" "bexp q + 1 - ?k \<le> int ?p" by (auto simp: ulp_exp_def)
  have "q / 2 powi ?k \<le> 2 powi (bexp q + 1) / 2 powi ?k"
    using bexp_bounds(2) [OF assms(1)] by (intro divide_right_mono) auto
  also have "\<dots> = 2 powi (bexp q + 1 - ?k)" by (simp only: powi_diff)
  also have "\<dots> \<le> 2 powi int ?p" using k(2) by (rule powi_mono)
  also have "\<dots> = of_int (2 ^ ?p)" by simp
  finally have "round_half_even (q / 2 powi ?k) \<le> 2 ^ ?p"
    using round_half_even_mono round_half_even_of_int by metis
  then have n: "n \<le> 2 ^ ?p" by (simp add: n_def nat_le_iff)
  show ?thesis
  proof (cases "n = 2 ^ ?p")
    case False
    with n k(1) r assms(3) show ?thesis unfolding representable_def by (intro conjI exI [of _ n]) auto
  next
    case True
    have "(2::rat) ^ ?p = 2 ^ (?p - 1) * 2" using assms(2) by (metis Suc_pred' power_Suc2)
    then have "round_mag fmt q = of_nat (2 ^ (?p - 1)) * 2 powi (?k + 1)"
      by (simp add: r True powi_add)
    moreover have "(2::nat) ^ (?p - 1) < 2 ^ ?p" using assms(2) by simp
    moreover have "emin fmt - (int ?p - 1) \<le> ?k + 1" using k(1) by simp
    ultimately show ?thesis using assms(3) unfolding representable_def by blast
  qed
qed

lemma representable_0 [simp]: "representable fmt 0"
  unfolding representable_def by (intro conjI exI [of _ 0] exI [of _ "emin fmt - (int (prec fmt) - 1)"]) auto

lemma fl_wf_round [simp]: "0 \<le> q \<Longrightarrow> 0 < prec fmt \<Longrightarrow> fl_wf fmt (fl_round fmt s q)"
  by (auto simp: fl_round_def Let_def intro!: round_mag_representable)

lemma fl_wf_of_rat [simp]: "0 < prec fmt \<Longrightarrow> fl_wf fmt (fl_of_rat fmt s v)"
  by (simp add: fl_of_rat_def)

lemma fl_wf_neg [simp]: "fl_wf fmt (fl_neg a) = fl_wf fmt a"
  by (cases a) auto

lemma fl_wf_add [simp]: "0 < prec fmt \<Longrightarrow> fl_wf fmt (fl_add fmt a b)"
  by (cases a; cases b) auto

lemma fl_wf_sub [simp]: "0 < prec fmt \<Longrightarrow> fl_wf fmt (fl_sub fmt a b)"
  by (simp add: fl_sub_def)

lemma fl_wf_mul [simp]: "fl_wf fmt a \<Longrightarrow> fl_wf fmt b \<Longrightarrow> 0 < prec fmt \<Longrightarrow> fl_wf fmt (fl_mul fmt a b)"
  by (cases a; cases b) (auto dest!: representable_nonneg)

lemma fl_wf_div [simp]: "fl_wf fmt a \<Longrightarrow> fl_wf fmt b \<Longrightarrow> 0 < prec fmt \<Longrightarrow> fl_wf fmt (fl_div fmt a b)"
  by (cases a; cases b) (auto dest!: representable_nonneg)

text \<open>The order on values that are not NaN.\<close>

lemma fl_less_irrefl [simp]: "\<not> fl_less a a"
  by (cases a) auto

lemma fl_less_trans: "fl_less a b \<Longrightarrow> fl_less b c \<Longrightarrow> fl_less a c"
  by (cases a; cases b; cases c) (auto split: if_splits)

lemma fl_less_asym: "fl_less a b \<Longrightarrow> \<not> fl_less b a"
  by (cases a; cases b) (auto split: if_splits)

lemma fl_less_negative_trans:
  "a \<noteq> NaN \<Longrightarrow> b \<noteq> NaN \<Longrightarrow> c \<noteq> NaN \<Longrightarrow> \<not> fl_less a b \<Longrightarrow> \<not> fl_less b c \<Longrightarrow> \<not> fl_less a c"
  by (cases a; cases b; cases c) (auto split: if_splits)

lemma fl_less_NaN [simp]: "\<not> fl_less a NaN"
  by (cases a) auto

lemma fl_round_mono:
  assumes "0 \<le> p" and "p \<le> q" and "0 < prec fmt"
  shows "\<not> fl_less (fl_round fmt False q) (fl_round fmt False p)"
    and "\<not> fl_less (fl_round fmt True p) (fl_round fmt True q)"
proof -
  have "p = 0 \<or> round_mag fmt p \<le> round_mag fmt q"
    using round_mag_mono [of p q fmt] assms by (metis order_le_less)
  moreover have "0 \<le> round_mag fmt q" using assms by (intro round_mag_nonneg) simp
  ultimately show "\<not> fl_less (fl_round fmt False q) (fl_round fmt False p)"
    and "\<not> fl_less (fl_round fmt True p) (fl_round fmt True q)"
    using assms by (auto simp: fl_round_def Let_def split: if_splits)
qed

lemma fl_round_signs:
  assumes "0 \<le> p" and "0 \<le> q"
  shows "\<not> fl_less (fl_round fmt False q) (fl_round fmt True p)"
  using assms round_mag_nonneg [of p fmt] round_mag_nonneg [of q fmt]
  by (auto simp: fl_round_def Let_def split: if_splits)

lemma fl_round_zero_signs [simp]:
  assumes "0 \<le> q"
  shows "\<not> fl_less (fl_round fmt False q) (Fin s 0)" "\<not> fl_less (Fin s 0) (fl_round fmt True q)"
  using assms round_mag_nonneg [of q fmt] by (auto simp: fl_round_def Let_def split: if_splits)

lemma fl_of_rat_mono:
  assumes "u \<le> v" and "0 < prec fmt"
  shows "\<not> fl_less (fl_of_rat fmt s v) (fl_of_rat fmt t u)"
proof -
  consider "u = 0" "v = 0" | "u < 0" "v = 0" | "u = 0" "v > 0" | "u < 0" "v > 0"
    | "u < 0" "v < 0" | "u > 0" "v > 0"
    using assms(1) by linarith
  then show ?thesis
  proof cases
    case 5
    then have "\<bar>v\<bar> \<le> \<bar>u\<bar>" using assms(1) by simp
    then show ?thesis using 5 fl_round_mono(2) [of "\<bar>v\<bar>" "\<bar>u\<bar>" fmt] assms(2) by (simp add: fl_of_rat_def)
  next
    case 6
    then show ?thesis using fl_round_mono(1) [of u v fmt] assms by (simp add: fl_of_rat_def)
  qed (simp_all add: fl_of_rat_def fl_round_signs)
qed

text \<open>Rounding a representable value gives the value back.\<close>

lemma fl_round_id:
  assumes "representable fmt q"
  shows "fl_round fmt s q = Fin s q"
proof (cases "q = 0")
  case False
  then have "0 < q" using representable_nonneg [OF assms] by simp
  then show ?thesis using assms round_mag_id [OF assms]
    by (auto simp: fl_round_def representable_def not_le)
qed (simp add: fl_round_def)

lemma fl_of_rat_val:
  assumes "representable fmt m"
  shows "fl_of_rat fmt t (fl_val (Fin s m)) = (if m = 0 then Fin t 0 else Fin s m)"
  using representable_nonneg [OF assms] by (auto simp: fl_of_rat_def fl_round_id [OF assms])

text \<open>Subtracting a non-negative amount never gives a greater value.\<close>

definition fl_nonneg :: "fl \<Rightarrow> bool" where
  "fl_nonneg a \<longleftrightarrow> (case a of NaN \<Rightarrow> False | Inf s \<Rightarrow> \<not> s | Fin s m \<Rightarrow> 0 \<le> fl_val a)"

lemma fl_sub_not_greater:
  assumes "fl_wf fmt a" and "fl_nonneg t" and "0 < prec fmt"
  shows "\<not> fl_less a (fl_sub fmt a t)"
proof (cases a)
  case (Fin s m)
  note a = this
  then have rep: "representable fmt m" using assms(1) by simp
  show ?thesis
  proof (cases t)
    case (Fin u n)
    then have "0 \<le> fl_val t" using assms(2) by (simp add: fl_nonneg_def)
    then have le: "fl_val a + fl_val (fl_neg t) \<le> fl_val a" using Fin by (auto split: if_splits)
    have sub: "fl_sub fmt a t = fl_of_rat fmt (s \<and> \<not> u) (fl_val a + fl_val (fl_neg t))"
      by (simp add: fl_sub_def a Fin)
    have self: "fl_of_rat fmt False (fl_val a) = (if m = 0 then Fin False 0 else a)"
      unfolding a by (rule fl_of_rat_val [OF rep])
    have "\<not> fl_less (fl_of_rat fmt False (fl_val a))
             (fl_of_rat fmt (s \<and> \<not> u) (fl_val a + fl_val (fl_neg t)))"
      by (rule fl_of_rat_mono [OF le assms(3)])
    then have "\<not> fl_less (if m = 0 then Fin False 0 else a) (fl_sub fmt a t)"
      by (simp only: sub self not_False_eq_True)
    moreover have "fl_less (Fin s 0) x = fl_less (Fin False 0) x" for x by (cases x) auto
    ultimately show ?thesis by (auto simp: a split: if_splits)
  next
    case (Inf u)
    then show ?thesis using assms(2) by (simp add: a fl_sub_def fl_nonneg_def)
  next
    case NaN
    then show ?thesis by (simp add: a fl_sub_def)
  qed
next
  case (Inf s)
  then show ?thesis by (cases t) (auto simp: fl_sub_def)
next
  case NaN
  then show ?thesis by simp
qed

text \<open>A value that is not negative: zero of either sign, a positive value, \<open>+\<infinity>\<close>, or a NaN.\<close>

definition fl_not_neg :: "fl \<Rightarrow> bool" where
  "fl_not_neg a \<longleftrightarrow> \<not> fl_less a (Fin False 0)"

lemma fl_not_neg_cases:
  "fl_not_neg NaN" "fl_not_neg (Inf s) = (\<not> s)" "fl_not_neg (Fin s m) = (0 \<le> fl_val (Fin s m))"
  by (auto simp: fl_not_neg_def)

lemma fl_not_neg_round [simp]: "0 \<le> q \<Longrightarrow> fl_not_neg (fl_round fmt False q)"
  using round_mag_nonneg [of q fmt] by (auto simp: fl_round_def Let_def fl_not_neg_cases)

lemma fl_not_neg_of_rat: "0 \<le> v \<Longrightarrow> fl_not_neg (fl_of_rat fmt s v)"
  by (simp add: fl_of_rat_def fl_not_neg_cases)

lemma fl_not_neg_square [simp]: "fl_not_neg (fl_mul fmt a a)"
  by (cases a) (auto simp: fl_not_neg_cases)

lemma fl_not_neg_add: "fl_not_neg a \<Longrightarrow> fl_not_neg b \<Longrightarrow> fl_not_neg (fl_add fmt a b)"
  by (cases a; cases b) (auto simp: fl_not_neg_cases intro!: fl_not_neg_of_rat)

lemma isqrt_nonneg [simp]: "0 \<le> isqrt n"
proof (induction n rule: isqrt.induct)
  case (1 n)
  then show ?case by (subst isqrt.simps) (simp add: Let_def)
qed

lemma isqrt_bounds: "0 \<le> n \<Longrightarrow> isqrt n * isqrt n \<le> n \<and> n < (isqrt n + 1) * (isqrt n + 1)"
proof (induction n rule: isqrt.induct)
  case (1 n)
  show ?case
  proof (cases "n = 0")
    case True
    then show ?thesis by (simp add: isqrt.simps)
  next
    case False
    define s where "s = isqrt (n div 4)"
    from 1 False have IH: "s * s \<le> n div 4" "n div 4 < (s + 1) * (s + 1)" by (auto simp: s_def)
    have "4 * (s * s) \<le> n" using IH(1) by linarith
    moreover have "n < 4 * ((s + 1) * (s + 1))" using IH(2) by linarith
    moreover have "isqrt n = (if (2 * s + 1) * (2 * s + 1) \<le> n then 2 * s + 1 else 2 * s)"
      using False 1 by (simp add: isqrt.simps [of n] s_def [symmetric] Let_def)
    ultimately show ?thesis by (simp add: algebra_simps)
  qed
qed

lemma isqrt_square:
  assumes "0 \<le> n"
  shows "isqrt (n * n) = n"
proof -
  let ?r = "isqrt (n * n)"
  have r: "?r * ?r \<le> n * n" "n * n < (?r + 1) * (?r + 1)"
    using isqrt_bounds [of "n * n"] assms by auto
  have "?r \<le> n" using r(1) assms by (metis isqrt_nonneg linorder_not_le mult_strict_mono')
  moreover have "n < ?r + 1"
    using r(2) assms isqrt_nonneg [of "n * n"] by (metis add_nonneg_nonneg linorder_not_le mult_mono zero_le_one)
  ultimately show ?thesis by simp
qed

lemma sqrt_mag_nonneg: "0 \<le> sqrt_mag fmt q"
  by (simp add: sqrt_mag_def Let_def)

lemma fl_not_neg_sqrt [simp]: "fl_not_neg (fl_sqrt fmt a)"
  by (cases a) (auto simp: fl_not_neg_cases sqrt_mag_nonneg)

end
