(* ===== verification/Cpp_Stream.thy ===== *)
theory Cpp_Stream
  imports Ieee_Float
begin

text \<open>
  What the program uses of the C and C++ standard libraries to read text: the character classes
  of \<^verbatim>\<open>ctype.h\<close> in the C locale, \<^verbatim>\<open>std::istream\<close> with its state bits, formatted extraction of
  integers and floating point numbers, \<^verbatim>\<open>ignore\<close> and \<^verbatim>\<open>getline\<close>. The characters that have not
  been read are a \<^typ>\<open>string\<close>.

  The lemmas are about decimal numbers: printing a number and extracting it again gives the
  number, and where the extraction stops.
\<close>

section \<open>Characters\<close>

definition isdigit :: "char \<Rightarrow> bool" where
  "isdigit c \<longleftrightarrow> 48 \<le> (of_char c :: nat) \<and> (of_char c :: nat) \<le> 57"

definition isspace :: "char \<Rightarrow> bool" where
  "isspace c \<longleftrightarrow> (9 \<le> (of_char c :: nat) \<and> (of_char c :: nat) \<le> 13) \<or> c = CHR '' ''"

definition digit_val :: "char \<Rightarrow> nat" where
  "digit_val c = of_char c - 48"

definition digit_char :: "nat \<Rightarrow> char" where
  "digit_char d = char_of (48 + d)"

definition tolower :: "char \<Rightarrow> char" where
  "tolower c = (if 65 \<le> (of_char c :: nat) \<and> (of_char c :: nat) \<le> 90 then char_of (of_char c + 32 :: nat) else c)"

fun decimal_val :: "nat \<Rightarrow> string \<Rightarrow> nat" where
  "decimal_val acc [] = acc"
| "decimal_val acc (c # cs) = decimal_val (10 * acc + digit_val c) cs"

text \<open>\<open>std::to_string\<close>, and what \<^verbatim>\<open>operator<<\<close> prints, of an unsigned integer.\<close>

fun decimal :: "nat \<Rightarrow> string" where
  "decimal n = (if n < 10 then [digit_char n] else decimal (n div 10) @ [digit_char (n mod 10)])"

declare decimal.simps [simp del]

section \<open>The input stream\<close>

record istream =
  unread :: string
  eofbit :: bool
  failbit :: bool

definition istringstream :: "string \<Rightarrow> istream" where
  "istringstream str = \<lparr>unread = str, eofbit = False, failbit = False\<rparr>"

definition stream_good :: "istream \<Rightarrow> bool" where
  "stream_good s \<longleftrightarrow> \<not> eofbit s \<and> \<not> failbit s"

text \<open>
  The sentry of a formatted extraction skips white space; it fails on a stream that is not
  good, or when nothing is left.
\<close>

definition sentry :: "istream \<Rightarrow> bool \<times> istream" where
  "sentry s =
     (if \<not> stream_good s then (False, s\<lparr>failbit := True\<rparr>)
      else let cs = dropWhile isspace (unread s)
           in if cs = [] then (False, s\<lparr>unread := [], eofbit := True, failbit := True\<rparr>)
              else (True, s\<lparr>unread := cs\<rparr>))"

fun split_sign :: "string \<Rightarrow> bool \<times> string" where
  "split_sign (c # cs) = (if c = CHR ''-'' then (True, cs) else if c = CHR ''+'' then (False, cs) else (False, c # cs))"
| "split_sign [] = (False, [])"

text \<open>
  An integer: a sign and decimal digits. The result is the sign, the digits and what is left;
  the end of the text sets \<open>eofbit\<close>.
\<close>

definition scan_integer :: "istream \<Rightarrow> (bool \<times> string) \<times> istream" where
  "scan_integer s =
     (let (neg, cs) = split_sign (unread s);
          digits = takeWhile isdigit cs; rest = dropWhile isdigit cs
      in ((neg, digits), s\<lparr>unread := rest, eofbit := (rest = [])\<rparr>))"

text \<open>
  Extraction into a signed integer of the range \<open>lo..hi\<close>. \<open>None\<close>: the variable is not
  written. No digits give zero and a value out of range the nearest bound, both with \<open>failbit\<close>.
\<close>

definition extract_signed :: "int \<Rightarrow> int \<Rightarrow> istream \<Rightarrow> int option \<times> istream" where
  "extract_signed lo hi s =
     (case sentry s of
        (False, s1) \<Rightarrow> (None, s1)
      | (True, s1) \<Rightarrow>
          (case scan_integer s1 of
             ((neg, digits), s2) \<Rightarrow>
               let v = (if neg then - int (decimal_val 0 digits) else int (decimal_val 0 digits))
               in if digits = [] then (Some 0, s2\<lparr>failbit := True\<rparr>)
                  else if v < lo then (Some lo, s2\<lparr>failbit := True\<rparr>)
                  else if hi < v then (Some hi, s2\<lparr>failbit := True\<rparr>)
                  else (Some v, s2)))"

text \<open>Into an unsigned integer of 64 bits: a minus sign negates modulo \<open>2 ^ 64\<close>.\<close>

definition extract_unsigned :: "istream \<Rightarrow> nat option \<times> istream" where
  "extract_unsigned s =
     (case sentry s of
        (False, s1) \<Rightarrow> (None, s1)
      | (True, s1) \<Rightarrow>
          (case scan_integer s1 of
             ((neg, digits), s2) \<Rightarrow>
               let v = decimal_val 0 digits
               in if digits = [] then (Some 0, s2\<lparr>failbit := True\<rparr>)
                  else if 2 ^ 64 \<le> v then (Some (2 ^ 64 - 1), s2\<lparr>failbit := True\<rparr>)
                  else (Some (if neg \<and> 0 < v then 2 ^ 64 - v else v), s2)))"

text \<open>
  The characters of a floating point number: digits, at most one point before the exponent,
  and after a mantissa digit at most one exponent mark, which a sign may follow.
\<close>

fun scan_float :: "bool \<Rightarrow> bool \<Rightarrow> bool \<Rightarrow> string \<Rightarrow> string \<times> string" where
  "scan_float mantissa point sci [] = ([], [])"
| "scan_float mantissa point sci (c # cs) =
     (if isdigit c then (let (a, r) = scan_float True point sci cs in (c # a, r))
      else if c = CHR ''.'' \<and> \<not> point \<and> \<not> sci
      then (let (a, r) = scan_float mantissa True sci cs in (c # a, r))
      else if (c = CHR ''e'' \<or> c = CHR ''E'') \<and> \<not> sci \<and> mantissa
      then (case cs of
              d # ds \<Rightarrow>
                (if d = CHR ''+'' \<or> d = CHR ''-''
                 then (let (a, r) = scan_float mantissa point True ds in (c # d # a, r))
                 else (let (a, r) = scan_float mantissa point True cs in (c # a, r)))
            | [] \<Rightarrow> ([c], []))
      else ([], c # cs))"

text \<open>The value that \<^verbatim>\<open>strtod\<close> gives to such characters, if it uses all of them.\<close>

definition float_digits :: "string \<Rightarrow> rat option" where
  "float_digits cs =
     (let ip = takeWhile isdigit cs; r1 = dropWhile isdigit cs;
          (fp, r2) = (case r1 of c # t \<Rightarrow> (if c = CHR ''.'' then (takeWhile isdigit t, dropWhile isdigit t) else ([], r1))
                      | [] \<Rightarrow> ([], []));
          m = of_nat (decimal_val 0 (ip @ fp)) :: rat
      in if ip = [] \<and> fp = [] then None
         else case r2 of
                [] \<Rightarrow> Some (m / 10 ^ length fp)
              | e # t \<Rightarrow>
                  (let (neg, ds) = split_sign t; x = decimal_val 0 ds
                   in if ds = [] \<or> \<not> list_all isdigit ds then None
                      else Some (if neg then m / 10 ^ length fp / 10 ^ x else m / 10 ^ length fp * 10 ^ x)))"

text \<open>
  Extraction into a floating point number of the format: an ill-formed one gives zero, one
  that rounds to infinity the greatest value (\<open>huge\<close>), both with \<open>failbit\<close>.
\<close>

definition greatest_float :: "float_format \<Rightarrow> rat" where
  "greatest_float fmt = 2 powi (emax fmt + 1) - 2 powi (emax fmt + 1 - int (prec fmt))"

definition extract_float :: "float_format \<Rightarrow> istream \<Rightarrow> fl option \<times> istream" where
  "extract_float fmt s =
     (case sentry s of
        (False, s1) \<Rightarrow> (None, s1)
      | (True, s1) \<Rightarrow>
          (let (neg, cs) = split_sign (unread s1); (acc, rest) = scan_float False False False cs;
               s2 = s1\<lparr>unread := rest, eofbit := (rest = [])\<rparr>
           in case float_digits acc of
                None \<Rightarrow> (Some fl_zero, s2\<lparr>failbit := True\<rparr>)
              | Some m \<Rightarrow>
                  (case fl_round fmt neg m of
                     Fin t v \<Rightarrow> (Some (Fin t v), s2)
                   | _ \<Rightarrow> (Some (Fin neg (greatest_float fmt)), s2\<lparr>failbit := True\<rparr>))))"

text \<open>\<open>ignore(n, delim)\<close> drops characters up to and including the delimiter, \<open>n\<close> at most.\<close>

fun ignore_chars :: "nat \<Rightarrow> char \<Rightarrow> string \<Rightarrow> string \<times> bool" where
  "ignore_chars 0 delim cs = (cs, False)"
| "ignore_chars (Suc n) delim [] = ([], True)"
| "ignore_chars (Suc n) delim (c # cs) = (if c = delim then (cs, False) else ignore_chars n delim cs)"

definition stream_ignore :: "nat \<Rightarrow> char \<Rightarrow> istream \<Rightarrow> istream" where
  "stream_ignore n delim s =
     (if \<not> stream_good s then s\<lparr>failbit := True\<rparr>
      else let (cs, at_end) = ignore_chars n delim (unread s)
           in s\<lparr>unread := cs, eofbit := at_end\<rparr>)"

text \<open>\<open>std::getline\<close>: the line without its newline; \<open>failbit\<close> when nothing was extracted.\<close>

definition getline :: "istream \<Rightarrow> string \<times> istream" where
  "getline s =
     (if \<not> stream_good s then ([], s\<lparr>failbit := True\<rparr>)
      else let line = takeWhile (\<lambda>c. c \<noteq> CHR ''\<newline>'') (unread s);
               rest = dropWhile (\<lambda>c. c \<noteq> CHR ''\<newline>'') (unread s)
           in case rest of
                [] \<Rightarrow> (line, s\<lparr>unread := [], eofbit := True, failbit := (unread s = [])\<rparr>)
              | _ # cs \<Rightarrow> (line, s\<lparr>unread := cs\<rparr>))"

section \<open>Decimal numbers\<close>

lemma of_char_of [simp]: "n < 256 \<Longrightarrow> (of_char (char_of (n :: nat)) :: nat) = n"
  by (simp add: of_char_of)

lemma digit_char_simps [simp]:
  assumes "d < 10"
  shows "isdigit (digit_char d)" and "digit_val (digit_char d) = d" and "\<not> isspace (digit_char d)"
    and "digit_char d \<noteq> CHR ''-''" and "digit_char d \<noteq> CHR ''+''"
proof -
  have v: "(of_char (digit_char d) :: nat) = 48 + d" using assms by (simp add: digit_char_def)
  then show "isdigit (digit_char d)" "digit_val (digit_char d) = d"
    using assms by (simp_all add: isdigit_def digit_val_def)
  have other: "digit_char d \<noteq> c" if "(of_char c :: nat) < 48" for c
    using v that by auto
  show "digit_char d \<noteq> CHR ''-''" "digit_char d \<noteq> CHR ''+''" by (rule other; simp)+
  show "\<not> isspace (digit_char d)" using v other [of "CHR '' ''"] by (simp add: isspace_def)
qed

lemma decimal_digits: "\<forall>c \<in> set (decimal n). isdigit c"
proof (induction n rule: decimal.induct)
  case (1 n)
  then show ?case by (subst decimal.simps) simp
qed

lemma decimal_not_empty [simp]: "decimal n \<noteq> []"
  by (subst decimal.simps) simp

lemma decimal_val_append [simp]: "decimal_val a (xs @ ys) = decimal_val (decimal_val a xs) ys"
  by (induction xs arbitrary: a) simp_all

lemma decimal_val_decimal [simp]: "decimal_val 0 (decimal n) = n"
proof (induction n rule: decimal.induct)
  case (1 n)
  then show ?case by (subst decimal.simps) simp
qed

lemma decimal_head:
  obtains c cs where "decimal n = c # cs" and "isdigit c" and "\<not> isspace c" and "c \<noteq> CHR ''-''" and "c \<noteq> CHR ''+''"
proof -
  obtain c cs where d: "decimal n = c # cs" by (cases "decimal n") auto
  then have c: "isdigit c" using decimal_digits [of n] by simp
  then have "c \<noteq> CHR ''-''" "c \<noteq> CHR ''+''" "\<not> isspace c" by (auto simp: isdigit_def isspace_def)
  with d c that show thesis by blast
qed

lemma takeWhile_decimal [simp]:
  "takeWhile isdigit (decimal n @ rest) = decimal n @ takeWhile isdigit rest"
  "dropWhile isdigit (decimal n @ rest) = dropWhile isdigit rest"
  using decimal_digits [of n] by (simp_all add: takeWhile_append dropWhile_append)

lemma decimal_inject: "decimal a = decimal b \<longleftrightarrow> a = b"
  by (metis decimal_val_decimal)

lemma sentry_decimal:
  assumes "stream_good s" and "unread s = decimal n @ rest"
  shows "sentry s = (True, s)"
proof -
  obtain c cs where d: "decimal n = c # cs" "\<not> isspace c" by (rule decimal_head)
  then show ?thesis using assms by (simp add: sentry_def)
qed

lemma scan_decimal:
  assumes "unread s = decimal n @ rest" and "\<not> isdigit (hd (rest @ '' ''))"
  shows "scan_integer s = ((False, decimal n), s\<lparr>unread := rest, eofbit := (rest = [])\<rparr>)"
proof -
  obtain c cs where d: "decimal n = c # cs" "c \<noteq> CHR ''-''" "c \<noteq> CHR ''+''" by (rule decimal_head)
  have sign: "split_sign (unread s) = (False, decimal n @ rest)" using d assms(1) by simp
  have stop: "takeWhile isdigit rest = []" "dropWhile isdigit rest = rest"
    using assms(2) by (cases rest; simp)+
  show ?thesis unfolding scan_integer_def sign by (simp add: stop del: dropWhile_eq_Nil_conv)
qed

text \<open>A number that was printed is read back, up to the first character that is no digit.\<close>

lemma extract_unsigned_decimal:
  assumes "stream_good s" and "unread s = decimal n @ rest" and "\<not> isdigit (hd (rest @ '' ''))" and "n < 2 ^ 64"
  shows "extract_unsigned s = (Some n, s\<lparr>unread := rest, eofbit := (rest = [])\<rparr>)"
  using sentry_decimal [OF assms(1,2)] scan_decimal [OF assms(2,3)] assms(4)
  by (simp add: extract_unsigned_def)

lemma extract_signed_decimal:
  assumes "stream_good s" and "unread s = decimal n @ rest" and "\<not> isdigit (hd (rest @ '' ''))"
    and "lo \<le> 0" and "int n \<le> hi"
  shows "extract_signed lo hi s = (Some (int n), s\<lparr>unread := rest, eofbit := (rest = [])\<rparr>)"
  using sentry_decimal [OF assms(1,2)] scan_decimal [OF assms(2,3)] assms(4,5)
  by (simp add: extract_signed_def)

lemma ignore_chars_delim:
  "length xs < n \<Longrightarrow> delim \<notin> set xs \<Longrightarrow> ignore_chars n delim (xs @ delim # rest) = (rest, False)"
proof (induction xs arbitrary: n)
  case Nil
  then show ?case by (cases n) simp_all
next
  case (Cons x xs)
  then show ?case by (cases n) auto
qed

end
