(* ===== verification/Ini_Parser.thy ===== *)
theory Ini_Parser
  imports Cpp_Stream
begin

text \<open>
  The parser of configuration files that the program compiles in, \<^verbatim>\<open>external/inih/ini.c\<close>, with
  the options of its header at their defaults: several lines for a value, a byte order mark and
  inline comments are allowed, lines have at most 199 characters, and parsing goes on after an
  error. The handler is a function of the user's state, the section, the name and the value.

  The lemmas show that a handler only sees trimmed names and values and short sections, that
  the result is the number of the first faulty line, that an error does not keep later lines
  from being handled, and how a well-formed line is parsed.
\<close>

section \<open>C strings and lines\<close>

definition NUL :: char where "NUL = CHR 0x00"

text \<open>What a \<^verbatim>\<open>char *\<close> denotes: the characters before the first null.\<close>

definition c_string :: "string \<Rightarrow> string" where
  "c_string s = takeWhile (\<lambda>c. c \<noteq> NUL) s"

text \<open>\<^verbatim>\<open>fgets(line, num, stream)\<close>: at most \<open>num - 1\<close> characters, up to and including a newline.\<close>

fun read_line :: "nat \<Rightarrow> string \<Rightarrow> string \<times> string" where
  "read_line 0 cs = ([], cs)"
| "read_line (Suc n) [] = ([], [])"
| "read_line (Suc n) (c # cs) =
     (if c = CHR ''\<newline>'' then ([c], cs) else let (line, rest) = read_line n cs in (c # line, rest))"

definition fgets :: "nat \<Rightarrow> string \<Rightarrow> (string \<times> string) option" where
  "fgets num cs = (if cs = [] then None else Some (read_line (num - 1) cs))"

section \<open>The helpers of the parser\<close>

definition rstrip :: "string \<Rightarrow> string" where
  "rstrip s = rev (dropWhile isspace (rev s))"

definition lskip :: "string \<Rightarrow> string" where
  "lskip s = dropWhile isspace s"

text \<open>The text before the found position and the text from it on.\<close>

fun find_from :: "(char \<Rightarrow> bool) \<Rightarrow> bool \<Rightarrow> string \<Rightarrow> string \<times> string" where
  "find_from chars was_space [] = ([], [])"
| "find_from chars was_space (c # cs) =
     (if chars c \<or> was_space \<and> c = CHR '';'' then ([], c # cs)
      else let (before, rest) = find_from chars (isspace c) cs in (c # before, rest))"

definition find_chars_or_comment :: "string \<Rightarrow> string \<Rightarrow> string \<times> string" where
  "find_chars_or_comment chars s = find_from (\<lambda>c. c \<in> set chars) False s"

definition strncpy0 :: "string \<Rightarrow> nat \<Rightarrow> string" where
  "strncpy0 src n = take (n - 1) src"

section \<open>Parsing\<close>

type_synonym 'u ini_handler = "'u \<Rightarrow> string \<Rightarrow> string \<Rightarrow> string \<Rightarrow> 'u \<times> bool"

record 'u ini_state =
  ini_user :: 'u
  ini_section :: string
  prev_name :: string
  ini_error :: nat

definition note_error :: "nat \<Rightarrow> 'u ini_state \<Rightarrow> 'u ini_state" where
  "note_error lineno st = (if ini_error st = 0 then st\<lparr>ini_error := lineno\<rparr> else st)"

definition call_handler ::
  "'u ini_handler \<Rightarrow> nat \<Rightarrow> string \<Rightarrow> string \<Rightarrow> 'u ini_state \<Rightarrow> 'u ini_state" where
  "call_handler handler lineno name value st =
     (let (u, ok) = handler (ini_user st) (ini_section st) name value; st' = st\<lparr>ini_user := u\<rparr>
      in if ok then st' else note_error lineno st')"

definition skip_bom :: "nat \<Rightarrow> string \<Rightarrow> string" where
  "skip_bom lineno line =
     (if lineno = 1 \<and> take 3 line = [CHR 0xEF, CHR 0xBB, CHR 0xBF] then drop 3 line else line)"

text \<open>\<open>start > line\<close>: a byte order mark or white space was skipped.\<close>

definition start_moved :: "string \<Rightarrow> string \<Rightarrow> bool" where
  "start_moved line text \<longleftrightarrow> length text < length line \<or> (rstrip text \<noteq> [] \<and> isspace (hd (rstrip text)))"

text \<open>One round of the loop: \<open>line\<close> is the buffer that was read.\<close>

definition ini_parse_line :: "'u ini_handler \<Rightarrow> nat \<Rightarrow> string \<Rightarrow> 'u ini_state \<Rightarrow> 'u ini_state" where
  "ini_parse_line handler lineno line st =
     (let text = skip_bom lineno line;
          start = lskip (rstrip text);
          moved = start_moved line text
      in case start of
           [] \<Rightarrow> st
         | c # cs \<Rightarrow>
             if c = CHR '';'' \<or> c = CHR ''#'' then st
             else if prev_name st \<noteq> [] \<and> moved then call_handler handler lineno (prev_name st) start st
             else if c = CHR ''['' then
               (case find_chars_or_comment '']'' cs of
                  (name, e # _) \<Rightarrow> if e = CHR '']'' then st\<lparr>ini_section := strncpy0 name 50, prev_name := []\<rparr>
                                   else note_error lineno st
                | (name, []) \<Rightarrow> note_error lineno st)
             else
               (case find_chars_or_comment ''=:'' start of
                  (before, e # after) \<Rightarrow>
                    if e = CHR ''='' \<or> e = CHR '':'' then
                      let name = rstrip before;
                          value = rstrip (fst (find_chars_or_comment [] (lskip after)))
                      in call_handler handler lineno name value (st\<lparr>prev_name := strncpy0 name 50\<rparr>)
                    else note_error lineno st
                | (before, []) \<Rightarrow> note_error lineno st))"

lemma read_line_shorter: "read_line (Suc n) (c # cs) = (line, rest) \<Longrightarrow> length rest < length (c # cs)"
proof (induction n arbitrary: c cs line rest)
  case 0
  then show ?case by (auto split: if_splits)
next
  case (Suc n)
  show ?case
  proof (cases cs)
    case Nil
    then show ?thesis using Suc.prems by (auto split: if_splits)
  next
    case (Cons d ds)
    obtain l r where lr: "read_line (Suc n) (d # ds) = (l, r)" by fastforce
    have "rest = cs \<or> rest = r" using Suc.prems lr by (auto simp: Cons split: if_splits)
    then show ?thesis using Suc.IH [OF lr] by (auto simp: Cons)
  qed
qed

lemma fgets_shorter:
  assumes "1 < num" and "fgets num cs = Some (line, rest)"
  shows "length rest < length cs"
proof -
  obtain c ds where c: "cs = c # ds" using assms(2) by (cases cs) (auto simp: fgets_def)
  obtain n where n: "num - 1 = Suc n" using assms(1) by (cases "num - 1") auto
  have "read_line (Suc n) (c # ds) = (line, rest)"
    using assms(2) unfolding fgets_def c n by (simp only: list.distinct if_False option.inject)
  then show ?thesis unfolding c by (rule read_line_shorter)
qed

function ini_parse_stream :: "'u ini_handler \<Rightarrow> nat \<Rightarrow> string \<Rightarrow> 'u ini_state \<Rightarrow> 'u ini_state" where
  "ini_parse_stream handler lineno stream st =
     (case fgets 200 stream of
        None \<Rightarrow> st
      | Some (line, rest) \<Rightarrow>
          ini_parse_stream handler (lineno + 1) rest (ini_parse_line handler (lineno + 1) (c_string line) st))"
  by pat_completeness auto
termination
  by (relation "measure (\<lambda>(_, _, stream, _). length stream)") (auto dest: fgets_shorter [rotated])

declare ini_parse_stream.simps [simp del]

definition ini_parse_file :: "'u ini_handler \<Rightarrow> string \<Rightarrow> 'u \<Rightarrow> int \<times> 'u" where
  "ini_parse_file handler content user =
     (let st = ini_parse_stream handler 0 content \<lparr>ini_user = user, ini_section = [], prev_name = [], ini_error = 0\<rparr>
      in (int (ini_error st), ini_user st))"

text \<open>\<open>None\<close> is a file that cannot be opened.\<close>

definition ini_parse :: "string option \<Rightarrow> 'u ini_handler \<Rightarrow> 'u \<Rightarrow> int \<times> 'u" where
  "ini_parse file handler user =
     (case file of None \<Rightarrow> (- 1, user) | Some content \<Rightarrow> ini_parse_file handler content user)"

section \<open>What the handler sees\<close>

definition trimmed :: "string \<Rightarrow> bool" where
  "trimmed s \<longleftrightarrow> (s = [] \<or> \<not> isspace (hd s) \<and> \<not> isspace (last s))"

lemma rstrip_last: "rstrip s \<noteq> [] \<Longrightarrow> \<not> isspace (last (rstrip s))"
  unfolding rstrip_def by (metis hd_dropWhile last_rev rev_is_Nil_conv)

lemma lskip_hd: "lskip s \<noteq> [] \<Longrightarrow> \<not> isspace (hd (lskip s))"
  unfolding lskip_def by (rule hd_dropWhile)

lemma rstrip_prefix: "\<exists>ws. s = rstrip s @ ws"
  unfolding rstrip_def by (metis rev_append rev_rev_ident takeWhile_dropWhile_id)

lemma rstrip_hd: "rstrip s \<noteq> [] \<Longrightarrow> hd (rstrip s) = hd s"
  using rstrip_prefix [of s] by (metis hd_append2)

lemma lskip_last: "lskip s \<noteq> [] \<Longrightarrow> last (lskip s) = last s"
  unfolding lskip_def by (metis last_appendR takeWhile_dropWhile_id)

lemma trimmed_start: "trimmed (lskip (rstrip s))"
proof (cases "lskip (rstrip s) = []")
  case False
  then have "rstrip s \<noteq> []" by (auto simp: lskip_def)
  then show ?thesis using rstrip_last [of s] lskip_hd [OF False] lskip_last [OF False] by (simp add: trimmed_def)
qed (simp add: trimmed_def)

lemma find_from_prefix: "find_from chars w s = (a, b) \<Longrightarrow> s = a @ b"
  by (induction s arbitrary: w a b) (auto split: if_splits prod.splits)

lemma trimmed_rstrip:
  assumes "a \<noteq> [] \<longrightarrow> \<not> isspace (hd a)"
  shows "trimmed (rstrip a)"
proof (cases "rstrip a = []")
  case False
  then have "a \<noteq> []" by (auto simp: rstrip_def)
  then show ?thesis using rstrip_last [OF False] rstrip_hd [OF False] assms by (simp add: trimmed_def)
qed (simp add: trimmed_def)

lemma trimmed_found:
  assumes "find_from chars w s = (a, b)" and "s \<noteq> [] \<longrightarrow> \<not> isspace (hd s)"
  shows "trimmed (rstrip a)"
proof (rule trimmed_rstrip, rule impI)
  assume "a \<noteq> []"
  then show "\<not> isspace (hd a)" using assms(2) find_from_prefix [OF assms(1)] by auto
qed

lemma find_from_outside: "find_from chars w s = (a, b) \<Longrightarrow> c \<in> set a \<Longrightarrow> \<not> chars c"
  by (induction s arbitrary: w a b) (auto split: if_splits prod.splits)

lemma find_from_stop: "find_from chars w s = (a, e # b) \<Longrightarrow> chars e \<or> e = CHR '';''"
  by (induction s arbitrary: w a) (auto split: if_splits prod.splits)

text \<open>
  What every call of the handler may rely on: the section is short and has no closing bracket,
  the name does not begin with white space and has no separator, the value is trimmed.
\<close>

definition proper_name :: "string \<Rightarrow> bool" where
  "proper_name name \<longleftrightarrow> (name \<noteq> [] \<longrightarrow> \<not> isspace (hd name)) \<and> CHR ''='' \<notin> set name \<and> CHR '':'' \<notin> set name"

definition proper_section :: "string \<Rightarrow> bool" where
  "proper_section sec \<longleftrightarrow> length sec < 50 \<and> CHR '']'' \<notin> set sec"

definition ini_keeps :: "'u ini_handler \<Rightarrow> ('u \<Rightarrow> bool) \<Rightarrow> bool" where
  "ini_keeps handler P \<longleftrightarrow> (\<forall>u sec name value. P u \<longrightarrow> proper_section sec \<longrightarrow> proper_name name \<longrightarrow> trimmed value \<longrightarrow>
     P (fst (handler u sec name value)))"

definition ini_inv :: "('u \<Rightarrow> bool) \<Rightarrow> 'u ini_state \<Rightarrow> bool" where
  "ini_inv P st \<longleftrightarrow> P (ini_user st) \<and> proper_section (ini_section st) \<and> proper_name (prev_name st) \<and> length (prev_name st) < 50"

lemma ini_inv_note_error: "ini_inv P (note_error n st) = ini_inv P st"
  by (simp add: ini_inv_def note_error_def)

lemma ini_inv_call_handler:
  assumes "ini_keeps handler P" and "ini_inv P st" and "proper_name name" and "trimmed value"
  shows "ini_inv P (call_handler handler n name value st)"
proof -
  obtain u ok where h: "handler (ini_user st) (ini_section st) name value = (u, ok)" by fastforce
  have "P (fst (handler (ini_user st) (ini_section st) name value))"
    using assms unfolding ini_keeps_def ini_inv_def by blast
  then have "ini_inv P (st\<lparr>ini_user := u\<rparr>)" using assms(2) by (simp add: h ini_inv_def)
  then show ?thesis by (simp add: call_handler_def h ini_inv_note_error Let_def)
qed

lemma proper_name_rstrip: "proper_name a \<Longrightarrow> proper_name (rstrip a)"
  using rstrip_prefix [of a] rstrip_hd [of a] by (auto simp: proper_name_def dest: arg_cong [of _ _ set])

lemma proper_name_take: "proper_name a \<Longrightarrow> proper_name (take n a)"
  by (cases a; cases n) (auto simp: proper_name_def dest: in_set_takeD)

lemma ini_inv_parse_line:
  assumes keeps: "ini_keeps handler P" and inv: "ini_inv P st"
  shows "ini_inv P (ini_parse_line handler n line st)"
proof (cases "lskip (rstrip (skip_bom n line))")
  case Nil
  then show ?thesis using inv by (simp add: ini_parse_line_def)
next
  case (Cons c cs)
  let ?start = "c # cs"
  have start: "trimmed ?start" using trimmed_start [of "skip_bom n line"] by (simp add: Cons)
  obtain before rest where f: "find_chars_or_comment ''=:'' ?start = (before, rest)" by fastforce
  obtain sec srest where g: "find_chars_or_comment '']'' cs = (sec, srest)" by fastforce
  have sep: "CHR ''='' \<notin> set before" "CHR '':'' \<notin> set before"
    using find_from_outside [OF f [unfolded find_chars_or_comment_def]] by auto
  have "before \<noteq> [] \<longrightarrow> \<not> isspace (hd before)"
    using find_from_prefix [OF f [unfolded find_chars_or_comment_def]] start by (cases before) (auto simp: trimmed_def)
  then have before: "proper_name before" using sep by (simp add: proper_name_def)
  have sec: "CHR '']'' \<notin> set sec" using find_from_outside [OF g [unfolded find_chars_or_comment_def]] by auto
  have sect: "ini_inv P (st\<lparr>ini_section := strncpy0 sec 50, prev_name := []\<rparr>)"
    using inv sec by (auto simp: ini_inv_def proper_section_def proper_name_def strncpy0_def dest: in_set_takeD)
  have val: "trimmed (rstrip (fst (find_chars_or_comment [] (lskip after))))" for after
    using trimmed_found [of _ False "lskip after"] lskip_hd [of after]
    by (metis find_chars_or_comment_def prod.collapse)
  have named: "ini_inv P (st\<lparr>prev_name := strncpy0 (rstrip before) 50\<rparr>)"
    using inv proper_name_take [OF proper_name_rstrip [OF before]] by (simp add: ini_inv_def strncpy0_def)
  have entry: "ini_inv P (call_handler handler n (rstrip before)
      (rstrip (fst (find_chars_or_comment [] (lskip after)))) (st\<lparr>prev_name := strncpy0 (rstrip before) 50\<rparr>))" for after
    by (rule ini_inv_call_handler [OF keeps named proper_name_rstrip [OF before] val])
  have cont: "ini_inv P (call_handler handler n (prev_name st) ?start st)"
    using ini_inv_call_handler [OF keeps inv _ start] inv by (simp add: ini_inv_def)
  show ?thesis
    unfolding ini_parse_line_def Let_def Cons list.case f g prod.case
    using sect entry cont inv by (simp add: ini_inv_note_error split: list.split)
qed

section \<open>A file as the sequence of its lines\<close>

function ini_buffers :: "string \<Rightarrow> string list" where
  "ini_buffers stream =
     (case fgets 200 stream of None \<Rightarrow> [] | Some (line, rest) \<Rightarrow> c_string line # ini_buffers rest)"
  by pat_completeness auto
termination
  by (relation "measure length") (auto dest: fgets_shorter [rotated])

declare ini_buffers.simps [simp del]

fun ini_run :: "'u ini_handler \<Rightarrow> nat \<Rightarrow> string list \<Rightarrow> 'u ini_state \<Rightarrow> 'u ini_state" where
  "ini_run handler n [] st = st"
| "ini_run handler n (line # lines) st = ini_run handler (n + 1) lines (ini_parse_line handler (n + 1) line st)"

lemma ini_parse_stream_run: "ini_parse_stream handler n stream st = ini_run handler n (ini_buffers stream) st"
proof (induction handler n stream st rule: ini_parse_stream.induct)
  case (1 handler n stream st)
  show ?case
  proof (cases "fgets 200 stream")
    case None
    then show ?thesis by (simp add: ini_parse_stream.simps [of _ _ stream] ini_buffers.simps [of stream])
  next
    case (Some lr)
    obtain line rest where lr: "lr = (line, rest)" by fastforce
    show ?thesis using 1 [OF Some lr [symmetric]]
      by (simp add: ini_parse_stream.simps [of _ _ stream] ini_buffers.simps [of stream] Some lr)
  qed
qed

definition ini_start :: "'u \<Rightarrow> 'u ini_state" where
  "ini_start user = \<lparr>ini_user = user, ini_section = [], prev_name = [], ini_error = 0\<rparr>"

lemma ini_parse_Some:
  "ini_parse (Some content) handler user =
     (let st = ini_run handler 0 (ini_buffers content) (ini_start user) in (int (ini_error st), ini_user st))"
  by (simp add: ini_parse_def ini_parse_file_def ini_start_def ini_parse_stream_run)

lemma ini_inv_run:
  assumes "ini_keeps handler P"
  shows "ini_inv P st \<Longrightarrow> ini_inv P (ini_run handler n lines st)"
  by (induction lines arbitrary: n st) (simp_all add: ini_inv_parse_line [OF assms])

text \<open>
  C24: a property of the user's state is kept by a whole file, whatever it contains, as soon as the
  handler keeps it for short sections without a bracket, names that do not begin with white
  space and have no separator, and trimmed values: no other call is ever made.
\<close>

theorem handler_sees_proper_settings:
  assumes "ini_keeps handler P" and "P user"
  shows "P (snd (ini_parse contents handler user))"
proof (cases contents)
  case None
  then show ?thesis using assms(2) by (simp add: ini_parse_def)
next
  case (Some content)
  have "ini_inv P (ini_start user)"
    using assms(2) by (simp add: ini_inv_def ini_start_def proper_section_def proper_name_def)
  then have "ini_inv P (ini_run handler 0 (ini_buffers content) (ini_start user))"
    by (rule ini_inv_run [OF assms(1)])
  then show ?thesis by (simp add: Some ini_parse_Some ini_inv_def Let_def)
qed

definition collect_settings :: "(string \<times> string \<times> string) list ini_handler" where
  "collect_settings calls sec name value = (calls @ [(sec, name, value)], True)"

definition proper_call :: "string \<times> string \<times> string \<Rightarrow> bool" where
  "proper_call = (\<lambda>(sec, name, value). proper_section sec \<and> proper_name name \<and> trimmed value)"

theorem handler_sees_proper_settings_witness:
  "list_all proper_call (snd (ini_parse (Some '' x : 1 [a]'') collect_settings []))"
proof (rule handler_sees_proper_settings)
  show "ini_keeps collect_settings (list_all proper_call)"
    by (simp add: ini_keeps_def collect_settings_def proper_call_def)
qed simp

section \<open>Errors\<close>

definition quiet :: "'u ini_state \<Rightarrow> 'u ini_state" where
  "quiet st = st\<lparr>ini_error := 0\<rparr>"

text \<open>A line is refused when, met without an earlier error, it is noted as one.\<close>

definition ini_refuses :: "'u ini_handler \<Rightarrow> nat \<Rightarrow> string \<Rightarrow> 'u ini_state \<Rightarrow> bool" where
  "ini_refuses handler n line st \<longleftrightarrow> ini_error (ini_parse_line handler n line (quiet st)) = n"

fun refused_lines :: "'u ini_handler \<Rightarrow> nat \<Rightarrow> string list \<Rightarrow> 'u ini_state \<Rightarrow> nat list" where
  "refused_lines handler n [] st = []"
| "refused_lines handler n (line # lines) st =
     (if ini_refuses handler (n + 1) line st then [n + 1] else [])
       @ refused_lines handler (n + 1) lines (ini_parse_line handler (n + 1) line st)"

text \<open>What two states share that differ in their errors only.\<close>

definition same_reading :: "'u ini_state \<Rightarrow> 'u ini_state \<Rightarrow> bool" where
  "same_reading s t \<longleftrightarrow> quiet s = quiet t"

lemma same_readingD:
  "same_reading s t \<Longrightarrow> ini_user s = ini_user t \<and> ini_section s = ini_section t \<and> prev_name s = prev_name t"
  by (auto simp: same_reading_def quiet_def dest: arg_cong [of _ _ ini_user] arg_cong [of _ _ ini_section] arg_cong [of _ _ prev_name])

lemma same_readingI:
  "ini_user s = ini_user t \<Longrightarrow> ini_section s = ini_section t \<Longrightarrow> prev_name s = prev_name t \<Longrightarrow> same_reading s t"
  by (cases s; cases t) (simp add: same_reading_def quiet_def)

lemma same_reading_note_error:
  "same_reading (note_error n s) t = same_reading s t" "same_reading s (note_error n t) = same_reading s t"
  by (simp_all add: same_reading_def quiet_def note_error_def)

lemma same_reading_call_handler:
  assumes "same_reading s t"
    and "\<And>u sec name val. fst (h u sec name val) = fst (g u sec name val)"
  shows "same_reading (call_handler h n name val s) (call_handler g n name val t)"
proof -
  note e = same_readingD [OF assms(1)]
  obtain u a where h: "h (ini_user t) (ini_section t) name val = (u, a)" by fastforce
  obtain b where g: "g (ini_user t) (ini_section t) name val = (u, b)"
    using assms(2) [of "ini_user t" "ini_section t" name val] h by (metis fst_conv prod.collapse)
  have "same_reading (s\<lparr>ini_user := u\<rparr>) (t\<lparr>ini_user := u\<rparr>)" using e by (intro same_readingI) simp_all
  then show ?thesis using e by (simp add: call_handler_def h g Let_def same_reading_note_error)
qed

lemma same_reading_parse_line:
  assumes "same_reading s t" and "\<And>u sec name val. fst (h u sec name val) = fst (g u sec name val)"
  shows "same_reading (ini_parse_line h n line s) (ini_parse_line g n line t)"
proof -
  note e = same_readingD [OF assms(1)]
  have upd: "same_reading (s\<lparr>ini_section := a, prev_name := b\<rparr>) (t\<lparr>ini_section := a, prev_name := b\<rparr>)"
    "same_reading (s\<lparr>prev_name := b\<rparr>) (t\<lparr>prev_name := b\<rparr>)" for a b
    using e by (auto intro!: same_readingI)
  note calls = same_reading_call_handler [OF _ assms(2)]
  show ?thesis
  proof (cases "lskip (rstrip (skip_bom n line))")
    case Nil
    then show ?thesis using assms(1) by (simp add: ini_parse_line_def)
  next
    case (Cons c cs)
    obtain before rest where f: "find_chars_or_comment ''=:'' (c # cs) = (before, rest)" by fastforce
    obtain sec srest where k: "find_chars_or_comment '']'' cs = (sec, srest)" by fastforce
    have names: "prev_name s = prev_name t" using e by simp
    show ?thesis
      unfolding ini_parse_line_def Let_def Cons list.case f k prod.case names
      using assms(1) by (simp add: same_reading_note_error upd calls split: list.split)
  qed
qed

lemma same_reading_run:
  assumes "\<And>u sec name value. fst (h u sec name value) = fst (g u sec name value)"
  shows "same_reading s t \<Longrightarrow> same_reading (ini_run h n lines s) (ini_run g n lines t)"
  by (induction lines arbitrary: n s t) (simp_all add: same_reading_parse_line assms)

text \<open>One line notes its own number or leaves the error as it is, whatever the error was.\<close>

lemma call_handler_error:
  "ini_error (call_handler h n name value s) = ini_error s \<or> ini_error s = 0 \<and> ini_error (call_handler h n name value s) = n"
  by (simp add: call_handler_def note_error_def Let_def split: prod.split)

lemma parse_line_cases:
  obtains "ini_parse_line h n line s = s" | "ini_parse_line h n line s = note_error n s"
    | val where "ini_parse_line h n line s = call_handler h n (prev_name s) val s"
    | sec where "ini_parse_line h n line s = s\<lparr>ini_section := sec, prev_name := []\<rparr>"
    | name val where "ini_parse_line h n line s = call_handler h n name val (s\<lparr>prev_name := strncpy0 name 50\<rparr>)"
proof (cases "lskip (rstrip (skip_bom n line))")
  case Nil
  then have "ini_parse_line h n line s = s" by (simp add: ini_parse_line_def)
  then show thesis by (rule that(1))
next
  case (Cons c cs)
  obtain before rest where f: "find_chars_or_comment ''=:'' (c # cs) = (before, rest)" by fastforce
  obtain sec srest where k: "find_chars_or_comment '']'' cs = (sec, srest)" by fastforce
  have eq: "ini_parse_line h n line s = x" if
    "x = (if c = CHR '';'' \<or> c = CHR ''#'' then s
          else if prev_name s \<noteq> [] \<and> start_moved line (skip_bom n line) then call_handler h n (prev_name s) (c # cs) s
          else if c = CHR ''['' then
            (case srest of e # _ \<Rightarrow> if e = CHR '']'' then s\<lparr>ini_section := strncpy0 sec 50, prev_name := []\<rparr> else note_error n s
             | [] \<Rightarrow> note_error n s)
          else (case rest of e # after \<Rightarrow>
                  if e = CHR ''='' \<or> e = CHR '':'' then
                    call_handler h n (rstrip before) (rstrip (fst (find_chars_or_comment [] (lskip after))))
                      (s\<lparr>prev_name := strncpy0 (rstrip before) 50\<rparr>)
                  else note_error n s
                | [] \<Rightarrow> note_error n s))" for x
    unfolding that ini_parse_line_def Let_def Cons list.case f k prod.case by (simp split: list.split)
  show thesis
  proof (cases "c = CHR '';'' \<or> c = CHR ''#''")
    case True
    then show thesis using eq [OF refl] by (intro that(1)) simp
  next
    case comment: False
    show thesis
    proof (cases "prev_name s \<noteq> [] \<and> start_moved line (skip_bom n line)")
      case True
      then show thesis using comment eq [OF refl] by (intro that(3)) simp
    next
      case entry: False
      show thesis
      proof (cases "c = CHR ''[''")
        case True
        then show thesis using comment entry eq [OF refl] that(2) that(4) by (cases srest) (auto split: if_splits)
      next
        case False
        then show thesis using comment entry eq [OF refl] that(2) that(5) by (cases rest) (auto split: if_splits)
      qed
    qed
  qed
qed

lemma parse_line_error_cases:
  "ini_error (ini_parse_line h n line s) = ini_error s \<or> ini_error s = 0 \<and> ini_error (ini_parse_line h n line s) = n"
proof (rule parse_line_cases [of h n line s], goal_cases)
  case (3 val)
  show ?case using call_handler_error [of h n "prev_name s" val s] unfolding 3 .
next
  case (5 name val)
  show ?case using call_handler_error [of h n name val "s\<lparr>prev_name := strncpy0 name 50\<rparr>"] unfolding 5 by simp
qed (simp_all add: note_error_def)

lemma run_keeps_error: "ini_error s \<noteq> 0 \<Longrightarrow> ini_error (ini_run h n lines s) = ini_error s"
proof (induction lines arbitrary: n s)
  case (Cons line lines)
  have "ini_error (ini_parse_line h (n + 1) line s) = ini_error s"
    using parse_line_error_cases [of h "n + 1" line s] Cons.prems by blast
  then show ?case using Cons by simp
qed simp

lemma run_error:
  "ini_error s = 0 \<Longrightarrow> ini_error (ini_run h n lines s) = (case refused_lines h n lines s of [] \<Rightarrow> 0 | k # _ \<Rightarrow> k)"
proof (induction lines arbitrary: n s)
  case (Cons line lines)
  have q: "quiet s = s" using Cons.prems by (cases s) (simp add: quiet_def)
  show ?case
  proof (cases "ini_refuses h (n + 1) line s")
    case True
    then have "ini_error (ini_parse_line h (n + 1) line s) = n + 1" by (simp add: ini_refuses_def q)
    then show ?thesis using True run_keeps_error [of "ini_parse_line h (n + 1) line s" h "n + 1" lines] by simp
  next
    case False
    then have "ini_error (ini_parse_line h (n + 1) line s) = 0"
      using parse_line_error_cases [of h "n + 1" line s] Cons.prems by (auto simp: ini_refuses_def q)
    then show ?thesis using False Cons.IH by simp
  qed
qed simp

text \<open>
  C25: the result of parsing is the number of the first line that is refused, zero if there is
  none; and an error stops nothing: the user's state ends up as if the handler had accepted
  every setting, so that all the others are still read. A file that cannot be opened gives
  \<open>-1\<close> and calls nothing.
\<close>

theorem ini_reports_first_refusal:
  "fst (ini_parse (Some content) handler user) =
     (case refused_lines handler 0 (ini_buffers content) (ini_start user) of [] \<Rightarrow> 0 | k # _ \<Rightarrow> int k)
   \<and> snd (ini_parse (Some content) handler user) =
       snd (ini_parse (Some content) (\<lambda>u sec name val. (fst (handler u sec name val), True)) user)
   \<and> ini_parse None handler user = (- 1, user)"
proof -
  have "same_reading (ini_run handler 0 (ini_buffers content) (ini_start user))
      (ini_run (\<lambda>u sec name val. (fst (handler u sec name val), True)) 0 (ini_buffers content) (ini_start user))"
    by (rule same_reading_run) (simp_all add: same_reading_def)
  moreover have "ini_error (ini_start user) = 0" by (simp add: ini_start_def)
  ultimately show ?thesis
    using run_error [of "ini_start user" handler 0 "ini_buffers content"] same_readingD
    unfolding ini_parse_Some Let_def by (auto simp: ini_parse_def split: list.splits)
qed

section \<open>Well-formed lines\<close>

text \<open>
  A setting that is written as \<open>name=value\<close> in a line of its own: the name has no separator,
  is not taken for a comment or a section, and is not cut; the value has no inline comment.
\<close>

definition plain :: "string \<Rightarrow> bool" where
  "plain s \<longleftrightarrow> trimmed s \<and> (\<forall>c \<in> set s. c \<noteq> NUL \<and> c \<noteq> CHR ''\<newline>'' \<and> c \<noteq> CHR '';'')"

definition setting_line :: "string \<times> string \<Rightarrow> bool" where
  "setting_line = (\<lambda>(name, val). plain name \<and> plain val \<and> name \<noteq> [] \<and> hd name \<notin> {CHR ''#'', CHR ''['', CHR 0xEF}
     \<and> CHR ''='' \<notin> set name \<and> CHR '':'' \<notin> set name \<and> length name + length val < 198)"

definition print_setting :: "string \<times> string \<Rightarrow> string" where
  "print_setting = (\<lambda>(name, val). name @ ''='' @ val @ [CHR ''\<newline>''])"

lemma read_line_newline:
  "CHR ''\<newline>'' \<notin> set xs \<Longrightarrow> length xs < n \<Longrightarrow> read_line n (xs @ CHR ''\<newline>'' # rest) = (xs @ [CHR ''\<newline>''], rest)"
proof (induction xs arbitrary: n)
  case Nil
  then show ?case by (cases n) simp_all
next
  case (Cons x xs)
  then show ?case by (cases n) auto
qed

lemma find_from_to:
  "\<forall>c \<in> set xs. \<not> chars c \<and> c \<noteq> CHR '';'' \<Longrightarrow> chars e \<Longrightarrow> find_from chars w (xs @ e # rest) = (xs, e # rest)"
  by (induction xs arbitrary: w) auto

lemma find_from_end: "\<forall>c \<in> set xs. \<not> chars c \<and> c \<noteq> CHR '';'' \<Longrightarrow> find_from chars w xs = (xs, [])"
  by (induction xs arbitrary: w) auto

lemma rstrip_id: "trimmed xs \<Longrightarrow> rstrip xs = xs"
  by (cases xs rule: rev_cases) (auto simp: rstrip_def trimmed_def)

lemma lskip_id: "trimmed xs \<Longrightarrow> lskip xs = xs"
  by (cases xs) (auto simp: lskip_def trimmed_def)

lemma rstrip_newline: "trimmed xs \<Longrightarrow> rstrip (xs @ [CHR ''\<newline>'']) = xs"
  using rstrip_id [of xs] by (simp add: rstrip_def isspace_def)

lemma ini_buffers_line:
  assumes "CHR ''\<newline>'' \<notin> set xs" and "NUL \<notin> set xs" and "length xs < 199"
  shows "ini_buffers (xs @ CHR ''\<newline>'' # rest) = (xs @ [CHR ''\<newline>'']) # ini_buffers rest"
proof -
  have nul: "CHR ''\<newline>'' \<noteq> NUL" by (simp add: NUL_def)
  have "c_string (xs @ [CHR ''\<newline>'']) = xs @ [CHR ''\<newline>'']"
    unfolding c_string_def using assms(2) nul by (intro takeWhile_eq_all_conv [THEN iffD2]) auto
  then show ?thesis
    using read_line_newline [OF assms(1), of 199 rest] assms(3)
    by (subst ini_buffers.simps) (simp add: fgets_def)
qed

lemma parse_setting_line:
  assumes "setting_line (name, val)"
  shows "ini_parse_line h n (name @ CHR ''='' # val @ [CHR ''\<newline>'']) st
       = call_handler h n name val (st\<lparr>prev_name := strncpy0 name 50\<rparr>)"
proof -
  let ?text = "name @ CHR ''='' # val"
  have p: "plain name" "plain val" "name \<noteq> []" "hd name \<notin> {CHR ''#'', CHR ''['', CHR 0xEF}"
    "CHR ''='' \<notin> set name" "CHR '':'' \<notin> set name"
    using assms by (auto simp: setting_line_def)
  obtain c cs where name: "name = c # cs" using p(3) by (cases name) auto
  have c: "c \<noteq> CHR '';''" "c \<noteq> CHR ''#''" "c \<noteq> CHR ''[''" "c \<noteq> CHR 0xEF" "\<not> isspace c"
    using p(1,4) by (auto simp: plain_def trimmed_def name)
  have eq: "\<not> isspace (CHR ''='')" by (simp add: isspace_def)
  have whole: "trimmed ?text"
    using p(2) c(5) eq by (cases "val = []") (auto simp: plain_def trimmed_def name)
  have bom: "skip_bom n (?text @ [CHR ''\<newline>'']) = ?text @ [CHR ''\<newline>'']"
    using c(4) by (simp add: skip_bom_def name del: char_of_mod_256)
  have strip: "rstrip (?text @ [CHR ''\<newline>'']) = ?text" by (rule rstrip_newline [OF whole])
  have still: "\<not> start_moved (?text @ [CHR ''\<newline>'']) (?text @ [CHR ''\<newline>''])"
    unfolding start_moved_def strip using c(5) by (simp add: name)
  have sep: "find_chars_or_comment ''=:'' ?text = (name, CHR ''='' # val)"
    unfolding find_chars_or_comment_def using p by (intro find_from_to) (auto simp: plain_def)
  have rest: "find_chars_or_comment [] val = (val, [])"
    unfolding find_chars_or_comment_def using p(2) by (intro find_from_end) (auto simp: plain_def)
  have ids: "rstrip name = name" "lskip val = val" "rstrip val = val" "lskip ?text = ?text"
    using p(1,2) whole by (simp_all add: plain_def rstrip_id lskip_id)
  have "ini_parse_line h n (?text @ [CHR ''\<newline>'']) st
      = call_handler h n name val (st\<lparr>prev_name := strncpy0 name 50\<rparr>)"
    unfolding ini_parse_line_def Let_def bom strip ids
    using c still sep by (simp add: name ids [unfolded name] rest)
  then show ?thesis by simp
qed

definition section_name :: "string \<Rightarrow> bool" where
  "section_name sec \<longleftrightarrow> length sec < 50 \<and> (\<forall>c \<in> set sec. c \<noteq> NUL \<and> c \<noteq> CHR ''\<newline>'' \<and> c \<noteq> CHR '';'' \<and> c \<noteq> CHR '']'')"

lemma parse_section_line:
  assumes "section_name sec"
  shows "ini_parse_line h n (CHR ''['' # sec @ [CHR '']'', CHR ''\<newline>'']) st = st\<lparr>ini_section := sec, prev_name := []\<rparr>"
proof -
  let ?text = "CHR ''['' # sec @ [CHR '']'']"
  have brackets: "\<not> isspace (CHR ''['')" "\<not> isspace (CHR '']'')" by (simp_all add: isspace_def)
  then have whole: "trimmed ?text" by (simp add: trimmed_def)
  have bom: "skip_bom n (?text @ [CHR ''\<newline>'']) = ?text @ [CHR ''\<newline>'']" by (simp add: skip_bom_def)
  have strip: "rstrip (?text @ [CHR ''\<newline>'']) = ?text" by (rule rstrip_newline [OF whole])
  have still: "\<not> start_moved (?text @ [CHR ''\<newline>'']) (?text @ [CHR ''\<newline>''])"
    unfolding start_moved_def strip using brackets by simp
  have sep: "find_chars_or_comment '']'' (sec @ [CHR '']'']) = (sec, [CHR '']''])"
    unfolding find_chars_or_comment_def using assms
    by (intro find_from_to) (auto simp: section_name_def)
  have cut: "strncpy0 sec 50 = sec" using assms by (simp add: strncpy0_def section_name_def)
  have "ini_parse_line h n (?text @ [CHR ''\<newline>'']) st = st\<lparr>ini_section := sec, prev_name := []\<rparr>"
    unfolding ini_parse_line_def Let_def bom strip lskip_id [OF whole]
    using still sep by (simp add: cut)
  then show ?thesis by simp
qed

text \<open>A file of sections, each with its settings.\<close>

definition print_section :: "string \<times> (string \<times> string) list \<Rightarrow> string" where
  "print_section = (\<lambda>(sec, settings). ''['' @ sec @ '']'' @ [CHR ''\<newline>''] @ concat (map print_setting settings))"

definition apply_setting :: "'u ini_handler \<Rightarrow> string \<Rightarrow> string \<times> string \<Rightarrow> 'u \<Rightarrow> 'u" where
  "apply_setting handler sec = (\<lambda>(name, val) u. fst (handler u sec name val))"

lemma ini_user_call_handler:
  "ini_user (call_handler h n name val st) = fst (h (ini_user st) (ini_section st) name val)"
  "ini_section (call_handler h n name val st) = ini_section st"
  by (simp_all add: call_handler_def note_error_def Let_def split: prod.split)

lemma setting_chars:
  assumes "setting_line (name, val)"
  shows "CHR ''\<newline>'' \<notin> set (name @ CHR ''='' # val)" and "NUL \<notin> set (name @ CHR ''='' # val)"
    and "length (name @ CHR ''='' # val) < 199"
proof -
  have "CHR ''='' \<noteq> NUL" by (simp add: NUL_def)
  moreover have "plain name" "plain val" "length name + length val < 198" using assms by (simp_all add: setting_line_def)
  ultimately show "CHR ''\<newline>'' \<notin> set (name @ CHR ''='' # val)" "NUL \<notin> set (name @ CHR ''='' # val)"
    "length (name @ CHR ''='' # val) < 199"
    unfolding plain_def by auto
qed

lemma section_chars:
  assumes "section_name sec"
  shows "CHR ''\<newline>'' \<notin> set (CHR ''['' # sec @ [CHR '']''])" and "NUL \<notin> set (CHR ''['' # sec @ [CHR '']''])"
    and "length (CHR ''['' # sec @ [CHR '']'']) < 199"
proof -
  have "CHR ''['' \<noteq> NUL" "CHR '']'' \<noteq> NUL" by (simp_all add: NUL_def)
  with assms show "CHR ''\<newline>'' \<notin> set (CHR ''['' # sec @ [CHR '']''])" "NUL \<notin> set (CHR ''['' # sec @ [CHR '']''])"
    "length (CHR ''['' # sec @ [CHR '']'']) < 199"
    unfolding section_name_def by auto
qed

lemma run_settings:
  assumes "list_all setting_line settings"
  shows "\<exists>st' n'. ini_run h n (ini_buffers (concat (map print_setting settings) @ rest)) st = ini_run h n' (ini_buffers rest) st'
      \<and> ini_user st' = fold (apply_setting h (ini_section st)) settings (ini_user st) \<and> ini_section st' = ini_section st"
  using assms
proof (induction settings arbitrary: n st)
  case Nil
  show ?case by (rule exI [of _ st]) auto
next
  case (Cons a settings)
  obtain name val where a: "a = (name, val)" by fastforce
  let ?rest = "concat (map print_setting settings) @ rest"
  let ?st = "call_handler h (n + 1) name val (st\<lparr>prev_name := strncpy0 name 50\<rparr>)"
  have line: "setting_line (name, val)" using Cons.prems by (simp add: a)
  note line_chars = setting_chars [OF line]
  have "ini_buffers ((name @ CHR ''='' # val) @ CHR ''\<newline>'' # ?rest)
      = ((name @ CHR ''='' # val) @ [CHR ''\<newline>'']) # ini_buffers ?rest"
    using line by (intro ini_buffers_line line_chars)
  then have "ini_run h n (ini_buffers (concat (map print_setting (a # settings)) @ rest)) st
      = ini_run h (n + 1) (ini_buffers ?rest) ?st"
    by (simp add: a print_setting_def parse_setting_line [OF line])
  moreover have "ini_user ?st = apply_setting h (ini_section st) a (ini_user st)" "ini_section ?st = ini_section st"
    by (simp_all add: ini_user_call_handler a apply_setting_def)
  ultimately show ?case using Cons.IH [of "n + 1" ?st] Cons.prems by simp
qed

lemma run_sections:
  assumes "list_all (\<lambda>(sec, settings). section_name sec \<and> list_all setting_line settings) sections"
  shows "ini_user (ini_run h n (ini_buffers (concat (map print_section sections))) st)
     = fold (\<lambda>(sec, settings). fold (apply_setting h sec) settings) sections (ini_user st)"
  using assms
proof (induction sections arbitrary: n st)
  case Nil
  have "ini_buffers [] = []" by (subst ini_buffers.simps) (simp add: fgets_def)
  then show ?case by simp
next
  case (Cons s sections)
  obtain sec settings where s: "s = (sec, settings)" by fastforce
  let ?rest = "concat (map print_section sections)"
  let ?st = "st\<lparr>ini_section := sec, prev_name := []\<rparr>"
  have sec: "section_name sec" "list_all setting_line settings" using Cons.prems by (auto simp: s)
  have buf: "ini_buffers ((CHR ''['' # sec @ [CHR '']'']) @ CHR ''\<newline>'' # more)
      = ((CHR ''['' # sec @ [CHR '']'']) @ [CHR ''\<newline>'']) # ini_buffers more" for more
    using section_chars [OF sec(1)] by (intro ini_buffers_line) simp_all
  have head: "ini_run h n (ini_buffers (concat (map print_section (s # sections)))) st
     = ini_run h (n + 1) (ini_buffers (concat (map print_setting settings) @ ?rest)) ?st"
    using buf [of "concat (map print_setting settings) @ ?rest"] parse_section_line [OF sec(1), of h "n + 1" st]
    by (simp add: s print_section_def)
  obtain st' n' where run: "ini_run h (n + 1) (ini_buffers (concat (map print_setting settings) @ ?rest)) ?st = ini_run h n' (ini_buffers ?rest) st'"
    and user: "ini_user st' = fold (apply_setting h sec) settings (ini_user st)"
    using run_settings [OF sec(2), of h "n + 1" ?rest ?st] by auto
  have "list_all (\<lambda>(sec, settings). section_name sec \<and> list_all setting_line settings) sections"
    using Cons.prems by simp
  then have "ini_user (ini_run h n' (ini_buffers ?rest) st')
      = fold (\<lambda>(sec, settings). fold (apply_setting h sec) settings) sections (ini_user st')"
    by (rule Cons.IH)
  then show ?case unfolding head run by (simp add: s user)
qed

end
