(* ===== verification/Program_Config.thy ===== *)
theory Program_Config
  imports Ini_Parser Stream_Meta
begin

text \<open>
  The program's configuration, \<^verbatim>\<open>data_loader/src/ProgramConfiguration.h\<close> and \<^verbatim>\<open>.cpp\<close>: the
  attributes with their defaults, the conversion of a setting's text, the handler that the
  parser of \<^verbatim>\<open>Ini_Parser\<close> calls, loading and the conversion into the electrical meta data.

  The lemmas show which settings the handler accepts, that a refused one changes nothing, and
  that a configuration that is written as a file is read back.
\<close>

record ProgramConfiguration =
  cfg_sample_rate :: nat
  cfg_frequency :: nat
  cfg_voltage :: f32
  cfg_data_set_start_time :: string
  cfg_max_data_points_in_queue :: nat
  cfg_data_points_stored_of_event :: int
  cfg_data_points_stored_before_event :: int

definition default_configuration :: ProgramConfiguration where
  "default_configuration =
     \<lparr>cfg_sample_rate = 12000, cfg_frequency = 60, cfg_voltage = Fin False 230, cfg_data_set_start_time = [],
      cfg_max_data_points_in_queue = 16000, cfg_data_points_stored_of_event = 0,
      cfg_data_points_stored_before_event = 0\<rparr>"

section \<open>Conversions\<close>

text \<open>
  The stream throws when \<open>failbit\<close> is set (\<open>None\<close>); text after the value is not looked at.
\<close>

definition unless_failed :: "'a option \<times> istream \<Rightarrow> 'a option" where
  "unless_failed = (\<lambda>(var, iss). if failbit iss then None else var)"

definition lexical_cast_ulong :: "string \<Rightarrow> nat option" where
  "lexical_cast_ulong str = unless_failed (extract_unsigned (istringstream str))"

definition lexical_cast_int :: "string \<Rightarrow> int option" where
  "lexical_cast_int str = unless_failed (extract_signed (- (2 ^ 31)) (2 ^ 31 - 1) (istringstream str))"

definition lexical_cast_float :: "string \<Rightarrow> f32 option" where
  "lexical_cast_float str = unless_failed (extract_float binary32 (istringstream str))"

definition lexical_cast_string :: "string \<Rightarrow> string option" where
  "lexical_cast_string str = Some str"

section \<open>The handler\<close>

text \<open>\<open>None\<close> is the exception of the conversion; \<open>store\<close> is the assignment to the destination.\<close>

definition mapSetting ::
  "(string \<Rightarrow> 'a option) \<Rightarrow> ('a \<Rightarrow> ProgramConfiguration \<Rightarrow> ProgramConfiguration) \<Rightarrow> string \<Rightarrow> string
    \<Rightarrow> string \<Rightarrow> string \<Rightarrow> string \<Rightarrow> ProgramConfiguration \<Rightarrow> (bool \<times> ProgramConfiguration) option" where
  "mapSetting lexical_cast store expected_section expected_name sec name val cfg =
     (if name \<noteq> expected_name then Some (False, cfg)
      else if sec \<noteq> expected_section then Some (False, cfg)
      else case lexical_cast val of None \<Rightarrow> None | Some x \<Rightarrow> Some (True, store x cfg))"

type_synonym setting =
  "string \<Rightarrow> string \<Rightarrow> string \<Rightarrow> ProgramConfiguration \<Rightarrow> (bool \<times> ProgramConfiguration) option"

definition settings :: "setting list" where
  "settings =
    [mapSetting lexical_cast_ulong (\<lambda>x c. c\<lparr>cfg_sample_rate := x\<rparr>) ''main'' ''sample_rate'',
     mapSetting lexical_cast_ulong (\<lambda>x c. c\<lparr>cfg_frequency := x\<rparr>) ''main'' ''frequency'',
     mapSetting lexical_cast_float (\<lambda>x c. c\<lparr>cfg_voltage := x\<rparr>) ''main'' ''voltage'',
     mapSetting lexical_cast_string (\<lambda>x c. c\<lparr>cfg_data_set_start_time := x\<rparr>) ''main'' ''data_set_start_time'',
     mapSetting lexical_cast_ulong (\<lambda>x c. c\<lparr>cfg_max_data_points_in_queue := x\<rparr>) ''data'' ''max_data_points_in_queue'',
     mapSetting lexical_cast_int (\<lambda>x c. c\<lparr>cfg_data_points_stored_of_event := x\<rparr>) ''data'' ''data_points_stored_of_event'',
     mapSetting lexical_cast_int (\<lambda>x c. c\<lparr>cfg_data_points_stored_before_event := x\<rparr>) ''data''
       ''data_points_stored_before_event'']"

text \<open>One after the other; an exception ends the handler with \<open>false\<close> and keeps what was assigned.\<close>

fun map_settings ::
  "setting list \<Rightarrow> string \<Rightarrow> string \<Rightarrow> string \<Rightarrow> bool \<Rightarrow> ProgramConfiguration \<Rightarrow> ProgramConfiguration \<times> bool" where
  "map_settings [] sec name val success cfg = (cfg, success)"
| "map_settings (s # ss) sec name val success cfg =
     (case s sec name val cfg of
        None \<Rightarrow> (cfg, False)
      | Some (mapped, cfg') \<Rightarrow> map_settings ss sec name val (success \<or> mapped) cfg')"

definition config_handler :: "ProgramConfiguration ini_handler" where
  "config_handler cfg sec name val = map_settings settings sec name val False cfg"

text \<open>\<open>contents\<close> is the text of the file at the path, \<open>None\<close> if it cannot be opened.\<close>

definition load_config :: "string option \<Rightarrow> ProgramConfiguration \<Rightarrow> bool \<times> ProgramConfiguration" where
  "load_config contents cfg =
     (let (error, cfg') = ini_parse contents config_handler cfg in if error < 0 then (False, cfg') else (True, cfg'))"

definition toPowerMetaData :: "ProgramConfiguration \<Rightarrow> power_meta_data" where
  "toPowerMetaData cfg =
     default_power_meta_data
       \<lparr>data_points_stored_of_event := cfg_data_points_stored_of_event cfg, sample_rate := cfg_sample_rate cfg,
        frequency := cfg_frequency cfg, voltage := cfg_voltage cfg,
        max_data_points_in_queue := cfg_max_data_points_in_queue cfg,
        data_points_stored_before_event := cfg_data_points_stored_before_event cfg\<rparr>"

text \<open>\<^verbatim>\<open>operator<<\<close>; how a float is printed is the library's affair.\<close>

definition decimal_int :: "int \<Rightarrow> string" where
  "decimal_int i = (if i < 0 then CHR ''-'' # decimal (nat (- i)) else decimal (nat i))"

definition print_configuration :: "(f32 \<Rightarrow> string) \<Rightarrow> ProgramConfiguration \<Rightarrow> string" where
  "print_configuration print_float c =
     ''sample_rate: '' @ decimal (cfg_sample_rate c) @ ''\<newline>'' @
     ''frequency: '' @ decimal (cfg_frequency c) @ ''\<newline>'' @
     ''voltage: '' @ print_float (cfg_voltage c) @ ''\<newline>'' @
     ''data_set_start_time: '' @ cfg_data_set_start_time c @ ''\<newline>'' @
     ''max_data_points_in_queue: '' @ decimal (cfg_max_data_points_in_queue c) @ ''\<newline>'' @
     ''data_points_stored_of_event: '' @ decimal_int (cfg_data_points_stored_of_event c) @ ''\<newline>'' @
     ''data_points_stored_before_event '' @ decimal_int (cfg_data_points_stored_before_event c) @ ''\<newline>''"

section \<open>What the handler accepts\<close>

lemma mapSetting_other [simp]: "(sec, name) \<noteq> (s, n) \<Longrightarrow> mapSetting f store s n sec name val cfg = Some (False, cfg)"
  by (auto simp: mapSetting_def)

lemma mapSetting_same [simp]:
  "mapSetting f store s n s n val cfg = map_option (\<lambda>x. (True, store x cfg)) (f val)"
  by (simp add: mapSetting_def split: option.split)

lemma config_handler_simps [simp]:
  "config_handler cfg ''main'' ''sample_rate'' val =
     (case lexical_cast_ulong val of None \<Rightarrow> (cfg, False) | Some x \<Rightarrow> (cfg\<lparr>cfg_sample_rate := x\<rparr>, True))"
  "config_handler cfg ''main'' ''frequency'' val =
     (case lexical_cast_ulong val of None \<Rightarrow> (cfg, False) | Some x \<Rightarrow> (cfg\<lparr>cfg_frequency := x\<rparr>, True))"
  "config_handler cfg ''main'' ''voltage'' val =
     (case lexical_cast_float val of None \<Rightarrow> (cfg, False) | Some x \<Rightarrow> (cfg\<lparr>cfg_voltage := x\<rparr>, True))"
  "config_handler cfg ''main'' ''data_set_start_time'' val = (cfg\<lparr>cfg_data_set_start_time := val\<rparr>, True)"
  "config_handler cfg ''data'' ''max_data_points_in_queue'' val =
     (case lexical_cast_ulong val of None \<Rightarrow> (cfg, False) | Some x \<Rightarrow> (cfg\<lparr>cfg_max_data_points_in_queue := x\<rparr>, True))"
  "config_handler cfg ''data'' ''data_points_stored_of_event'' val =
     (case lexical_cast_int val of None \<Rightarrow> (cfg, False) | Some x \<Rightarrow> (cfg\<lparr>cfg_data_points_stored_of_event := x\<rparr>, True))"
  "config_handler cfg ''data'' ''data_points_stored_before_event'' val =
     (case lexical_cast_int val of None \<Rightarrow> (cfg, False) | Some x \<Rightarrow> (cfg\<lparr>cfg_data_points_stored_before_event := x\<rparr>, True))"
  by (simp_all add: config_handler_def settings_def lexical_cast_string_def split: option.split)

definition known_settings :: "(string \<times> string) list" where
  "known_settings =
    [(''main'', ''sample_rate''), (''main'', ''frequency''), (''main'', ''voltage''), (''main'', ''data_set_start_time''),
     (''data'', ''max_data_points_in_queue''), (''data'', ''data_points_stored_of_event''),
     (''data'', ''data_points_stored_before_event'')]"

lemma config_handler_unknown:
  assumes "(sec, name) \<notin> set known_settings"
  shows "config_handler cfg sec name val = (cfg, False)"
proof -
  have "(sec, name) \<noteq> k" if "k \<in> set known_settings" for k using assms that by blast
  then show ?thesis unfolding config_handler_def settings_def
    by (simp only: map_settings.simps mapSetting_other known_settings_def list.set insert_iff simp_thms option.case prod.case)
qed

lemma config_handler_refused:
  assumes "\<not> snd (config_handler cfg sec name val)"
  shows "fst (config_handler cfg sec name val) = cfg"
proof (cases "(sec, name) \<in> set known_settings")
  case True
  then show ?thesis using assms by (auto simp: known_settings_def split: option.splits)
next
  case False
  then show ?thesis by (simp add: config_handler_unknown)
qed

text \<open>Loading only reports a file that cannot be opened: refused lines are not noticed.\<close>

lemma load_config_result: "fst (load_config contents cfg) \<longleftrightarrow> contents \<noteq> None"
proof (cases contents)
  case (Some content)
  then show ?thesis by (simp only: load_config_def ini_parse_Some Let_def prod.case) simp
qed (simp add: load_config_def ini_parse_def)

section \<open>Writing and reading a configuration\<close>

lemma decimal_length: "0 < k \<Longrightarrow> n < 10 ^ k \<Longrightarrow> length (decimal n) \<le> k"
proof (induction k arbitrary: n)
  case (Suc k)
  show ?case
  proof (cases "n < 10")
    case True
    then show ?thesis by (subst decimal.simps) simp
  next
    case False
    have "n div 10 < 10 ^ k" using Suc.prems by (simp add: less_mult_imp_div_less mult.commute)
    moreover have "0 < k" using False Suc.prems by (cases k) auto
    ultimately have "length (decimal (n div 10)) \<le> k" using Suc.IH by blast
    then show ?thesis using False by (subst decimal.simps) simp
  qed
qed simp

lemma digit_plain: "isdigit c \<Longrightarrow> c \<noteq> NUL \<and> c \<noteq> CHR ''\<newline>'' \<and> c \<noteq> CHR '';'' \<and> \<not> isspace c"
  by (auto simp: isdigit_def isspace_def NUL_def)

lemma plain_decimal: "plain (decimal n)"
proof -
  have d: "isdigit c" if "c \<in> set (decimal n)" for c using that decimal_digits [of n] by blast
  then show ?thesis using digit_plain by (auto simp: plain_def trimmed_def)
qed

lemma plain_decimal_int: "plain (decimal_int i)"
proof -
  have "plain (CHR ''-'' # decimal n)" for n
  proof -
    have "last (decimal n) \<in> set (decimal n)" by simp
    then show ?thesis using plain_decimal [of n] by (auto simp: plain_def trimmed_def NUL_def isspace_def)
  qed
  then show ?thesis by (simp add: decimal_int_def plain_decimal)
qed

lemma decimal_length_64: "n < 2 ^ 64 \<Longrightarrow> length (decimal n) \<le> 20"
  by (rule decimal_length) simp_all

lemma decimal_int_length: "- (2 ^ 31) \<le> i \<Longrightarrow> i < 2 ^ 31 \<Longrightarrow> length (decimal_int i) \<le> 21"
  using decimal_length [of 20 "nat i"] decimal_length [of 20 "nat (- i)"] by (cases "i < 0") (simp_all add: decimal_int_def nat_less_iff)

lemma lexical_cast_ulong_decimal: "n < 2 ^ 64 \<Longrightarrow> lexical_cast_ulong (decimal n) = Some n"
proof -
  assume n: "n < 2 ^ 64"
  have "extract_unsigned (istringstream (decimal n)) = (Some n, (istringstream (decimal n))\<lparr>unread := [], eofbit := ([] = ([] :: string))\<rparr>)"
    by (rule extract_unsigned_decimal) (simp_all add: istringstream_def stream_good_def isdigit_def n [simplified])
  then show ?thesis by (simp add: lexical_cast_ulong_def unless_failed_def istringstream_def)
qed

lemma extract_signed_negative:
  assumes "stream_good s" and "unread s = CHR ''-'' # decimal n" and "lo \<le> - int n" and "0 \<le> hi"
  shows "extract_signed lo hi s = (Some (- int n), s\<lparr>unread := [], eofbit := True\<rparr>)"
proof -
  have sp: "\<not> isspace (CHR ''-'')" by (simp add: isspace_def)
  have d: "takeWhile isdigit (decimal n) = decimal n" "dropWhile isdigit (decimal n) = []"
    using decimal_digits [of n] by (simp_all add: takeWhile_eq_all_conv)
  have "scan_integer s = ((True, decimal n), s\<lparr>unread := [], eofbit := True\<rparr>)"
    unfolding scan_integer_def using assms(2) d by simp
  moreover have "sentry s = (True, s)" using assms(1,2) sp by (simp add: sentry_def)
  ultimately show ?thesis using assms(3,4) by (simp add: extract_signed_def)
qed

lemma lexical_cast_int_decimal:
  assumes "- (2 ^ 31) \<le> i" and "i < 2 ^ 31"
  shows "lexical_cast_int (decimal_int i) = Some i"
proof (cases "i < 0")
  case True
  have "extract_signed (- (2 ^ 31)) (2 ^ 31 - 1) (istringstream (decimal_int i))
      = (Some (- int (nat (- i))), (istringstream (decimal_int i))\<lparr>unread := [], eofbit := True\<rparr>)"
    by (rule extract_signed_negative) (use True assms in \<open>simp_all add: istringstream_def stream_good_def decimal_int_def\<close>)
  then show ?thesis using True by (simp add: lexical_cast_int_def unless_failed_def istringstream_def)
next
  case False
  have "extract_signed (- (2 ^ 31)) (2 ^ 31 - 1) (istringstream (decimal_int i))
      = (Some (int (nat i)), (istringstream (decimal_int i))\<lparr>unread := [], eofbit := ([] = ([] :: string))\<rparr>)"
    by (rule extract_signed_decimal) (use False assms in \<open>simp_all add: istringstream_def stream_good_def decimal_int_def isdigit_def\<close>)
  then show ?thesis using False by (simp add: lexical_cast_int_def unless_failed_def istringstream_def)
qed

text \<open>The configuration as a file; \<open>volt\<close> is the text of the voltage.\<close>

definition config_file :: "string \<Rightarrow> ProgramConfiguration \<Rightarrow> string" where
  "config_file volt c = concat (map print_section
    [(''main'',
      [(''sample_rate'', decimal (cfg_sample_rate c)), (''frequency'', decimal (cfg_frequency c)), (''voltage'', volt),
       (''data_set_start_time'', cfg_data_set_start_time c)]),
     (''data'',
      [(''max_data_points_in_queue'', decimal (cfg_max_data_points_in_queue c)),
       (''data_points_stored_of_event'', decimal_int (cfg_data_points_stored_of_event c)),
       (''data_points_stored_before_event'', decimal_int (cfg_data_points_stored_before_event c))])])"

definition config_in_range :: "ProgramConfiguration \<Rightarrow> bool" where
  "config_in_range c \<longleftrightarrow> cfg_sample_rate c < 2 ^ 64 \<and> cfg_frequency c < 2 ^ 64 \<and> cfg_max_data_points_in_queue c < 2 ^ 64
     \<and> - (2 ^ 31) \<le> cfg_data_points_stored_of_event c \<and> cfg_data_points_stored_of_event c < 2 ^ 31
     \<and> - (2 ^ 31) \<le> cfg_data_points_stored_before_event c \<and> cfg_data_points_stored_before_event c < 2 ^ 31
     \<and> plain (cfg_data_set_start_time c) \<and> length (cfg_data_set_start_time c) \<le> 150"

lemma setting_lineI:
  assumes "plain val" and "length val \<le> 150" and "name \<in> snd ` set known_settings"
  shows "setting_line (name, val)"
proof -
  have "plain n \<and> n \<noteq> [] \<and> hd n \<notin> {CHR ''#'', CHR ''['', CHR 0xEF} \<and> CHR ''='' \<notin> set n \<and> CHR '':'' \<notin> set n \<and> length n < 40"
    if "n \<in> snd ` set known_settings" for n
    using that by (auto simp: known_settings_def plain_def trimmed_def isspace_def NUL_def)
  then show ?thesis using assms by (fastforce simp: setting_line_def)
qed

text \<open>
  C23: a configuration that is written as a file, with a text for the voltage that converts to it,
  is loaded again whatever the attributes were before.
\<close>

theorem config_file_roundtrip:
  assumes "config_in_range c" and "plain volt" and "length volt \<le> 150" and "lexical_cast_float volt = Some (cfg_voltage c)"
  shows "load_config (Some (config_file volt c)) old = (True, c)"
proof -
  let ?main = "[(''sample_rate'', decimal (cfg_sample_rate c)), (''frequency'', decimal (cfg_frequency c)), (''voltage'', volt),
       (''data_set_start_time'', cfg_data_set_start_time c)]"
  let ?data = "[(''max_data_points_in_queue'', decimal (cfg_max_data_points_in_queue c)),
       (''data_points_stored_of_event'', decimal_int (cfg_data_points_stored_of_event c)),
       (''data_points_stored_before_event'', decimal_int (cfg_data_points_stored_before_event c))]"
  note range = assms(1) [unfolded config_in_range_def]
  have nat: "setting_line (name, decimal n)" if "n < 2 ^ 64" "name \<in> snd ` set known_settings" for name n
    using that decimal_length_64 [OF that(1)] by (intro setting_lineI plain_decimal) auto
  have int: "setting_line (name, decimal_int i)" if "- (2 ^ 31) \<le> i" "i < 2 ^ 31" "name \<in> snd ` set known_settings" for name i
    using that decimal_int_length [OF that(1,2)] by (intro setting_lineI plain_decimal_int) auto
  have names: "snd ` set known_settings = {''sample_rate'', ''frequency'', ''voltage'', ''data_set_start_time'',
      ''max_data_points_in_queue'', ''data_points_stored_of_event'', ''data_points_stored_before_event''}"
    by (simp add: known_settings_def)
  have main: "list_all setting_line ?main"
    using range assms(2,3) by (simp add: nat setting_lineI names)
  have data: "list_all setting_line ?data" using range by (simp add: nat int names)
  have sects: "section_name ''main''" "section_name ''data''" by (simp_all add: section_name_def NUL_def)
  have "ini_user (ini_run config_handler 0 (ini_buffers (config_file volt c)) (ini_start old))
      = fold (\<lambda>(sec, ss). fold (apply_setting config_handler sec) ss) [(''main'', ?main), (''data'', ?data)] (ini_user (ini_start old))"
    unfolding config_file_def by (rule run_sections) (use main data sects in simp)
  also have "\<dots> = c"
    using range assms(4)
    by (simp add: apply_setting_def ini_start_def lexical_cast_ulong_decimal lexical_cast_int_decimal)
  finally show ?thesis by (simp add: load_config_def ini_parse_Some Let_def)
qed


lemma lexical_cast_float_230: "lexical_cast_float ''230'' = Some (Fin False 230)"
proof -
  have "representable binary32 230"
    unfolding representable_def binary32_def
    by (intro conjI exI [of _ "230 :: nat"] exI [of _ "0 :: int"]) (simp_all add: power_int_def)
  then have "fl_round binary32 False 230 = Fin False 230" by (rule fl_round_id)
  then show ?thesis
    by (simp add: lexical_cast_float_def extract_float_def sentry_def istringstream_def stream_good_def unless_failed_def
        isspace_def isdigit_def float_digits_def digit_val_def)
qed

theorem config_file_roundtrip_witness:
  "load_config (Some (config_file ''230'' default_configuration)) (default_configuration\<lparr>cfg_frequency := 50\<rparr>) = (True, default_configuration)"
proof (rule config_file_roundtrip)
  show "lexical_cast_float ''230'' = Some (cfg_voltage default_configuration)"
    by (simp add: lexical_cast_float_230 default_configuration_def)
qed (simp_all add: config_in_range_def default_configuration_def plain_def trimmed_def isspace_def NUL_def)

end
