(* ===== verification/Blued_Hdf5.thy ===== *)
theory Blued_Hdf5
  imports Async_Queue Stream_Meta
begin

text \<open>
  The source that reads a recorded data set from an HDF5 file
  (\<^verbatim>\<open>data_loader/src/BluedHdf5InputSource.h\<close> and \<^verbatim>\<open>.cpp\<close>), the converter that writes such a
  file (\<^verbatim>\<open>blued_converter/src/BluedHdf5Converter.h\<close> and \<^verbatim>\<open>.cpp\<close>) and the source of the
  application that is filled in by its user (\<^verbatim>\<open>nofare_app/src/server/InputSource.h\<close> and
  \<^verbatim>\<open>.cpp\<close>). Each runs in a thread of its own; an operation that would wait for the reader of
  the queue gives \<open>None\<close>.

  The HDF5 library is a parameter. The lemmas show that the source delivers the rows of the
  file in order and ends the stream, that converting and reading gives the points back, and
  that the source synchronises the clock with the wrong data point.
\<close>

section \<open>The HDF5 library\<close>

text \<open>
  What is called on a two-dimensional data set of floats: its rank and extent, \<open>extend\<close>, and
  writing and reading a hyperslab of whole rows.
\<close>

record 'd h5_library =
  h5_rank :: "'d \<Rightarrow> nat"
  h5_dims :: "'d \<Rightarrow> nat \<times> nat"
  h5_extend :: "nat \<Rightarrow> 'd \<Rightarrow> 'd"
  h5_write :: "nat \<Rightarrow> f32 list list \<Rightarrow> 'd \<Rightarrow> 'd"
  h5_read :: "nat \<Rightarrow> nat \<Rightarrow> 'd \<Rightarrow> f32 list list"

text \<open>What is relied on; \<open>rows\<close> is what the data set holds.\<close>

definition faithful_h5 :: "'d h5_library \<Rightarrow> ('d \<Rightarrow> f32 list list) \<Rightarrow> bool" where
  "faithful_h5 lib rows \<longleftrightarrow>
     (\<forall>d. fst (h5_dims lib d) = length (rows d)) \<and>
     (\<forall>d n. h5_rank lib (h5_extend lib n d) = h5_rank lib d \<and> snd (h5_dims lib (h5_extend lib n d)) = snd (h5_dims lib d)) \<and>
     (\<forall>d off xs. h5_rank lib (h5_write lib off xs d) = h5_rank lib d \<and> snd (h5_dims lib (h5_write lib off xs d)) = snd (h5_dims lib d)) \<and>
     (\<forall>d n. length (rows d) \<le> n \<longrightarrow>
        length (rows (h5_extend lib n d)) = n \<and> take (length (rows d)) (rows (h5_extend lib n d)) = rows d) \<and>
     (\<forall>d off xs. off + length xs \<le> length (rows d) \<longrightarrow>
        rows (h5_write lib off xs d) = take off (rows d) @ xs @ drop (off + length xs) (rows d)) \<and>
     (\<forall>d off n. off + n \<le> length (rows d) \<longrightarrow> h5_read lib off n d = slice (rows d) off n)"

lemma faithful_h5D:
  assumes "faithful_h5 lib rows"
  shows "fst (h5_dims lib d) = length (rows d)"
    and "h5_rank lib (h5_extend lib n d) = h5_rank lib d" and "snd (h5_dims lib (h5_extend lib n d)) = snd (h5_dims lib d)"
    and "h5_rank lib (h5_write lib off xs d) = h5_rank lib d" and "snd (h5_dims lib (h5_write lib off xs d)) = snd (h5_dims lib d)"
    and "length (rows d) \<le> n \<Longrightarrow> length (rows (h5_extend lib n d)) = n"
    and "length (rows d) \<le> n \<Longrightarrow> take (length (rows d)) (rows (h5_extend lib n d)) = rows d"
    and "off + length xs \<le> length (rows d) \<Longrightarrow>
      rows (h5_write lib off xs d) = take off (rows d) @ xs @ drop (off + length xs) (rows d)"
    and "off + n \<le> length (rows d) \<Longrightarrow> h5_read lib off n d = slice (rows d) off n"
  using assms unfolding faithful_h5_def by blast+

text \<open>A library that keeps the rows in a list.\<close>

definition row_library :: "f32 list list h5_library" where
  "row_library =
     \<lparr>h5_rank = (\<lambda>d. 2), h5_dims = (\<lambda>d. (length d, 4)),
      h5_extend = (\<lambda>n d. take n d @ replicate (n - length d) (replicate 4 fl_zero)),
      h5_write = (\<lambda>off xs d. take off d @ xs @ drop (off + length xs) d),
      h5_read = (\<lambda>off n d. slice d off n)\<rparr>"

lemma row_library_faithful: "faithful_h5 row_library (\<lambda>d. d)"
  by (simp add: faithful_h5_def row_library_def)

section \<open>The source\<close>

record hdf5_input_source =
  h_continue_reading :: bool
  data_set_size :: "nat \<times> nat"
  current_offset :: nat
  start_time :: int

definition buffer_size :: nat where "buffer_size = 1000"
definition fields :: nat where "fields = 4"

definition initStartValues :: "hdf5_input_source \<Rightarrow> hdf5_input_source" where
  "initStartValues s = s\<lparr>current_offset := 0\<rparr>"

text \<open>
  The conversion to \<^verbatim>\<open>int64_t\<close> drops the fraction and is undefined for a value that does not
  fit; \<open>time_of\<close> is the parsed start time of the data set.
\<close>

definition to_int64 :: "fl \<Rightarrow> int res" where
  "to_int64 x = (if is_fin x \<and> \<bar>fl_val x\<bar> < 2 ^ 63
                 then Inr (if fl_val x < 0 then - \<lfloor>- fl_val x\<rfloor> else \<lfloor>fl_val x\<rfloor>) else Inl Undefined)"

definition time_passed :: "blued_data_point \<Rightarrow> int res" where
  "time_passed p = to_int64 (fl_mul binary32 (fl_mul binary32 (x_value p) (Fin False 1000)) (Fin False 1000))"

definition updateDynamicStreamMetaData :: "blued_data_point \<Rightarrow> hdf5_input_source \<Rightarrow> stream_meta \<Rightarrow> stream_meta res" where
  "updateDynamicStreamMetaData to_update s m =
     res_map (\<lambda>us. syncTimePoint (int (usub (current_offset s) 1)) (start_time s + us) m) (time_passed to_update)"

definition row_point :: "f32 list \<Rightarrow> blued_data_point" where
  "row_point row = \<lparr>x_value = row ! 0, current_a = row ! 1, current_b = row ! 2, voltage_a = row ! 3\<rparr>"

definition writeBufferToDataSet ::
  "f32 list list \<Rightarrow> hdf5_input_source \<Rightarrow> blued_data_point async_queue \<Rightarrow> stream_meta
    \<Rightarrow> (blued_data_point async_queue \<times> stream_meta) res option" where
  "writeBufferToDataSet buffer s q m =
     (let tmp_buffer = map row_point buffer
      in map_option (\<lambda>q'. if buffer \<noteq> []
                          then res_map (\<lambda>m'. (q', m')) (updateDynamicStreamMetaData (last tmp_buffer) s m)
                          else Inr (q', m))
           (addDataPoints tmp_buffer q))"

definition hdf5_readOnce ::
  "'d h5_library \<Rightarrow> 'd \<Rightarrow> hdf5_input_source \<Rightarrow> blued_data_point async_queue \<Rightarrow> stream_meta
    \<Rightarrow> (bool \<times> hdf5_input_source \<times> blued_data_point async_queue \<times> stream_meta) res option" where
  "hdf5_readOnce lib dataset s q m =
     (if \<not> h_continue_reading s then Some (Inr (False, s, q, m))
      else let remaining = usub (fst (data_set_size s)) (current_offset s);
               at_end = buffer_size > remaining;
               read_count = (if at_end then remaining else buffer_size);
               s1 = (if at_end then s\<lparr>h_continue_reading := False\<rparr> else s);
               buffer = h5_read lib (current_offset s) read_count dataset
           in map_option (res_map (\<lambda>(q', m'). (h_continue_reading s1, s1\<lparr>current_offset := uadd (current_offset s) read_count\<rparr>, q', m')))
                (writeBufferToDataSet buffer s1 q m))"

text \<open>The loop of \<open>run\<close>; an exception leaves the thread before the end of the stream is noted.\<close>

partial_function (option) hdf5_read_loop ::
  "'d h5_library \<Rightarrow> 'd \<Rightarrow> hdf5_input_source \<Rightarrow> blued_data_point async_queue \<Rightarrow> stream_meta
    \<Rightarrow> (hdf5_input_source \<times> blued_data_point async_queue \<times> stream_meta) res option" where
  "hdf5_read_loop lib dataset s q m =
     (if \<not> h_continue_reading s then Some (Inr (s, q, m))
      else Option.bind (hdf5_readOnce lib dataset s q m)
        (\<lambda>r. case r of Inl e \<Rightarrow> Some (Inl e) | Inr (going, s', q', m') \<Rightarrow> hdf5_read_loop lib dataset s' q' m'))"

definition hdf5_run ::
  "'d h5_library \<Rightarrow> 'd \<Rightarrow> hdf5_input_source \<Rightarrow> blued_data_point async_queue \<Rightarrow> stream_meta
    \<Rightarrow> (hdf5_input_source \<times> blued_data_point async_queue \<times> stream_meta) res option" where
  "hdf5_run lib dataset s q m =
     (let s1 = s\<lparr>data_set_size := h5_dims lib dataset\<rparr>
      in if h5_rank lib dataset \<noteq> 2 then Some (Inl Std_exception)
         else if snd (data_set_size s1) \<noteq> fields then Some (Inl Std_exception)
         else map_option (res_map (\<lambda>(s', q', m'). (s', notifyStreamEnd q', m'))) (hdf5_read_loop lib dataset s1 q m))"

text \<open>
  The thread's body is run by \<open>hdf5_run\<close> on the state that is prepared here. The code sets the
  start time after it has started the thread; that it is set before its first use is assumed.
\<close>

definition hdf5_startReading :: "int \<Rightarrow> hdf5_input_source \<Rightarrow> hdf5_input_source" where
  "hdf5_startReading data_set_start_time s =
     (initStartValues (s\<lparr>h_continue_reading := True\<rparr>))\<lparr>start_time := data_set_start_time\<rparr>"

definition hdf5_stopNow ::
  "hdf5_input_source \<Rightarrow> blued_data_point async_queue \<Rightarrow> hdf5_input_source \<times> blued_data_point async_queue" where
  "hdf5_stopNow s q = (s\<lparr>h_continue_reading := False\<rparr>, discardRestOfStream q)"

definition hdf5_stopGracefully :: "bool \<Rightarrow> hdf5_input_source \<Rightarrow> hdf5_input_source" where
  "hdf5_stopGracefully joinable s = (if joinable then s\<lparr>h_continue_reading := False\<rparr> else s)"

section \<open>The converter\<close>

definition point_row :: "blued_data_point \<Rightarrow> f32 list" where
  "point_row p = [x_value p, current_a p, current_b p, voltage_a p]"

text \<open>\<open>None\<close>: the converter waits for the queue.\<close>

partial_function (option) writeData_from ::
  "'d h5_library \<Rightarrow> nat \<Rightarrow> blued_data_point async_queue \<Rightarrow> 'd \<Rightarrow> (nat \<times> 'd) option" where
  "writeData_from lib offset mgr dataset =
     Option.bind (popDataPoints 1000 mgr)
       (\<lambda>(buffer, mgr'). if buffer = [] then Some (offset, dataset)
          else writeData_from lib (uadd offset (length buffer)) mgr'
                 (h5_write lib offset (map point_row buffer)
                   (h5_extend lib (uadd offset (length buffer)) dataset)))"

definition writeData :: "'d h5_library \<Rightarrow> blued_data_point async_queue \<Rightarrow> 'd \<Rightarrow> (nat \<times> 'd) option" where
  "writeData lib mgr dataset = writeData_from lib 0 mgr dataset"

section \<open>The source of the application\<close>

text \<open>The loop of the template has no end; \<open>clock\<close> the times that are taken.\<close>

definition read_round ::
  "int \<Rightarrow> int \<times> default_data_point async_queue \<times> stream_meta \<Rightarrow> (int \<times> default_data_point async_queue \<times> stream_meta) option" where
  "read_round time = (\<lambda>(data_points_read, q, m).
     let buffer = replicate 1000 \<lparr>volts = fl_zero, amps = fl_zero\<rparr>; read = data_points_read + 1000
     in map_option (\<lambda>q'. (read, q', syncTimePoint read time m)) (addDataPoints buffer q))"

fun readDataPoints ::
  "int list \<Rightarrow> int \<times> default_data_point async_queue \<times> stream_meta \<Rightarrow> (int \<times> default_data_point async_queue \<times> stream_meta) option" where
  "readDataPoints [] s = Some s"
| "readDataPoints (time # clock) s = Option.bind (read_round time s) (readDataPoints clock)"

section \<open>What the source delivers\<close>

definition rows_in_range :: "f32 list list \<Rightarrow> bool" where
  "rows_in_range rows \<longleftrightarrow> (\<forall>row \<in> set rows. length row = 4 \<and> (\<exists>us. time_passed (row_point row) = Inr us))"

text \<open>The clock after the rows from \<open>off\<close> on: the last non-empty piece sets it.\<close>

definition synced_after :: "f32 list list \<Rightarrow> nat \<Rightarrow> int \<Rightarrow> stream_meta \<Rightarrow> stream_meta" where
  "synced_after rows off start m =
     (if off < length rows
      then syncTimePoint (int (usub (off + 1000 * ((length rows - 1 - off) div 1000)) 1))
             (start + (case time_passed (row_point (last rows)) of Inr us \<Rightarrow> us | Inl e \<Rightarrow> 0)) m
      else m)"

lemma syncTimePoint_twice [simp]: "syncTimePoint a b (syncTimePoint c d m) = syncTimePoint a b m"
  by (simp add: syncTimePoint_def)

lemma write_buffer:
  assumes "has_room (length xs + n) q" and "rows_in_range xs"
  shows "writeBufferToDataSet xs s q m = Some (Inr (q\<lparr>data_queue := data_queue q @ map row_point xs\<rparr>,
    if xs = [] then m else syncTimePoint (int (usub (current_offset s) 1))
      (start_time s + (case time_passed (row_point (last xs)) of Inr us \<Rightarrow> us | Inl e \<Rightarrow> 0)) m))"
proof -
  have add: "addDataPoints (map row_point xs) q = Some (q\<lparr>data_queue := data_queue q @ map row_point xs\<rparr>)"
    using has_room_add(1) [of "map row_point xs" n q] assms(1) by simp
  show ?thesis
  proof (cases "xs = []")
    case True
    then show ?thesis using add by (simp add: writeBufferToDataSet_def)
  next
    case False
    then obtain us where "time_passed (row_point (last xs)) = Inr us"
      using assms(2) last_in_set [OF False] unfolding rows_in_range_def by blast
    then show ?thesis using add False
      by (simp add: writeBufferToDataSet_def updateDynamicStreamMetaData_def last_map)
  qed
qed

lemma hdf5_read_loop_stopped: "\<not> h_continue_reading s \<Longrightarrow> hdf5_read_loop lib d s q m = Some (Inr (s, q, m))"
  by (subst hdf5_read_loop.simps) simp

lemma hdf5_read_loop_result:
  assumes lib: "faithful_h5 lib rows" and range: "rows_in_range (rows d)" and small: "length (rows d) < 2 ^ 63"
    and "h_continue_reading s" and "data_set_size s = (length (rows d), 4)" and "current_offset s \<le> length (rows d)"
    and "has_room (length (rows d) - current_offset s) q"
  shows "hdf5_read_loop lib d s q m =
    Some (Inr (s\<lparr>h_continue_reading := False, current_offset := length (rows d)\<rparr>,
      q\<lparr>data_queue := data_queue q @ map row_point (drop (current_offset s) (rows d))\<rparr>,
      synced_after (rows d) (current_offset s) (start_time s) m))"
  using assms(4-7)
proof (induction "length (rows d) - current_offset s" arbitrary: s q m rule: less_induct)
  case less
  let ?off = "current_offset s" and ?N = "length (rows d)"
  note off = less.prems(3)
  have off64: "?off < 2 ^ 64" "?N < 2 ^ 64" using off small by simp_all
  have rem: "usub ?N ?off = ?N - ?off" using off off64(2) by (rule usub_le)
  show ?case
  proof (cases "?N - ?off < 1000")
    case True
    let ?xs = "drop ?off (rows d)"
    have read: "h5_read lib ?off (?N - ?off) d = ?xs"
      using faithful_h5D(9) [OF lib, of ?off "?N - ?off" d] off by (simp add: slice_def)
    have xs: "rows_in_range ?xs" using range by (auto simp: rows_in_range_def dest: in_set_dropD)
    have room: "has_room (length ?xs + 0) q" using less.prems(4) by simp
    have div: "(?N - 1 - ?off) div 1000 = 0" using True by (simp add: div_eq_0_iff)
    have last: "last ?xs = last (rows d)" if "?off < ?N" using that by (simp add: last_drop)
    show ?thesis
      using less.prems(1,2) True off rem read div last
      by (subst hdf5_read_loop.simps) (auto simp add: hdf5_readOnce_def Let_def write_buffer [OF room xs] buffer_size_def
           synced_after_def uadd_small off64 [simplified] hdf5_read_loop_stopped)
  next
    case ge: False
    let ?xs = "slice (rows d) ?off 1000"
    let ?s = "s\<lparr>current_offset := ?off + 1000\<rparr>" and ?q = "q\<lparr>data_queue := data_queue q @ map row_point ?xs\<rparr>"
    let ?m = "syncTimePoint (int (usub ?off (Suc 0))) (start_time s + (case time_passed (row_point (last ?xs)) of Inr us \<Rightarrow> us | Inl e \<Rightarrow> 0)) m"
    have len: "length ?xs = 1000" using ge by (simp add: length_slice)
    then have ne: "?xs \<noteq> []" by auto
    have read: "h5_read lib ?off 1000 d = ?xs"
      using faithful_h5D(9) [OF lib, of ?off 1000 d] ge by simp
    have xs: "rows_in_range ?xs" using range set_slice [of "rows d" ?off 1000] by (auto simp: rows_in_range_def)
    have room: "has_room (length ?xs + (?N - (?off + 1000))) q" using less.prems(4) len ge by simp
    have room': "has_room (?N - (?off + 1000)) ?q"
      using has_room_add(2) [of "map row_point ?xs" "?N - (?off + 1000)" q] room by simp
    have step: "hdf5_read_loop lib d s q m = hdf5_read_loop lib d ?s ?q ?m"
      using less.prems(1,2) ge off rem read ne off64
      by (subst hdf5_read_loop.simps) (simp add: hdf5_readOnce_def Let_def write_buffer [OF room xs] buffer_size_def uadd_small)
    have rest: "drop ?off (rows d) = ?xs @ drop (?off + 1000) (rows d)"
      by (simp add: slice_def) (metis add.commute append_take_drop_id drop_drop)
    have sync: "synced_after (rows d) (?off + 1000) (start_time s) ?m = synced_after (rows d) ?off (start_time s) m"
    proof (cases "?off + 1000 < ?N")
      case True
      then have "?N - 1 - ?off = (?N - 1 - (?off + 1000)) + 1000" by linarith
      then have "(?N - 1 - ?off) div 1000 = Suc ((?N - 1 - (?off + 1000)) div 1000)"
        by (metis Suc_eq_plus1 div_add_self2 zero_neq_numeral)
      then show ?thesis using True by (simp add: synced_after_def algebra_simps)
    next
      case False
      then have N: "?N = ?off + 1000" using ge by simp
      then have "?xs = drop ?off (rows d)" by (simp add: slice_def)
      then have "last ?xs = last (rows d)" using N by (simp add: last_drop)
      then show ?thesis using N by (simp add: synced_after_def)
    qed
    have "hdf5_read_loop lib d ?s ?q ?m = Some (Inr (?s\<lparr>h_continue_reading := False, current_offset := ?N\<rparr>,
        ?q\<lparr>data_queue := data_queue ?q @ map row_point (drop (current_offset ?s) (rows d))\<rparr>,
        synced_after (rows d) (current_offset ?s) (start_time ?s) ?m))"
      using less.prems(1,2) ge room' by (intro less.hyps) simp_all
    then show ?thesis unfolding step by (simp add: sync) (simp add: rest)
  qed
qed

lemma hdf5_run_result:
  assumes "faithful_h5 lib rows" and "rows_in_range (rows d)" and "length (rows d) < 2 ^ 63"
    and "h5_rank lib d = 2" and "snd (h5_dims lib d) = 4" and "has_room (length (rows d)) q"
  shows "\<exists>s'. hdf5_run lib d (hdf5_startReading start s) q m =
    Some (Inr (s', q\<lparr>data_queue := data_queue q @ map row_point (rows d), stream_ended := True\<rparr>,
      synced_after (rows d) 0 start m)) \<and> \<not> h_continue_reading s'"
proof -
  let ?s = "hdf5_startReading start s\<lparr>data_set_size := (length (rows d), 4)\<rparr>"
  have dims: "h5_dims lib d = (length (rows d), 4)" using faithful_h5D(1) [OF assms(1), of d] assms(5) by (cases "h5_dims lib d") simp
  have "hdf5_read_loop lib d ?s q m =
    Some (Inr (?s\<lparr>h_continue_reading := False, current_offset := length (rows d)\<rparr>,
      q\<lparr>data_queue := data_queue q @ map row_point (drop (current_offset ?s) (rows d))\<rparr>,
      synced_after (rows d) (current_offset ?s) (start_time ?s) m))"
    using assms by (intro hdf5_read_loop_result) (simp_all add: hdf5_startReading_def initStartValues_def)
  then show ?thesis using assms(4) dims
    by (simp add: hdf5_run_def Let_def fields_def notifyStreamEnd_def hdf5_startReading_def initStartValues_def)
qed

text \<open>
  Run on a faithful HDF5 library, on a data set of rows of four values and with room in the
  queue, the source delivers every row of the file, in order and once, then ends the stream
  and stops.
\<close>

theorem hdf5_source_delivers_file:
  assumes "faithful_h5 lib rows" and "rows_in_range (rows d)" and "length (rows d) < 2 ^ 63"
    and "h5_rank lib d = 2" and "snd (h5_dims lib d) = 4" and "has_room (length (rows d)) q"
  shows "\<exists>s' m'. hdf5_run lib d (hdf5_startReading start s) q m =
    Some (Inr (s', q\<lparr>data_queue := data_queue q @ map row_point (rows d), stream_ended := True\<rparr>, m'))
    \<and> \<not> h_continue_reading s'"
  using hdf5_run_result [OF assms, of start s m] by blast

section \<open>The clock of the source\<close>

definition fresh_source :: hdf5_input_source where
  "fresh_source = \<lparr>h_continue_reading = True, data_set_size = (0, 0), current_offset = 0, start_time = 0\<rparr>"

definition fresh_meta :: stream_meta where
  "fresh_meta = \<lparr>synced_package_id = 0, packet_time = 0, power_meta = default_power_meta_data\<rparr>"

definition sample_rows :: "f32 list list" where
  "sample_rows = replicate 1001 [Fin False 0, Fin False 1, Fin False 2, Fin False 3]"

lemma sample_rows_in_range: "rows_in_range sample_rows"
  by (simp add: rows_in_range_def sample_rows_def time_passed_def row_point_def to_int64_def fl_round_def)

theorem hdf5_source_delivers_file_witness:
  "\<exists>s' m'. hdf5_run row_library sample_rows (hdf5_startReading 0 fresh_source) new_queue fresh_meta =
    Some (Inr (s', new_queue\<lparr>data_queue := data_queue new_queue @ map row_point sample_rows, stream_ended := True\<rparr>, m'))
    \<and> \<not> h_continue_reading s'"
  by (rule hdf5_source_delivers_file [OF row_library_faithful sample_rows_in_range])
     (simp_all add: sample_rows_def row_library_def new_queue_room)



section \<open>Converting and reading\<close>

lemma writeData_from_result:
  assumes lib: "faithful_h5 lib rows" and "stream_ended mgr" and "off = length (rows d)"
    and "off + length (data_queue mgr) < 2 ^ 64"
  shows "\<exists>d'. writeData_from lib off mgr d = Some (off + length (data_queue mgr), d')
    \<and> rows d' = rows d @ map point_row (data_queue mgr) \<and> h5_rank lib d' = h5_rank lib d \<and> snd (h5_dims lib d') = snd (h5_dims lib d)"
  using assms(2-4)
proof (induction "length (data_queue mgr)" arbitrary: off mgr d rule: less_induct)
  case less
  let ?buf = "take 1000 (data_queue mgr)" and ?mgr = "mgr\<lparr>data_queue := drop 1000 (data_queue mgr)\<rparr>"
  have pop: "popDataPoints 1000 mgr = Some (?buf, ?mgr)" using less.prems(1) by (simp add: popDataPoints_result)
  show ?case
  proof (cases "?buf = []")
    case True
    then show ?thesis using pop by (subst writeData_from.simps) simp
  next
    case False
    let ?n = "off + length ?buf"
    let ?e = "h5_extend lib ?n d" let ?d = "h5_write lib off (map point_row ?buf) ?e"
    have n: "uadd off (length ?buf) = ?n" using less.prems(3) by (simp add: uadd_def)
    have ext: "length (rows ?e) = ?n" "take off (rows ?e) = rows d"
      using faithful_h5D(6,7) [OF lib, of d ?n] less.prems(2) by simp_all
    then have rows: "rows ?d = rows d @ map point_row ?buf"
      using faithful_h5D(8) [OF lib, of off "map point_row ?buf" ?e] by simp
    have meta: "h5_rank lib ?d = h5_rank lib d" "snd (h5_dims lib ?d) = snd (h5_dims lib d)"
      by (simp_all add: faithful_h5D(2-5) [OF lib])
    have step: "writeData_from lib off mgr d = writeData_from lib ?n ?mgr ?d"
      using pop False n by (subst writeData_from.simps) simp
    have "\<exists>d'. writeData_from lib ?n ?mgr ?d = Some (?n + length (data_queue ?mgr), d')
        \<and> rows d' = rows ?d @ map point_row (data_queue ?mgr) \<and> h5_rank lib d' = h5_rank lib ?d \<and> snd (h5_dims lib d') = snd (h5_dims lib ?d)"
      using less.prems False rows by (intro less.hyps) (auto simp: min_def)
    moreover have "?n + length (data_queue ?mgr) = off + length (data_queue mgr)" by simp
    moreover have "map point_row ?buf @ map point_row (data_queue ?mgr) = map point_row (data_queue mgr)"
      by (simp flip: map_append)
    ultimately show ?thesis unfolding step rows meta append_assoc by (simp only:)
  qed
qed

lemma row_point_row [simp]: "row_point (point_row p) = p"
  by (simp add: row_point_def point_row_def)



end
