(* ===== verification/Blued_Text.thy ===== *)
theory Blued_Text
  imports Async_Queue Stream_Meta Cpp_Stream "HOL-Library.List_Lexorder" "HOL-Library.Char_ord"
begin

text \<open>
  The source that reads the original text files of the data set,
  \<^verbatim>\<open>data_loader/src/BluedInputSource.h\<close> and \<^verbatim>\<open>.cpp\<close>. Its thread reads one file or all files
  of a directory in the order of their names. An operation that would wait for the reader of
  the queue gives \<open>None\<close>.

  A variable that a failed extraction leaves unwritten is indeterminate; \<open>junk\<close> stands for the
  four values that are then found in them.

  The lemmas show what is read from a well-formed file, and that stopping the source between
  two buffers, or a file whose last line completes a buffer, is undefined.
\<close>

section \<open>The state\<close>

record blued_input_source =
  continue_reading :: bool
  previous_x_value :: f64

definition new_blued_source :: blued_input_source where
  "new_blued_source = \<lparr>continue_reading = True, previous_x_value = Fin True 1000\<rparr>"

record junk_values =
  junk_x :: f64
  junk_a :: f32
  junk_b :: f32
  junk_v :: f32

definition or_junk :: "'a \<Rightarrow> 'a option \<Rightarrow> 'a" where
  "or_junk j v = (case v of None \<Rightarrow> j | Some x \<Rightarrow> x)"

section \<open>One line\<close>

definition x_value_max_dist :: f64 where
  "x_value_max_dist = fl_round binary64 False (1 / 10000)"

text \<open>\<open>x\<close> is neither before the previous value nor too far behind it, or it is the first one.\<close>

definition x_in_bounds :: "f64 \<Rightarrow> f64 \<Rightarrow> bool" where
  "x_in_bounds previous x \<longleftrightarrow>
     \<not> ((fl_less x previous \<or> fl_less (fl_add binary64 previous x_value_max_dist) x) \<and> fl_less (Fin True 100) previous)"

definition matchLine ::
  "junk_values \<Rightarrow> istream \<Rightarrow> blued_input_source \<Rightarrow> (blued_data_point \<times> istream \<times> blued_input_source) res" where
  "matchLine junk input_stream s =
     (let (x, s1) = extract_float binary64 input_stream;
          x = or_junk (junk_x junk) x;
          s2 = stream_ignore 50 (CHR '','') s1
      in if \<not> x_in_bounds (previous_x_value s) x then Inl Std_exception
         else let (a, s3) = extract_float binary32 s2; s4 = stream_ignore 50 (CHR '','') s3;
                  (b, s5) = extract_float binary32 s4; s6 = stream_ignore 50 (CHR '','') s5;
                  (v, s7) = extract_float binary32 s6; s8 = stream_ignore 50 (CHR ''\<newline>'') s7
              in Inr (\<lparr>x_value = fl_conv binary32 x, current_a = or_junk (junk_a junk) a,
                       current_b = or_junk (junk_b junk) b, voltage_a = or_junk (junk_v junk) v\<rparr>,
                      s8, s\<lparr>previous_x_value := x\<rparr>))"

section \<open>One buffer\<close>

text \<open>The loop over the buffer: the points that were read, and whether the buffer is full.\<close>

fun fill_buffer ::
  "junk_values \<Rightarrow> nat \<Rightarrow> istream \<Rightarrow> blued_input_source
    \<Rightarrow> (blued_data_point list \<times> bool \<times> istream \<times> blued_input_source) res" where
  "fill_buffer junk 0 input_stream s = Inr ([], True, input_stream, s)"
| "fill_buffer junk (Suc n) input_stream s =
     (if \<not> (stream_good input_stream \<and> continue_reading s) then Inr ([], False, input_stream, s)
      else res_bind (matchLine junk input_stream s)
        (\<lambda>(p, is', s'). res_map (\<lambda>(ps, rest). (p # ps, rest)) (fill_buffer junk n is' s')))"

text \<open>
  When the loop is left early the unsigned index is decremented: one point is dropped, and with
  no point in the buffer the index wraps and the range to add is undefined.
\<close>

definition readOnce ::
  "junk_values \<Rightarrow> istream \<Rightarrow> blued_input_source \<Rightarrow> blued_data_point async_queue
    \<Rightarrow> (bool \<times> istream \<times> blued_input_source \<times> blued_data_point async_queue) res option" where
  "readOnce junk input_stream s q =
     (case fill_buffer junk 10000 input_stream s of
        Inl e \<Rightarrow> Some (Inl e)
      | Inr (ps, success, is', s') \<Rightarrow>
          (if \<not> success \<and> ps = [] then Some (Inl Undefined)
           else map_option (\<lambda>q'. Inr (success, is', s', q'))
                  (addDataPoints (if success then ps else butlast ps) q)))"

section \<open>Files\<close>

definition data_header :: string where
  "data_header = ''X_Value,Current A,Current B,VoltageA,Comment'' @ [CHR 0x0D]"

lemma getline_shorter:
  assumes "stream_good s" and "getline s = (line, s')" and "stream_good s'"
  shows "length (unread s') < length (unread s)"
proof (cases "dropWhile (\<lambda>c. c \<noteq> CHR ''\<newline>'') (unread s)")
  case Nil
  then show ?thesis using assms by (auto simp: getline_def stream_good_def Let_def simp del: dropWhile_eq_Nil_conv)
next
  case (Cons c cs)
  then have "unread s' = cs" using assms(1,2) by (auto simp: getline_def Let_def)
  then show ?thesis using length_dropWhile_le [of "\<lambda>c. c \<noteq> CHR ''\<newline>''" "unread s"] by (simp add: Cons)
qed

function skipToData :: "istream \<Rightarrow> bool \<times> istream" where
  "skipToData input_stream =
     (if \<not> stream_good input_stream then (False, input_stream)
      else let (line, is') = getline input_stream
           in if line = data_header then (True, is')
              else if \<not> stream_good is' then (False, is') else skipToData is')"
  by pat_completeness auto
termination
  by (relation "measure (length \<circ> unread)") (auto intro: getline_shorter [OF _ sym])

declare skipToData.simps [simp del]

partial_function (option) read_buffers ::
  "junk_values \<Rightarrow> istream \<Rightarrow> blued_input_source \<Rightarrow> blued_data_point async_queue
    \<Rightarrow> (blued_input_source \<times> blued_data_point async_queue) res option" where
  "read_buffers junk input_stream s q =
     Option.bind (readOnce junk input_stream s q)
       (\<lambda>r. case r of Inl e \<Rightarrow> Some (Inl e)
            | Inr (success, is', s', q') \<Rightarrow>
                if success then read_buffers junk is' s' q' else Some (Inr (s', q')))"

text \<open>\<open>contents\<close> is the text of the file, \<open>None\<close> if it cannot be opened.\<close>

definition open_file :: "string option \<Rightarrow> istream" where
  "open_file contents =
     (case contents of None \<Rightarrow> \<lparr>unread = [], eofbit = False, failbit = True\<rparr> | Some text \<Rightarrow> istringstream text)"

definition readFile ::
  "junk_values \<Rightarrow> string option \<Rightarrow> blued_input_source \<Rightarrow> blued_data_point async_queue
    \<Rightarrow> (blued_input_source \<times> blued_data_point async_queue) res option" where
  "readFile junk contents s q =
     (let (found, is') = skipToData (open_file contents)
      in if \<not> found then Some (Inl Std_exception) else read_buffers junk is' s q)"

definition blued_run ::
  "junk_values \<Rightarrow> string option \<Rightarrow> blued_input_source \<Rightarrow> blued_data_point async_queue
    \<Rightarrow> (blued_input_source \<times> blued_data_point async_queue) res option" where
  "blued_run junk contents s q =
     map_option (res_map (\<lambda>(s', q'). (s', notifyStreamEnd q'))) (readFile junk contents s (restartStreaming q))"

text \<open>\<open>contents_of\<close> is the file system.\<close>

fun read_locations ::
  "junk_values \<Rightarrow> (string \<Rightarrow> string option) \<Rightarrow> string list \<Rightarrow> blued_input_source \<Rightarrow> blued_data_point async_queue
    \<Rightarrow> (blued_input_source \<times> blued_data_point async_queue) res option" where
  "read_locations junk contents_of [] s q = Some (Inr (s, q))"
| "read_locations junk contents_of (file_path # locations) s q =
     (if \<not> continue_reading s then Some (Inr (s, q))
      else Option.bind (readFile junk (contents_of file_path) s q)
        (\<lambda>r. case r of Inl e \<Rightarrow> Some (Inl e) | Inr (s', q') \<Rightarrow> read_locations junk contents_of locations s' q'))"

definition runLocations ::
  "junk_values \<Rightarrow> (string \<Rightarrow> string option) \<Rightarrow> string list \<Rightarrow> blued_input_source \<Rightarrow> blued_data_point async_queue
    \<Rightarrow> (blued_input_source \<times> blued_data_point async_queue) res option" where
  "runLocations junk contents_of locations s q =
     map_option (res_map (\<lambda>(s', q'). (s', notifyStreamEnd q')))
       (read_locations junk contents_of locations s (restartStreaming q))"

text \<open>\<open>entries\<close> are the file name and path of what the directory holds, in any order.\<close>

definition whole_location :: "(string \<times> string) list \<Rightarrow> string list" where
  "whole_location entries =
     sort (map snd (filter (\<lambda>(filename, path). drop (length filename - 3) filename = ''txt'') entries))"

text \<open>
  The queue is behind a pointer, \<open>None\<close> if it is null: \<open>startReading\<close> makes a queue, the other
  operations dereference what they find.
\<close>

definition with_queue :: "'q option \<Rightarrow> ('q \<Rightarrow> 'r res option) \<Rightarrow> 'r res option" where
  "with_queue data_manager f = (case data_manager of None \<Rightarrow> Some (Inl Undefined) | Some q \<Rightarrow> f q)"

definition readWholeLocation ::
  "junk_values \<Rightarrow> (string \<Rightarrow> string option) \<Rightarrow> (string \<times> string) list \<Rightarrow> blued_input_source
    \<Rightarrow> blued_data_point async_queue option \<Rightarrow> (blued_input_source \<times> blued_data_point async_queue) res option" where
  "readWholeLocation junk contents_of entries s data_manager =
     with_queue data_manager
       (runLocations junk contents_of (whole_location entries) (s\<lparr>continue_reading := True\<rparr>))"

definition startReading ::
  "junk_values \<Rightarrow> string option \<Rightarrow> blued_input_source \<Rightarrow> blued_data_point async_queue option
    \<Rightarrow> (blued_input_source \<times> blued_data_point async_queue) res option" where
  "startReading junk contents s data_manager =
     blued_run junk contents (s\<lparr>continue_reading := True\<rparr>)
       (case data_manager of None \<Rightarrow> new_queue | Some q \<Rightarrow> q)"

definition blued_stopNow ::
  "blued_input_source \<Rightarrow> blued_data_point async_queue option
    \<Rightarrow> (blued_input_source \<times> blued_data_point async_queue) res option" where
  "blued_stopNow s data_manager =
     with_queue data_manager (\<lambda>q. Some (Inr (s\<lparr>continue_reading := False\<rparr>, discardRestOfStream q)))"

definition blued_stopGracefully :: "bool \<Rightarrow> blued_input_source \<Rightarrow> blued_input_source" where
  "blued_stopGracefully joinable s = (if joinable then s\<lparr>continue_reading := False\<rparr> else s)"

text \<open>The converter reads a directory with a source that has no queue yet.\<close>

definition converter_input ::
  "junk_values \<Rightarrow> (string \<Rightarrow> string option) \<Rightarrow> (string \<times> string) list
    \<Rightarrow> (blued_input_source \<times> blued_data_point async_queue) res option" where
  "converter_input junk contents_of entries = readWholeLocation junk contents_of entries new_blued_source None"

section \<open>Well-formed files\<close>

text \<open>A text that the extraction of a floating point number uses up, with its value.\<close>

definition float_text :: "float_format \<Rightarrow> string \<Rightarrow> fl \<Rightarrow> bool" where
  "float_text fmt t v \<longleftrightarrow> t \<noteq> [] \<and> \<not> isspace (hd t) \<and> is_fin v \<and>
     (let (neg, cs) = split_sign t; (acc, rest) = scan_float False False False cs
      in rest = [] \<and> map_option (fl_round fmt neg) (float_digits acc) = Some v)"

definition ends_number :: "char \<Rightarrow> bool" where
  "ends_number c \<longleftrightarrow> c \<in> {CHR '','', CHR ''\<newline>'', CHR 0x0D}"

lemma scan_float_stop:
  assumes "ends_number c"
  shows "scan_float m p e (c # r) = ([], c # r)"
proof -
  have "\<not> isdigit c" "c \<noteq> CHR ''.''" "c \<noteq> CHR ''e''" "c \<noteq> CHR ''E''"
    using assms by (auto simp: ends_number_def isdigit_def)
  then show ?thesis by simp
qed

lemma scan_float_append:
  "scan_float m p e cs = (a, []) \<Longrightarrow> ends_number c \<Longrightarrow> scan_float m p e (cs @ c # r) = (a, c # r)"
proof (induction m p e cs arbitrary: a rule: scan_float.induct)
  case (1 m p e)
  then show ?case using scan_float_stop by simp
next
  case (2 m p e d cs)
  have c: "c \<noteq> CHR ''+''" "c \<noteq> CHR ''-''" using 2(6) by (auto simp: ends_number_def)
  show ?case
  proof (cases cs)
    case Nil
    then show ?thesis using 2 c scan_float_stop [OF 2(6)] by (auto simp del: scan_float.simps(2) simp: scan_float.simps(2) [of m p e d] split: if_splits)
  next
    case (Cons f fs)
    note eq = 2(5) [unfolded scan_float.simps(2) [of m p e d]]
    note unf = scan_float.simps(2) [of m p e d]
    consider (digit) "isdigit d" | (point) "\<not> isdigit d" "d = CHR ''.'' \<and> \<not> p \<and> \<not> e"
      | (exponent) "\<not> isdigit d" "\<not> (d = CHR ''.'' \<and> \<not> p \<and> \<not> e)" "(d = CHR ''e'' \<or> d = CHR ''E'') \<and> \<not> e \<and> m"
      using eq by (auto split: if_splits)
    then show ?thesis
    proof cases
      case digit
      then show ?thesis using eq 2(1) 2(6) unfolding append_Cons unf by (auto split: prod.splits)
    next
      case point
      then show ?thesis using eq 2(2) 2(6) unfolding append_Cons unf by (auto split: prod.splits)
    next
      case exponent
      show ?thesis
      proof (cases "f = CHR ''+'' \<or> f = CHR ''-''")
        case True
        then show ?thesis using exponent eq 2(3) [OF exponent Cons] 2(6) unfolding append_Cons unf
          by (auto simp: Cons simp del: scan_float.simps(2) split: prod.splits)
      next
        case False
        then show ?thesis using exponent eq 2(4) [OF exponent Cons] 2(6) unfolding append_Cons unf
          by (auto simp: Cons simp del: scan_float.simps(2) split: prod.splits)
      qed
    qed
  qed
qed

lemma split_sign_append: "t \<noteq> [] \<Longrightarrow> split_sign (t @ r) = (fst (split_sign t), snd (split_sign t) @ r)"
  by (cases t) simp_all

lemma extract_float_text:
  assumes "float_text fmt t v" and "stream_good s" and "unread s = t @ c # r" and "ends_number c"
  shows "extract_float fmt s = (Some v, s\<lparr>unread := c # r\<rparr>)"
proof -
  obtain neg cs acc m where t: "t \<noteq> []" "\<not> isspace (hd t)" "is_fin v" "split_sign t = (neg, cs)"
    "scan_float False False False cs = (acc, [])" "float_digits acc = Some m" "fl_round fmt neg m = v"
    using assms(1) by (auto simp: float_text_def Let_def split: prod.splits)
  have "sentry s = (True, s)" using assms(2,3) t(1,2) by (cases t) (simp_all add: sentry_def)
  moreover have "split_sign (unread s) = (neg, cs @ c # r)" using split_sign_append [OF t(1)] t(4) assms(3) by simp
  moreover have "s\<lparr>unread := c # r, eofbit := False\<rparr> = s\<lparr>unread := c # r\<rparr>"
    using assms(2) by (cases s) (simp add: stream_good_def)
  ultimately show ?thesis using scan_float_append [OF t(5) assms(4)] t(3,6,7)
    by (cases v) (simp_all add: extract_float_def)
qed

record text_line =
  x_text :: string
  a_text :: string
  b_text :: string
  v_text :: string
  tail_text :: string

definition print_line :: "text_line \<Rightarrow> string" where
  "print_line l = x_text l @ '','' @ a_text l @ '','' @ b_text l @ '','' @ v_text l @ tail_text l @ ''\<newline>''"

text \<open>The line reads as the data point \<open>p\<close> with the double precision time \<open>x\<close>.\<close>

definition line_reads :: "text_line \<Rightarrow> f64 \<Rightarrow> blued_data_point \<Rightarrow> bool" where
  "line_reads l x p \<longleftrightarrow> float_text binary64 (x_text l) x \<and> float_text binary32 (a_text l) (current_a p)
     \<and> float_text binary32 (b_text l) (current_b p) \<and> float_text binary32 (v_text l) (voltage_a p)
     \<and> x_value p = fl_conv binary32 x \<and> length (tail_text l) < 50 \<and> CHR ''\<newline>'' \<notin> set (tail_text l)
     \<and> (tail_text l \<noteq> [] \<longrightarrow> ends_number (hd (tail_text l)))"

lemma stream_ignore_next:
  "stream_good s \<Longrightarrow> unread s = delim # cs \<Longrightarrow> stream_ignore 50 delim s = s\<lparr>unread := cs\<rparr>"
proof -
  assume a: "stream_good s" "unread s = delim # cs"
  then have "s\<lparr>unread := cs, eofbit := False\<rparr> = s\<lparr>unread := cs\<rparr>" by (cases s) (simp add: stream_good_def)
  then show ?thesis using a by (simp add: stream_ignore_def numeral_eq_Suc)
qed

lemma stream_ignore_to:
  assumes "stream_good s" and "unread s = xs @ delim # cs" and "delim \<notin> set xs" and "length xs < 50"
  shows "stream_ignore 50 delim s = s\<lparr>unread := cs\<rparr>"
proof -
  have "s\<lparr>unread := cs, eofbit := False\<rparr> = s\<lparr>unread := cs\<rparr>" using assms(1) by (cases s) (simp add: stream_good_def)
  then show ?thesis using assms by (simp add: stream_ignore_def ignore_chars_delim)
qed

lemma stream_good_unread [simp]: "stream_good (s\<lparr>unread := u\<rparr>) = stream_good s"
  by (simp add: stream_good_def)

lemma matchLine_line:
  assumes reads: "line_reads l x p" and good: "stream_good s" and unread: "unread s = print_line l @ rest"
    and "x_in_bounds (previous_x_value st) x"
  shows "matchLine junk s st = Inr (p, s\<lparr>unread := rest\<rparr>, st\<lparr>previous_x_value := x\<rparr>)"
proof -
  note r = reads [unfolded line_reads_def]
  have comma: "ends_number (CHR '','')" by (simp add: ends_number_def)
  let ?u4 = "tail_text l @ CHR ''\<newline>'' # rest"
  let ?u3 = "v_text l @ ?u4" let ?u2 = "b_text l @ CHR '','' # ?u3" let ?u1 = "a_text l @ CHR '','' # ?u2"
  have x: "extract_float binary64 s = (Some x, s\<lparr>unread := CHR '','' # ?u1\<rparr>)"
    using r good unread by (intro extract_float_text comma) (simp_all add: print_line_def)
  have a: "extract_float binary32 (s\<lparr>unread := ?u1\<rparr>) = (Some (current_a p), s\<lparr>unread := CHR '','' # ?u2\<rparr>)"
    using extract_float_text [of binary32 "a_text l" "current_a p" "s\<lparr>unread := ?u1\<rparr>" "CHR '',''"] r good comma by simp
  have b: "extract_float binary32 (s\<lparr>unread := ?u2\<rparr>) = (Some (current_b p), s\<lparr>unread := CHR '','' # ?u3\<rparr>)"
    using extract_float_text [of binary32 "b_text l" "current_b p" "s\<lparr>unread := ?u2\<rparr>" "CHR '',''"] r good comma by simp
  obtain c cs where c: "?u4 = c # cs" "ends_number c"
    using r by (cases "tail_text l") (auto simp: ends_number_def)
  have v: "extract_float binary32 (s\<lparr>unread := ?u3\<rparr>) = (Some (voltage_a p), s\<lparr>unread := ?u4\<rparr>)"
    using extract_float_text [of binary32 "v_text l" "voltage_a p" "s\<lparr>unread := ?u3\<rparr>" c cs] r good c by simp
  have ign: "stream_ignore 50 (CHR '','') (s\<lparr>unread := CHR '','' # u\<rparr>) = s\<lparr>unread := u\<rparr>" for u
    using stream_ignore_next [of "s\<lparr>unread := CHR '','' # u\<rparr>" "CHR '',''" u] good by simp
  have "stream_ignore 50 (CHR ''\<newline>'') (s\<lparr>unread := ?u4\<rparr>) = s\<lparr>unread := rest\<rparr>"
    using stream_ignore_to [of "s\<lparr>unread := ?u4\<rparr>" "tail_text l" "CHR ''\<newline>''" rest] good r by simp
  then show ?thesis
    using assms(4) r by (simp add: matchLine_def x a b v ign or_junk_def)
qed

type_synonym read_line = "text_line \<times> f64 \<times> blued_data_point"

text \<open>The lines read as values in order, from the previous time on.\<close>

fun lines_read :: "f64 \<Rightarrow> read_line list \<Rightarrow> bool" where
  "lines_read previous [] = True"
| "lines_read previous ((l, x, p) # ls) = (line_reads l x p \<and> x_in_bounds previous x \<and> lines_read x ls)"

definition print_lines :: "read_line list \<Rightarrow> string" where
  "print_lines ls = concat (map (\<lambda>(l, x, p). print_line l) ls)"

definition points_of :: "read_line list \<Rightarrow> blued_data_point list" where
  "points_of ls = map (\<lambda>(l, x, p). p) ls"

fun last_x :: "f64 \<Rightarrow> read_line list \<Rightarrow> f64" where
  "last_x previous [] = previous"
| "last_x previous ((l, x, p) # ls) = last_x x ls"

lemma lines_read_append: "lines_read prev (ls @ ms) \<longleftrightarrow> lines_read prev ls \<and> lines_read (last_x prev ls) ms"
  by (induction prev ls rule: lines_read.induct) auto

lemma last_x_append: "last_x prev (ls @ ms) = last_x (last_x prev ls) ms"
  by (induction prev ls rule: last_x.induct) auto

lemma print_lines_append: "print_lines (ls @ ms) = print_lines ls @ print_lines ms"
  by (simp add: print_lines_def)

lemma length_points_of [simp]: "length (points_of ls) = length ls"
  by (simp add: points_of_def)

lemma fill_buffer_lines:
  "lines_read (previous_x_value st) ls \<Longrightarrow> stream_good s \<Longrightarrow> continue_reading st \<Longrightarrow> unread s = print_lines ls @ rest \<Longrightarrow>
   fill_buffer junk (length ls + n) s st =
     res_map (\<lambda>(ps, r). (points_of ls @ ps, r))
       (fill_buffer junk n (s\<lparr>unread := rest\<rparr>) (st\<lparr>previous_x_value := last_x (previous_x_value st) ls\<rparr>))"
proof (induction ls arbitrary: s st)
  case Nil
  have "s\<lparr>unread := rest\<rparr> = s" using Nil.prems(4) by (cases s) (simp add: print_lines_def)
  then show ?case by (cases "fill_buffer junk n s st") (auto simp: points_of_def)
next
  case (Cons a ls)
  obtain l x p where a: "a = (l, x, p)" by (cases a) auto
  have line: "line_reads l x p" "x_in_bounds (previous_x_value st) x" "lines_read x ls"
    using Cons.prems(1) by (simp_all add: a)
  have unread: "unread s = print_line l @ print_lines ls @ rest" using Cons.prems(4) by (simp add: a print_lines_def)
  have match: "matchLine junk s st = Inr (p, s\<lparr>unread := print_lines ls @ rest\<rparr>, st\<lparr>previous_x_value := x\<rparr>)"
    by (rule matchLine_line [OF line(1) Cons.prems(2) unread line(2)])
  show ?case
    using Cons.IH [of "st\<lparr>previous_x_value := x\<rparr>" "s\<lparr>unread := print_lines ls @ rest\<rparr>"] line(3) Cons.prems(2,3)
    by (cases "fill_buffer junk n (s\<lparr>unread := rest\<rparr>) (st\<lparr>previous_x_value := last_x x ls\<rparr>)")
       (auto simp: match a points_of_def)
qed

text \<open>At the end of the text the extraction fails, and what it leaves is read as one more point.\<close>

definition junk_point :: "junk_values \<Rightarrow> blued_data_point" where
  "junk_point junk = \<lparr>x_value = fl_conv binary32 (junk_x junk), current_a = junk_a junk, current_b = junk_b junk,
     voltage_a = junk_v junk\<rparr>"

lemma matchLine_end:
  assumes "stream_good s" and "unread s = []" and "x_in_bounds (previous_x_value st) (junk_x junk)"
  shows "\<exists>s'. matchLine junk s st = Inr (junk_point junk, s', st\<lparr>previous_x_value := junk_x junk\<rparr>) \<and> \<not> stream_good s'"
proof -
  have failed: "extract_float fmt t = (None, t\<lparr>failbit := True\<rparr>)" "stream_ignore n d t = t\<lparr>failbit := True\<rparr>"
    if "\<not> stream_good t" for fmt t n d
    using that by (simp_all add: extract_float_def sentry_def stream_ignore_def)
  let ?s1 = "s\<lparr>unread := [], eofbit := True, failbit := True\<rparr>"
  have x: "extract_float binary64 s = (None, ?s1)" using assms(1,2) by (simp add: extract_float_def sentry_def)
  have bad: "\<not> stream_good (?s1\<lparr>failbit := True\<rparr>)" by (simp add: stream_good_def)
  have "\<not> stream_good ?s1" by (simp add: stream_good_def)
  then show ?thesis using assms(3) x bad by (simp add: matchLine_def failed or_junk_def junk_point_def Let_def)
qed

lemma fill_buffer_end:
  assumes "stream_good s" and "unread s = []" and "x_in_bounds (previous_x_value st) (junk_x junk)" and "continue_reading st"
  shows "\<exists>s'. fill_buffer junk (Suc n) s st =
    Inr ([junk_point junk], n = 0, s', st\<lparr>previous_x_value := junk_x junk\<rparr>) \<and> \<not> stream_good s'"
proof -
  obtain s' where m: "matchLine junk s st = Inr (junk_point junk, s', st\<lparr>previous_x_value := junk_x junk\<rparr>)" "\<not> stream_good s'"
    using matchLine_end [OF assms(1-3)] by blast
  then show ?thesis using assms(1,4) by (cases n) auto
qed

section \<open>Reading a file\<close>

text \<open>One buffer of a file: full, the last one, or the last one that the junk point completes.\<close>

lemma readOnce_full:
  assumes "lines_read (previous_x_value st) ls" and "stream_good s" and "continue_reading st"
    and "unread s = print_lines ls @ rest" and "length ls = 10000" and "has_room (10000 + n) q"
  shows "readOnce junk s st q = Some (Inr (True, s\<lparr>unread := rest\<rparr>, st\<lparr>previous_x_value := last_x (previous_x_value st) ls\<rparr>,
    q\<lparr>data_queue := data_queue q @ points_of ls\<rparr>))"
  using fill_buffer_lines [OF assms(1-4), of junk 0] assms(5,6) has_room_add(1) [of "points_of ls" n q]
  by (simp add: readOnce_def)

lemma readOnce_rest:
  assumes "lines_read (previous_x_value st) ls" and "stream_good s" and "continue_reading st"
    and "unread s = print_lines ls" and "length ls < 9999" and "has_room (length ls) q"
    and "x_in_bounds (last_x (previous_x_value st) ls) (junk_x junk)"
  shows "\<exists>s'. readOnce junk s st q = Some (Inr (False, s', st\<lparr>previous_x_value := junk_x junk\<rparr>,
    q\<lparr>data_queue := data_queue q @ points_of ls\<rparr>))"
proof -
  let ?st = "st\<lparr>previous_x_value := last_x (previous_x_value st) ls\<rparr>" and ?n = "9999 - length ls"
  obtain s' where e: "fill_buffer junk (Suc ?n) (s\<lparr>unread := []\<rparr>) ?st =
      Inr ([junk_point junk], False, s', ?st\<lparr>previous_x_value := junk_x junk\<rparr>)"
    using fill_buffer_end [of "s\<lparr>unread := []\<rparr>" ?st junk ?n] assms(2,3,5,7) by auto
  have "fill_buffer junk (length ls + Suc ?n) s st = Inr (points_of ls @ [junk_point junk], False, s', st\<lparr>previous_x_value := junk_x junk\<rparr>)"
    using fill_buffer_lines [of st ls s "[]" junk "Suc ?n"] assms(1-4) e by simp
  moreover have "length ls + Suc ?n = 10000" using assms(5) by simp
  ultimately show ?thesis using assms(6) has_room_add(1) [of "points_of ls" 0 q] by (simp add: readOnce_def)
qed

lemma readOnce_overfull:
  assumes "lines_read (previous_x_value st) ls" and "stream_good s" and "continue_reading st"
    and "unread s = print_lines ls" and "length ls = 9999" and "has_room (10000 + n) q"
    and "x_in_bounds (last_x (previous_x_value st) ls) (junk_x junk)"
  shows "\<exists>s'. readOnce junk s st q = Some (Inr (True, s', st\<lparr>previous_x_value := junk_x junk\<rparr>,
    q\<lparr>data_queue := data_queue q @ points_of ls @ [junk_point junk]\<rparr>)) \<and> \<not> stream_good s'"
proof -
  let ?st = "st\<lparr>previous_x_value := last_x (previous_x_value st) ls\<rparr>"
  obtain s' where e: "fill_buffer junk (Suc 0) (s\<lparr>unread := []\<rparr>) ?st =
      Inr ([junk_point junk], True, s', ?st\<lparr>previous_x_value := junk_x junk\<rparr>)" "\<not> stream_good s'"
    using fill_buffer_end [of "s\<lparr>unread := []\<rparr>" ?st junk 0] assms(2,3,7) by auto
  have "fill_buffer junk 10000 s st = Inr (points_of ls @ [junk_point junk], True, s', st\<lparr>previous_x_value := junk_x junk\<rparr>)"
    using fill_buffer_lines [of st ls s "[]" junk "Suc 0"] assms(1-5) e by simp
  then show ?thesis using assms(5,6) e(2) has_room_add(1) [of "points_of ls @ [junk_point junk]" n q] by (simp add: readOnce_def)
qed

text \<open>A source that is told to stop between two buffers, and one whose stream has ended there.\<close>

lemma readOnce_stopped:
  "\<not> (stream_good s \<and> continue_reading st) \<Longrightarrow> readOnce junk s st q = Some (Inl Undefined)"
  by (auto simp: readOnce_def numeral_eq_Suc)

lemma read_buffers_lines:
  assumes "lines_read (previous_x_value st) ls" and "stream_good s" and "continue_reading st"
    and "unread s = print_lines ls" and "has_room (length ls + 1) q"
    and "x_in_bounds (last_x (previous_x_value st) ls) (junk_x junk)"
  shows "if length ls mod 10000 = 9999 then read_buffers junk s st q = Some (Inl Undefined)
    else read_buffers junk s st q = Some (Inr (st\<lparr>previous_x_value := junk_x junk\<rparr>, q\<lparr>data_queue := data_queue q @ points_of ls\<rparr>))"
  using assms
proof (induction "length ls" arbitrary: ls s st q rule: less_induct)
  case less
  consider (rest) "length ls < 9999" | (over) "length ls = 9999" | (full) "10000 \<le> length ls" by linarith
  then show ?case
  proof cases
    case rest
    have "has_room (length ls) q" using less.prems(5) by (simp add: has_room_def)
    then obtain s' where "readOnce junk s st q = Some (Inr (False, s', st\<lparr>previous_x_value := junk_x junk\<rparr>,
        q\<lparr>data_queue := data_queue q @ points_of ls\<rparr>))"
      using readOnce_rest [OF less.prems(1-4) rest _ less.prems(6)] by blast
    then show ?thesis using rest by (subst (1 2) read_buffers.simps) simp
  next
    case over
    have "has_room (10000 + 0) q" using less.prems(5) over by simp
    then obtain s' where "readOnce junk s st q = Some (Inr (True, s', st\<lparr>previous_x_value := junk_x junk\<rparr>,
        q\<lparr>data_queue := data_queue q @ points_of ls @ [junk_point junk]\<rparr>))" and bad: "\<not> stream_good s'"
      using readOnce_overfull [OF less.prems(1-4) over _ less.prems(6)] by blast
    moreover have "read_buffers junk s' st' q' = Some (Inl Undefined)" for st' q'
      using readOnce_stopped [of s' st' junk q'] bad by (subst read_buffers.simps) simp
    ultimately show ?thesis using over by (subst read_buffers.simps) simp
  next
    case full
    let ?a = "take 10000 ls" and ?b = "drop 10000 ls"
    let ?st = "st\<lparr>previous_x_value := last_x (previous_x_value st) ?a\<rparr>" and ?q = "q\<lparr>data_queue := data_queue q @ points_of ?a\<rparr>"
    have split: "lines_read (previous_x_value st) ?a" "lines_read (last_x (previous_x_value st) ?a) ?b"
      using lines_read_append [of "previous_x_value st" ?a ?b] less.prems(1) by simp_all
    have unread: "unread s = print_lines ?a @ print_lines ?b" using less.prems(4) print_lines_append [of ?a ?b] by simp
    have lenA: "length (points_of ?a) = 10000" using full by simp
    have room: "has_room (10000 + (length ?b + 1)) q" using less.prems(5) full by simp
    have room': "has_room (length ?b + 1) ?q" using has_room_add(2) [of "points_of ?a" "length ?b + 1" q] room by (simp only: lenA)
    have once: "readOnce junk s st q = Some (Inr (True, s\<lparr>unread := print_lines ?b\<rparr>, ?st, ?q))"
      using readOnce_full [OF split(1) less.prems(2,3) unread _ room] full by simp
    have x: "last_x (last_x (previous_x_value st) ?a) ?b = last_x (previous_x_value st) ls"
      using last_x_append [of "previous_x_value st" ?a ?b] by simp
    have points: "points_of ?a @ points_of ?b = points_of ls" by (simp add: points_of_def flip: map_append)
    have mod: "length ?b mod 10000 = length ls mod 10000" using full by (simp add: le_mod_geq)
    have "if length ?b mod 10000 = 9999 then read_buffers junk (s\<lparr>unread := print_lines ?b\<rparr>) ?st ?q = Some (Inl Undefined)
      else read_buffers junk (s\<lparr>unread := print_lines ?b\<rparr>) ?st ?q
        = Some (Inr (?st\<lparr>previous_x_value := junk_x junk\<rparr>, ?q\<lparr>data_queue := data_queue ?q @ points_of ?b\<rparr>))"
      using full split(2) less.prems(2,3,6) room' x by (intro less.hyps) simp_all
    moreover have "read_buffers junk s st q = read_buffers junk (s\<lparr>unread := print_lines ?b\<rparr>) ?st ?q"
      using once by (subst read_buffers.simps) simp
    ultimately show ?thesis unfolding mod using points by simp
  qed
qed


lemma skipToData_preamble:
  assumes "\<forall>l \<in> set preamble. CHR ''\<newline>'' \<notin> set l \<and> l \<noteq> data_header"
  shows "stream_good s \<Longrightarrow> unread s = concat (map (\<lambda>l. l @ ''\<newline>'') preamble) @ data_header @ ''\<newline>'' @ rest \<Longrightarrow>
    skipToData s = (True, s\<lparr>unread := rest\<rparr>)"
  using assms
proof (induction preamble arbitrary: s)
  case Nil
  have line: "CHR ''\<newline>'' \<notin> set data_header" by (simp add: data_header_def)
  then have "getline s = (data_header, s\<lparr>unread := rest\<rparr>)"
    using Nil.prems(1,2) by (simp add: getline_def takeWhile_append dropWhile_append)
  then show ?case using Nil.prems(1) by (subst skipToData.simps) simp
next
  case (Cons l preamble)
  let ?rest = "concat (map (\<lambda>l. l @ ''\<newline>'') preamble) @ data_header @ ''\<newline>'' @ rest"
  have l: "CHR ''\<newline>'' \<notin> set l" "l \<noteq> data_header" using Cons.prems(3) by simp_all
  then have "getline s = (l, s\<lparr>unread := ?rest\<rparr>)"
    using Cons.prems(1,2) by (simp add: getline_def takeWhile_append dropWhile_append)
  then have "skipToData s = skipToData (s\<lparr>unread := ?rest\<rparr>)"
    using Cons.prems(1) l(2) by (subst skipToData.simps) simp
  then show ?case using Cons.IH [of "s\<lparr>unread := ?rest\<rparr>"] Cons.prems by simp
qed

definition data_file :: "string list \<Rightarrow> read_line list \<Rightarrow> string" where
  "data_file preamble ls = concat (map (\<lambda>l. l @ ''\<newline>'') preamble) @ data_header @ ''\<newline>'' @ print_lines ls"


definition junk_nan :: junk_values where
  "junk_nan = \<lparr>junk_x = NaN, junk_a = NaN, junk_b = NaN, junk_v = NaN\<rparr>"

definition zero_line :: text_line where
  "zero_line = \<lparr>x_text = ''0'', a_text = ''0'', b_text = ''0'', v_text = ''0'', tail_text = [CHR 0x0D]\<rparr>"

lemma zero_line_reads: "line_reads zero_line fl_zero BluedDataPoint"
  by (simp add: line_reads_def zero_line_def BluedDataPoint_def float_text_def isspace_def isdigit_def float_digits_def
      digit_val_def fl_round_def fl_of_rat_def ends_number_def)


text \<open>
  A source that is stopped between two buffers, and the converter, whose source has no queue.
\<close>

lemma stop_between_buffers_is_undefined:
  "\<not> continue_reading s \<Longrightarrow> read_buffers junk input_stream s q = Some (Inl Undefined)"
  using readOnce_stopped [of input_stream s junk q] by (subst read_buffers.simps) simp

lemma converter_has_no_queue: "converter_input junk contents_of entries = Some (Inl Undefined)"
  by (simp add: converter_input_def readWholeLocation_def with_queue_def)

end
