(* ===== verification/Kiss_Fft.thy ===== *)
theory Kiss_Fft
  imports Ieee_Float
begin

text \<open>
  The fast Fourier transform the program compiles in, \<^verbatim>\<open>external/kiss_fft/kiss_fft.h\<close>,
  \<^verbatim>\<open>_kiss_fft_guts.h\<close> and \<^verbatim>\<open>kiss_fft.c\<close>. The code is generic in its scalar type, a macro; here
  the scalar's arithmetic is a record of operations, with the instance \<open>float_ops\<close> that the
  program is built with (float, neither fixed point nor SIMD, without OpenMP) and the instance
  \<open>exact_ops\<close> of the real numbers.

  A butterfly works in place on one block of the output: for every column \<open>u < m\<close> it reads the
  elements \<open>u, u + m, \<dots>\<close>, and writes them. That is \<open>for_columns\<close>, with one kernel per radix.

  The lemmas show that the factorisation ends, fits its buffer and multiplies up to the size of
  the transform, and that over exact arithmetic the whole recursion computes the discrete
  Fourier transform.
\<close>

section \<open>Scalars and complex numbers\<close>

record 's kiss_fft_cpx =
  cpx_r :: 's
  cpx_i :: 's

text \<open>
  \<open>s_sub_half a b\<close> is \<^verbatim>\<open>a - HALF_OF(b)\<close>: the constant \<open>.5\<close> is a double, so with floats the
  product and the difference are computed in double precision.
\<close>

record 's kiss_ops =
  s_add :: "'s \<Rightarrow> 's \<Rightarrow> 's"
  s_sub :: "'s \<Rightarrow> 's \<Rightarrow> 's"
  s_mul :: "'s \<Rightarrow> 's \<Rightarrow> 's"
  s_neg :: "'s \<Rightarrow> 's"
  s_sub_half :: "'s \<Rightarrow> 's \<Rightarrow> 's"

definition float_ops :: "f32 kiss_ops" where
  "float_ops =
     \<lparr>s_add = fl_add binary32, s_sub = fl_sub binary32, s_mul = fl_mul binary32, s_neg = fl_neg,
      s_sub_half = (\<lambda>a b. fl_conv binary32 (fl_sub binary64 a (fl_mul binary64 b (Fin False (1 / 2)))))\<rparr>"

definition exact_ops :: "real kiss_ops" where
  "exact_ops = \<lparr>s_add = (+), s_sub = (-), s_mul = (*), s_neg = uminus, s_sub_half = (\<lambda>a b. a - b / 2)\<rparr>"

definition C_MUL :: "'s kiss_ops \<Rightarrow> 's kiss_fft_cpx \<Rightarrow> 's kiss_fft_cpx \<Rightarrow> 's kiss_fft_cpx" where
  "C_MUL ops a b =
     \<lparr>cpx_r = s_sub ops (s_mul ops (cpx_r a) (cpx_r b)) (s_mul ops (cpx_i a) (cpx_i b)),
      cpx_i = s_add ops (s_mul ops (cpx_r a) (cpx_i b)) (s_mul ops (cpx_i a) (cpx_r b))\<rparr>"

definition C_ADD :: "'s kiss_ops \<Rightarrow> 's kiss_fft_cpx \<Rightarrow> 's kiss_fft_cpx \<Rightarrow> 's kiss_fft_cpx" where
  "C_ADD ops a b = \<lparr>cpx_r = s_add ops (cpx_r a) (cpx_r b), cpx_i = s_add ops (cpx_i a) (cpx_i b)\<rparr>"

definition C_SUB :: "'s kiss_ops \<Rightarrow> 's kiss_fft_cpx \<Rightarrow> 's kiss_fft_cpx \<Rightarrow> 's kiss_fft_cpx" where
  "C_SUB ops a b = \<lparr>cpx_r = s_sub ops (cpx_r a) (cpx_r b), cpx_i = s_sub ops (cpx_i a) (cpx_i b)\<rparr>"

definition C_MULBYSCALAR :: "'s kiss_ops \<Rightarrow> 's kiss_fft_cpx \<Rightarrow> 's \<Rightarrow> 's kiss_fft_cpx" where
  "C_MULBYSCALAR ops c s = \<lparr>cpx_r = s_mul ops (cpx_r c) s, cpx_i = s_mul ops (cpx_i c) s\<rparr>"

section \<open>Butterflies\<close>

record 's kiss_fft_state =
  nfft :: nat
  inverse :: bool
  factors :: "(nat \<times> nat) list"
  twiddles :: "'s kiss_fft_cpx list"

definition column :: "nat \<Rightarrow> nat \<Rightarrow> nat \<Rightarrow> 'c list \<Rightarrow> 'c list" where
  "column p m u Fout = map (\<lambda>q. Fout ! (u + q * m)) [0..<p]"

fun store_column :: "nat \<Rightarrow> nat \<Rightarrow> 'c list \<Rightarrow> 'c list \<Rightarrow> 'c list" where
  "store_column m k [] Fout = Fout"
| "store_column m k (y # ys) Fout = store_column m (k + m) ys (Fout[k := y])"

definition for_columns :: "nat \<Rightarrow> nat \<Rightarrow> (nat \<Rightarrow> 'c list \<Rightarrow> 'c list) \<Rightarrow> 'c list \<Rightarrow> 'c list" where
  "for_columns p m kern Fout =
     fold (\<lambda>u F. store_column m u (kern u (column p m u F)) F) [0..<m] Fout"

definition bfly2_kernel :: "'s kiss_ops \<Rightarrow> 's kiss_fft_state \<Rightarrow> nat \<Rightarrow> nat \<Rightarrow> 's kiss_fft_cpx list \<Rightarrow> 's kiss_fft_cpx list" where
  "bfly2_kernel ops st fstride u x =
     (let t = C_MUL ops (x ! 1) (twiddles st ! (u * fstride))
      in [C_ADD ops (x ! 0) t, C_SUB ops (x ! 0) t])"

definition kf_bfly2 :: "'s kiss_ops \<Rightarrow> 's kiss_fft_cpx list \<Rightarrow> nat \<Rightarrow> 's kiss_fft_state \<Rightarrow> nat \<Rightarrow> 's kiss_fft_cpx list" where
  "kf_bfly2 ops Fout fstride st m = for_columns 2 m (bfly2_kernel ops st fstride) Fout"

definition bfly4_kernel :: "'s kiss_ops \<Rightarrow> 's kiss_fft_state \<Rightarrow> nat \<Rightarrow> nat \<Rightarrow> 's kiss_fft_cpx list \<Rightarrow> 's kiss_fft_cpx list" where
  "bfly4_kernel ops st fstride u x =
     (let scratch0 = C_MUL ops (x ! 1) (twiddles st ! (u * fstride));
          scratch1 = C_MUL ops (x ! 2) (twiddles st ! (u * (fstride * 2)));
          scratch2 = C_MUL ops (x ! 3) (twiddles st ! (u * (fstride * 3)));
          scratch5 = C_SUB ops (x ! 0) scratch1;
          x0 = C_ADD ops (x ! 0) scratch1;
          scratch3 = C_ADD ops scratch0 scratch2;
          scratch4 = C_SUB ops scratch0 scratch2;
          minus = \<lparr>cpx_r = s_sub ops (cpx_r scratch5) (cpx_i scratch4), cpx_i = s_add ops (cpx_i scratch5) (cpx_r scratch4)\<rparr>;
          plus = \<lparr>cpx_r = s_add ops (cpx_r scratch5) (cpx_i scratch4), cpx_i = s_sub ops (cpx_i scratch5) (cpx_r scratch4)\<rparr>
      in if inverse st then [C_ADD ops x0 scratch3, minus, C_SUB ops x0 scratch3, plus]
         else [C_ADD ops x0 scratch3, plus, C_SUB ops x0 scratch3, minus])"

definition kf_bfly4 :: "'s kiss_ops \<Rightarrow> 's kiss_fft_cpx list \<Rightarrow> nat \<Rightarrow> 's kiss_fft_state \<Rightarrow> nat \<Rightarrow> 's kiss_fft_cpx list" where
  "kf_bfly4 ops Fout fstride st m = for_columns 4 m (bfly4_kernel ops st fstride) Fout"

definition bfly3_kernel ::
  "'s kiss_ops \<Rightarrow> 's kiss_fft_state \<Rightarrow> nat \<Rightarrow> nat \<Rightarrow> nat \<Rightarrow> 's kiss_fft_cpx list \<Rightarrow> 's kiss_fft_cpx list" where
  "bfly3_kernel ops st fstride m u x =
     (let epi3 = twiddles st ! (fstride * m);
          scratch1 = C_MUL ops (x ! 1) (twiddles st ! (u * fstride));
          scratch2 = C_MUL ops (x ! 2) (twiddles st ! (u * (fstride * 2)));
          scratch3 = C_ADD ops scratch1 scratch2;
          mid_r = s_sub_half ops (cpx_r (x ! 0)) (cpx_r scratch3);
          mid_i = s_sub_half ops (cpx_i (x ! 0)) (cpx_i scratch3);
          scratch0 = C_MULBYSCALAR ops (C_SUB ops scratch1 scratch2) (cpx_i epi3)
      in [C_ADD ops (x ! 0) scratch3,
          \<lparr>cpx_r = s_sub ops mid_r (cpx_i scratch0), cpx_i = s_add ops mid_i (cpx_r scratch0)\<rparr>,
          \<lparr>cpx_r = s_add ops mid_r (cpx_i scratch0), cpx_i = s_sub ops mid_i (cpx_r scratch0)\<rparr>])"

definition kf_bfly3 :: "'s kiss_ops \<Rightarrow> 's kiss_fft_cpx list \<Rightarrow> nat \<Rightarrow> 's kiss_fft_state \<Rightarrow> nat \<Rightarrow> 's kiss_fft_cpx list" where
  "kf_bfly3 ops Fout fstride st m = for_columns 3 m (bfly3_kernel ops st fstride m) Fout"

definition bfly5_kernel ::
  "'s kiss_ops \<Rightarrow> 's kiss_fft_state \<Rightarrow> nat \<Rightarrow> nat \<Rightarrow> nat \<Rightarrow> 's kiss_fft_cpx list \<Rightarrow> 's kiss_fft_cpx list" where
  "bfly5_kernel ops st fstride m u x =
     (let ya = twiddles st ! (fstride * m); yb = twiddles st ! (fstride * 2 * m);
          add = s_add ops; mul = s_mul ops;
          scratch0 = x ! 0;
          scratch1 = C_MUL ops (x ! 1) (twiddles st ! (u * fstride));
          scratch2 = C_MUL ops (x ! 2) (twiddles st ! (2 * u * fstride));
          scratch3 = C_MUL ops (x ! 3) (twiddles st ! (3 * u * fstride));
          scratch4 = C_MUL ops (x ! 4) (twiddles st ! (4 * u * fstride));
          scratch7 = C_ADD ops scratch1 scratch4; scratch10 = C_SUB ops scratch1 scratch4;
          scratch8 = C_ADD ops scratch2 scratch3; scratch9 = C_SUB ops scratch2 scratch3;
          out0 = \<lparr>cpx_r = add (cpx_r scratch0) (add (cpx_r scratch7) (cpx_r scratch8)),
                  cpx_i = add (cpx_i scratch0) (add (cpx_i scratch7) (cpx_i scratch8))\<rparr>;
          scratch5 = \<lparr>cpx_r = add (add (cpx_r scratch0) (mul (cpx_r scratch7) (cpx_r ya))) (mul (cpx_r scratch8) (cpx_r yb)),
                      cpx_i = add (add (cpx_i scratch0) (mul (cpx_i scratch7) (cpx_r ya))) (mul (cpx_i scratch8) (cpx_r yb))\<rparr>;
          scratch6 = \<lparr>cpx_r = add (mul (cpx_i scratch10) (cpx_i ya)) (mul (cpx_i scratch9) (cpx_i yb)),
                      cpx_i = s_sub ops (s_neg ops (mul (cpx_r scratch10) (cpx_i ya))) (mul (cpx_r scratch9) (cpx_i yb))\<rparr>;
          scratch11 = \<lparr>cpx_r = add (add (cpx_r scratch0) (mul (cpx_r scratch7) (cpx_r yb))) (mul (cpx_r scratch8) (cpx_r ya)),
                       cpx_i = add (add (cpx_i scratch0) (mul (cpx_i scratch7) (cpx_r yb))) (mul (cpx_i scratch8) (cpx_r ya))\<rparr>;
          scratch12 = \<lparr>cpx_r = add (s_neg ops (mul (cpx_i scratch10) (cpx_i yb))) (mul (cpx_i scratch9) (cpx_i ya)),
                       cpx_i = s_sub ops (mul (cpx_r scratch10) (cpx_i yb)) (mul (cpx_r scratch9) (cpx_i ya))\<rparr>
      in [out0, C_SUB ops scratch5 scratch6, C_ADD ops scratch11 scratch12, C_SUB ops scratch11 scratch12,
          C_ADD ops scratch5 scratch6])"

definition kf_bfly5 :: "'s kiss_ops \<Rightarrow> 's kiss_fft_cpx list \<Rightarrow> nat \<Rightarrow> 's kiss_fft_state \<Rightarrow> nat \<Rightarrow> 's kiss_fft_cpx list" where
  "kf_bfly5 ops Fout fstride st m = for_columns 5 m (bfly5_kernel ops st fstride m) Fout"

text \<open>The inner loop over \<open>q\<close>: the index into the twiddles is reduced by one subtraction.\<close>

fun generic_sum ::
  "'s kiss_ops \<Rightarrow> 's kiss_fft_state \<Rightarrow> nat \<Rightarrow> 's kiss_fft_cpx list \<Rightarrow> nat \<Rightarrow> 's kiss_fft_cpx \<Rightarrow> 's kiss_fft_cpx" where
  "generic_sum ops st step [] twidx acc = acc"
| "generic_sum ops st step (s # scratch) twidx acc =
     (let t1 = twidx + step; t2 = (if t1 \<ge> nfft st then t1 - nfft st else t1)
      in generic_sum ops st step scratch t2 (C_ADD ops acc (C_MUL ops s (twiddles st ! t2))))"

definition generic_kernel ::
  "'s kiss_ops \<Rightarrow> 's kiss_fft_state \<Rightarrow> nat \<Rightarrow> nat \<Rightarrow> nat \<Rightarrow> nat \<Rightarrow> 's kiss_fft_cpx list \<Rightarrow> 's kiss_fft_cpx list" where
  "generic_kernel ops st fstride m p u scratch =
     map (\<lambda>q1. generic_sum ops st (fstride * (u + q1 * m)) (tl scratch) 0 (hd scratch)) [0..<p]"

definition kf_bfly_generic ::
  "'s kiss_ops \<Rightarrow> 's kiss_fft_cpx list \<Rightarrow> nat \<Rightarrow> 's kiss_fft_state \<Rightarrow> nat \<Rightarrow> nat \<Rightarrow> 's kiss_fft_cpx list" where
  "kf_bfly_generic ops Fout fstride st m p = for_columns p m (generic_kernel ops st fstride m p) Fout"

section \<open>The recursion\<close>

definition kf_bfly :: "'s kiss_ops \<Rightarrow> 's kiss_fft_cpx list \<Rightarrow> nat \<Rightarrow> 's kiss_fft_state \<Rightarrow> nat \<Rightarrow> nat \<Rightarrow> 's kiss_fft_cpx list" where
  "kf_bfly ops Fout fstride st m p =
     (if p = 2 then kf_bfly2 ops Fout fstride st m
      else if p = 3 then kf_bfly3 ops Fout fstride st m
      else if p = 4 then kf_bfly4 ops Fout fstride st m
      else if p = 5 then kf_bfly5 ops Fout fstride st m
      else kf_bfly_generic ops Fout fstride st m p)"

text \<open>
  \<open>off\<close> is the position of \<open>f\<close> in the input; the result is the block of \<open>p * m\<close> elements at
  \<open>Fout\<close>. There is a factor for every level of the recursion.
\<close>

fun kf_work ::
  "'s kiss_ops \<Rightarrow> 's kiss_fft_state \<Rightarrow> 's kiss_fft_cpx list \<Rightarrow> nat \<Rightarrow> nat \<Rightarrow> nat \<Rightarrow> (nat \<times> nat) list \<Rightarrow> 's kiss_fft_cpx list" where
  "kf_work ops st fin off fstride in_stride [] = []"
| "kf_work ops st fin off fstride in_stride ((p, m) # fs) =
     (let Fout = (if m = 1 then map (\<lambda>k. fin ! (off + k * (fstride * in_stride))) [0..<p]
                  else concat (map (\<lambda>k. kf_work ops st fin (off + k * (fstride * in_stride)) (fstride * p) in_stride fs) [0..<p]))
      in kf_bfly ops Fout fstride st m p)"

definition kiss_fft_stride ::
  "'s kiss_ops \<Rightarrow> 's kiss_fft_state \<Rightarrow> 's kiss_fft_cpx list \<Rightarrow> nat \<Rightarrow> 's kiss_fft_cpx list" where
  "kiss_fft_stride ops st fin in_stride = kf_work ops st fin 0 1 in_stride (factors st)"

definition kiss_fft :: "'s kiss_ops \<Rightarrow> 's kiss_fft_state \<Rightarrow> 's kiss_fft_cpx list \<Rightarrow> 's kiss_fft_cpx list" where
  "kiss_fft ops cfg fin = kiss_fft_stride ops cfg fin 1"

section \<open>Allocation\<close>

definition floor_sqrt :: "nat \<Rightarrow> nat" where
  "floor_sqrt n = nat \<lfloor>fl_val (fl_sqrt binary64 (fl_of_int binary64 (int n)))\<rfloor>"

text \<open>The loop \<^verbatim>\<open>while (n % p)\<close>: the next radix that divides \<open>n\<close>.\<close>

function next_radix :: "nat \<Rightarrow> nat \<Rightarrow> nat \<Rightarrow> nat" where
  "next_radix flsq n p =
     (if n mod p = 0 then p
      else let p' = (if p = 4 then 2 else if p = 2 then 3 else p + 2)
           in next_radix flsq n (if p' > flsq then n else p'))"
  by pat_completeness auto
termination
  by (relation "measure (\<lambda>(flsq, n, p). if n mod p = 0 then 0 else if p = 0 then flsq + 7 else if p = 4 then flsq + 6
        else if p = 2 then flsq + 5 else 1 + (flsq + 3 - p))") (auto simp: Let_def)

declare next_radix.simps [simp del]

partial_function (option) factor_from :: "nat \<Rightarrow> nat \<Rightarrow> nat \<Rightarrow> (nat \<times> nat) list option" where
  "factor_from flsq n p =
     (let p = next_radix flsq n p; n' = n div p
      in if n' > 1 then Option.bind (factor_from flsq n' p) (\<lambda>fs. Some ((p, n') # fs)) else Some [(p, n')])"

definition kf_factor :: "nat \<Rightarrow> (nat \<times> nat) list option" where
  "kf_factor n = factor_from (floor_sqrt n) n 4"

text \<open>
  \<open>cexp nfft inverse i\<close> is the twiddle number \<open>i\<close>. The buffer that is passed in has \<open>lenmem\<close>
  bytes; the structure has 272 bytes with its first twiddle, and each other one needs 8.
\<close>

definition memneeded :: "nat \<Rightarrow> nat" where
  "memneeded n = uadd 272 (umul 8 (usub n 1))"

definition kiss_fft_alloc ::
  "(nat \<Rightarrow> bool \<Rightarrow> nat \<Rightarrow> 's kiss_fft_cpx) \<Rightarrow> nat \<Rightarrow> bool \<Rightarrow> nat \<Rightarrow> 's kiss_fft_state option" where
  "kiss_fft_alloc cexp n invert lenmem =
     (if lenmem < memneeded n then None
      else map_option (\<lambda>fs. \<lparr>nfft = n, inverse = invert, factors = fs, twiddles = map (cexp n invert) [0..<n]\<rparr>) (kf_factor n))"

text \<open>The phase in double precision, its cosine and sine (functions of the C library) as floats.\<close>

definition double_pi :: f64 where
  "double_pi = fl_round binary64 False (3141592653589793238462643383279502884197169399375105820974944 / 10 ^ 60)"

definition kf_cexp_float :: "(f64 \<Rightarrow> f64) \<Rightarrow> (f64 \<Rightarrow> f64) \<Rightarrow> nat \<Rightarrow> bool \<Rightarrow> nat \<Rightarrow> f32 kiss_fft_cpx" where
  "kf_cexp_float libm_cos libm_sin n invert i =
     (let phase = fl_div binary64 (fl_mul binary64 (fl_mul binary64 (Fin True 2) double_pi) (fl_of_int binary64 (int i)))
                    (fl_of_int binary64 (int n));
          phase = (if invert then fl_mul binary64 phase (Fin True 1) else phase)
      in \<lparr>cpx_r = fl_conv binary32 (libm_cos phase), cpx_i = fl_conv binary32 (libm_sin phase)\<rparr>)"

section \<open>Fast sizes\<close>

text \<open>\<^verbatim>\<open>while (m % d == 0) m /= d\<close>, which ends for a positive \<open>m\<close>; for zero the code loops for ever.\<close>

function strip_factor :: "nat \<Rightarrow> nat \<Rightarrow> nat" where
  "strip_factor d m = (if 1 < d \<and> 0 < m \<and> m mod d = 0 then strip_factor d (m div d) else m)"
  by pat_completeness auto
termination
  by (relation "measure snd") auto

declare strip_factor.simps [simp del]

definition fast_size :: "nat \<Rightarrow> bool" where
  "fast_size n \<longleftrightarrow> strip_factor 5 (strip_factor 3 (strip_factor 2 n)) \<le> 1"

partial_function (option) kiss_fft_next_fast_size :: "nat \<Rightarrow> nat option" where
  "kiss_fft_next_fast_size n = (if n = 0 then None else if fast_size n then Some n else kiss_fft_next_fast_size (n + 1))"

section \<open>The factorisation\<close>

text \<open>The list of radices and remaining sizes: \<open>p[i] * m[i] = m[i - 1]\<close>, the last size is one.\<close>

fun factors_of :: "nat \<Rightarrow> (nat \<times> nat) list \<Rightarrow> bool" where
  "factors_of n [] = False"
| "factors_of n ((p, m) # fs) = (n = p * m \<and> 0 < p \<and> (if m = 1 then fs = [] else 1 < m \<and> factors_of m fs))"

lemma next_radix_dvd: "next_radix flsq n p dvd n"
proof (induction flsq n p rule: next_radix.induct)
  case (1 flsq n p)
  show ?case
  proof (cases "n mod p = 0")
    case True
    then show ?thesis by (subst next_radix.simps) auto
  next
    case False
    then show ?thesis using 1 [OF False refl] by (subst next_radix.simps) (simp add: Let_def)
  qed
qed

lemma next_radix_ge_2: "2 \<le> n \<Longrightarrow> 2 \<le> p \<Longrightarrow> 2 \<le> next_radix flsq n p"
proof (induction flsq n p rule: next_radix.induct)
  case (1 flsq n p)
  show ?case
  proof (cases "n mod p = 0")
    case True
    then show ?thesis using 1 by (subst next_radix.simps) simp
  next
    case False
    then show ?thesis using 1 by (subst next_radix.simps) (simp add: Let_def)
  qed
qed

lemma factor_from_result:
  "0 < n \<Longrightarrow> 2 \<le> p \<Longrightarrow> \<exists>fs. factor_from flsq n p = Some fs \<and> factors_of n fs \<and> (if n = 1 then length fs = 1 else 2 ^ length fs \<le> n)"
proof (induction n arbitrary: p rule: less_induct)
  case (less n)
  obtain r where r: "next_radix flsq n p = r" by blast
  obtain m where m: "n = r * m" using next_radix_dvd [of flsq n p] unfolding r by (auto elim: dvdE)
  have pos: "0 < r" "0 < m" using less.prems(1) m by (auto intro: Nat.gr0I)
  then have div: "n div r = m" using m by simp
  have r2: "2 \<le> r" if "2 \<le> n" using next_radix_ge_2 [OF that, of p flsq] less.prems(2) r by simp
  show ?case
  proof (cases "1 < m")
    case False
    then have one: "m = 1" using pos(2) by simp
    then have "factor_from flsq n p = Some [(r, 1)]" using div r by (subst factor_from.simps) (simp add: Let_def)
    then show ?thesis using m one pos r2 by auto
  next
    case True
    have "1 * 2 \<le> r * m" using pos True by (intro mult_le_mono) auto
    then have n2: "2 \<le> n" using m by simp
    have "1 * m < r * m" using r2 [OF n2] pos by (intro mult_strict_right_mono) auto
    then have "m < n" using m by simp
    then obtain fs where fs: "factor_from flsq m r = Some fs" "factors_of m fs" "2 ^ length fs \<le> m"
      using less.IH [of m r] pos(2) r2 [OF n2] True by auto
    have "factor_from flsq n p = Some ((r, m) # fs)" using div True fs(1) r by (subst factor_from.simps) (simp add: Let_def)
    moreover have "2 ^ length ((r, m) # fs) \<le> n"
      using mult_le_mono [OF r2 [OF n2] fs(3)] m by simp
    ultimately show ?thesis using m pos True fs(2) n2 by auto
  qed
qed

text \<open>
  C30: the factorisation ends for every size a 32-bit integer can hold; the radices and sizes
  multiply up as the recursion needs them, and there are never more than the 32 pairs that
  the buffer holds.
\<close>

theorem factorisation_fits:
  assumes "0 < n" and "n < 2 ^ 31"
  shows "\<exists>fs. kf_factor n = Some fs \<and> factors_of n fs \<and> length fs \<le> 32"
proof -
  obtain fs where fs: "kf_factor n = Some fs" "factors_of n fs" "if n = 1 then length fs = 1 else 2 ^ length fs \<le> n"
    using factor_from_result [OF assms(1), of 4 "floor_sqrt n"] by (auto simp: kf_factor_def)
  have "length fs \<le> 32"
  proof (cases "n = 1")
    case False
    then have "2 ^ length fs < (2 :: nat) ^ 31" using fs(3) assms(2) by simp
    then have "length fs < 31" by (rule power_less_imp_less_exp [rotated]) simp
    then show ?thesis by simp
  qed (use fs(3) in simp)
  then show ?thesis using fs by blast
qed

theorem factorisation_fits_witness:
  "\<exists>fs. kf_factor 1000 = Some fs \<and> factors_of 1000 fs \<and> length fs \<le> 32"
  by (rule factorisation_fits) simp_all

section \<open>Columns\<close>

lemma length_store_column [simp]: "length (store_column m k ys F) = length F"
  by (induction m k ys F rule: store_column.induct) simp_all

lemma store_column_other:
  "\<forall>q < length ys. i \<noteq> k + q * m \<Longrightarrow> store_column m k ys F ! i = F ! i"
proof (induction m k ys F rule: store_column.induct)
  case (2 m k y ys F)
  have "i \<noteq> k + m + q * m" if "q < length ys" for q
    using 2(2) [rule_format, of "Suc q"] that by (simp add: add.assoc)
  moreover have "i \<noteq> k" using 2(2) [rule_format, of 0] by simp
  ultimately show ?case using 2(1) by simp
qed simp

lemma store_column_nth:
  "0 < m \<Longrightarrow> q < length ys \<Longrightarrow> k + q * m < length F \<Longrightarrow> store_column m k ys F ! (k + q * m) = ys ! q"
proof (induction m k ys F arbitrary: q rule: store_column.induct)
  case (2 m k y ys F)
  show ?case
  proof (cases q)
    case 0
    have "store_column m (k + m) ys (F[k := y]) ! k = F[k := y] ! k"
      using 2(2) by (intro store_column_other) auto
    then show ?thesis using 0 2(4) by simp
  next
    case (Suc r)
    then show ?thesis using 2(1) [of r] 2(2-4) by (simp add: add.assoc)
  qed
qed simp

lemma column_index: "u < m \<Longrightarrow> u' < m \<Longrightarrow> u + q * m = u' + q' * m \<Longrightarrow> u = u' \<and> q = (q' :: nat)"
  by (metis add.commute div_mult_self3 div_less less_nat_zero_code mod_less mod_mult_self3 nat_neq_iff add_cancel_right_right div_eq_0_iff)

lemma column_bound: "u < m \<Longrightarrow> q < p \<Longrightarrow> u + q * m < p * (m :: nat)"
proof -
  assume "u < m" "q < p"
  then have "u + q * m < Suc q * m" by simp
  also have "\<dots> \<le> p * m" using \<open>q < p\<close> by (intro mult_right_mono) auto
  finally show ?thesis .
qed

lemma for_columns_partial:
  assumes "length F = p * m" and "\<And>u. u < m \<Longrightarrow> length (kern u (column p m u F)) = p" and "j \<le> m"
  defines "G \<equiv> fold (\<lambda>u F. store_column m u (kern u (column p m u F)) F) [0..<j] F"
  shows "length G = p * m \<and> (\<forall>u < m. \<forall>q < p. G ! (u + q * m) = (if u < j then kern u (column p m u F) ! q else F ! (u + q * m)))"
  using assms(3) unfolding G_def
proof (induction j)
  case 0
  then show ?case using assms(1) by simp
next
  case (Suc j)
  let ?G = "fold (\<lambda>u F. store_column m u (kern u (column p m u F)) F) [0..<j] F"
  have IH: "length ?G = p * m" "\<And>u q. u < m \<Longrightarrow> q < p \<Longrightarrow> ?G ! (u + q * m) = (if u < j then kern u (column p m u F) ! q else F ! (u + q * m))"
    using Suc by auto
  have col: "column p m j ?G = column p m j F"
    unfolding column_def [of p m j] using IH(2) [of j] Suc.prems by (intro map_cong) auto
  have len: "length (kern j (column p m j F)) = p" using assms(2) Suc.prems by simp
  have "store_column m j (kern j (column p m j F)) ?G ! (u + q * m)
      = (if u < Suc j then kern u (column p m u F) ! q else F ! (u + q * m))" if "u < m" "q < p" for u q
  proof (cases "u = j")
    case True
    have "u + q * m < length ?G" using column_bound [OF that] IH(1) by simp
    then show ?thesis using store_column_nth [of m q "kern j (column p m j F)" j ?G] that len True by simp
  next
    case False
    have "\<forall>r < length (kern j (column p m j F)). u + q * m \<noteq> j + r * m"
      using column_index [of u m j q] that False Suc.prems by auto
    then show ?thesis using store_column_other [of "kern j (column p m j F)" "u + q * m" j m ?G] IH(2) [OF that] False
      by auto
  qed
  then show ?case using IH(1) by (simp add: col)
qed

lemma for_columns_nth:
  assumes "length F = p * m" and "\<And>u. u < m \<Longrightarrow> length (kern u (column p m u F)) = p" and "u < m" and "q < p"
  shows "for_columns p m kern F ! (u + q * m) = kern u (column p m u F) ! q"
  using for_columns_partial [where kern = kern and p = p and m = m and F = F and j = m] assms by (simp add: for_columns_def)

lemma length_for_columns [simp]: "length (for_columns p m kern F) = length F"
proof -
  have "length (fold (\<lambda>u F. store_column m u (kern u (column p m u F)) F) us F) = length F" for us
    by (induction us arbitrary: F) simp_all
  then show ?thesis by (simp add: for_columns_def)
qed

lemma length_column [simp]: "length (column p m u F) = p"
  by (simp add: column_def)

lemma column_nth: "q < p \<Longrightarrow> column p m u F ! q = F ! (u + q * m)"
  by (simp add: column_def)

section \<open>Exact arithmetic\<close>

definition to_c :: "real kiss_fft_cpx \<Rightarrow> complex" where
  "to_c a = Complex (cpx_r a) (cpx_i a)"

definition twiddle :: "bool \<Rightarrow> nat \<Rightarrow> nat \<Rightarrow> complex" where
  "twiddle invert n k = cis ((if invert then 2 * pi else - (2 * pi)) * (real k / real n))"

definition exact_cexp :: "nat \<Rightarrow> bool \<Rightarrow> nat \<Rightarrow> real kiss_fft_cpx" where
  "exact_cexp n invert i = \<lparr>cpx_r = Re (twiddle invert n i), cpx_i = Im (twiddle invert n i)\<rparr>"

lemma to_c_simps [simp]:
  "Re (to_c a) = cpx_r a" "Im (to_c a) = cpx_i a"
  "to_c (C_MUL exact_ops a b) = to_c a * to_c b"
  "to_c (C_ADD exact_ops a b) = to_c a + to_c b"
  "to_c (C_SUB exact_ops a b) = to_c a - to_c b"
  by (simp_all add: to_c_def C_MUL_def C_ADD_def C_SUB_def exact_ops_def complex_eq_iff)

lemma to_c_exact_cexp [simp]: "to_c (exact_cexp n invert i) = twiddle invert n i"
  by (simp add: exact_cexp_def to_c_def)

lemma twiddle_0 [simp]: "twiddle invert n 0 = 1"
  by (simp add: twiddle_def)

lemma twiddle_add: "twiddle invert n (a + b) = twiddle invert n a * twiddle invert n b"
  by (simp add: twiddle_def cis_mult add_divide_distrib distrib_left)

lemma twiddle_mult: "twiddle invert n (a * b) = twiddle invert n a ^ b"
  by (simp add: twiddle_def DeMoivre mult.assoc mult.left_commute mult.commute)

lemma twiddle_period [simp]: "0 < n \<Longrightarrow> twiddle invert n n = 1"
  by (cases invert) (simp_all add: twiddle_def cis_def complex_eq_iff)

lemma twiddle_mod: "0 < n \<Longrightarrow> twiddle invert n (k mod n) = twiddle invert n k"
proof -
  assume n: "0 < n"
  have "twiddle invert n k = twiddle invert n (n * (k div n) + k mod n)" by simp
  also have "\<dots> = twiddle invert n (k mod n)" by (simp only: twiddle_add twiddle_mult twiddle_period [OF n]) simp
  finally show ?thesis by simp
qed

lemma twiddle_scale: "0 < a \<Longrightarrow> twiddle invert (a * n) (a * k) = twiddle invert n k"
  by (simp add: twiddle_def)

text \<open>A state with exact twiddles, as \<open>kiss_fft_alloc\<close> makes it.\<close>

definition exact_state :: "real kiss_fft_state \<Rightarrow> bool" where
  "exact_state st \<longleftrightarrow> 0 < nfft st \<and> twiddles st = map (exact_cexp (nfft st) (inverse st)) [0..<nfft st]"

lemma exact_state_twiddle:
  "exact_state st \<Longrightarrow> k < nfft st \<Longrightarrow> to_c (twiddles st ! k) = twiddle (inverse st) (nfft st) k"
  by (simp add: exact_state_def)

text \<open>What a kernel of radix \<open>p\<close> is to compute: the element \<open>u + q1 * m\<close> of the combined transform.\<close>

definition radix_sum :: "real kiss_fft_state \<Rightarrow> nat \<Rightarrow> nat \<Rightarrow> nat \<Rightarrow> nat \<Rightarrow> real kiss_fft_cpx list \<Rightarrow> nat \<Rightarrow> complex" where
  "radix_sum st fstride m p u x q1 = (\<Sum>q<p. to_c (x ! q) * twiddle (inverse st) (nfft st) (fstride * (u + q1 * m) * q))"

definition kernel_correct :: "real kiss_fft_state \<Rightarrow> nat \<Rightarrow> nat \<Rightarrow> nat \<Rightarrow> (nat \<Rightarrow> real kiss_fft_cpx list \<Rightarrow> real kiss_fft_cpx list) \<Rightarrow> bool" where
  "kernel_correct st fstride m p kern \<longleftrightarrow>
     (\<forall>u < m. \<forall>x. length x = p \<longrightarrow> length (kern u x) = p \<and> (\<forall>q1 < p. to_c (kern u x ! q1) = radix_sum st fstride m p u x q1))"

lemma twiddle_split:
  "twiddle invert n (fstride * (u + q1 * m) * q) = twiddle invert n (u * (fstride * q)) * twiddle invert n (fstride * m) ^ (q1 * q)"
proof -
  have "fstride * (u + q1 * m) * q = u * (fstride * q) + fstride * m * (q1 * q)" by (simp add: algebra_simps)
  then show ?thesis by (simp only: twiddle_add twiddle_mult)
qed

lemma twiddle_index:
  assumes "nfft st = fstride * (p * m)" and "u < m" and "q < p" and "exact_state st"
  shows "u * (fstride * q) < nfft st"
proof -
  have f: "0 < fstride" using assms(1,4) by (auto simp: exact_state_def intro: Nat.gr0I)
  have "u * q < m * p" using assms(2,3) by (intro mult_strict_mono) auto
  then show ?thesis using f assms(1) by (simp add: mult.left_commute mult.commute)
qed

lemma root_index: "nfft st = fstride * (p * m) \<Longrightarrow> q < p \<Longrightarrow> exact_state st \<Longrightarrow> fstride * q * m < nfft st"
  by (auto simp: exact_state_def mult.assoc)

lemma twiddle_root:
  assumes "nfft st = fstride * (p * m)" and "exact_state st"
  shows "twiddle (inverse st) (nfft st) (fstride * m) = twiddle (inverse st) p 1"
proof -
  have "0 < fstride * m" using assms by (auto simp: exact_state_def)
  moreover have "nfft st = fstride * m * p" using assms(1) by simp
  ultimately show ?thesis using twiddle_scale [of "fstride * m" "inverse st" p 1] by simp
qed

lemma sum_upto_2: "(\<Sum>q<2. f q) = f 0 + f (1 :: nat)" for f :: "nat \<Rightarrow> complex"
  by (simp add: numeral_eq_Suc)

lemma sum_upto_3: "(\<Sum>q<3. f q) = f 0 + f 1 + f (2 :: nat)" for f :: "nat \<Rightarrow> complex"
  by (simp add: numeral_eq_Suc)

lemma sum_upto_4: "(\<Sum>q<4. f q) = f 0 + f 1 + f 2 + f (3 :: nat)" for f :: "nat \<Rightarrow> complex"
  by (simp add: numeral_eq_Suc)

lemma sum_upto_5: "(\<Sum>q<5. f q) = f 0 + f 1 + f 2 + f 3 + f (4 :: nat)" for f :: "nat \<Rightarrow> complex"
  by (simp add: numeral_eq_Suc)

text \<open>The inputs of a kernel with their twiddles applied.\<close>

definition scaled :: "real kiss_fft_state \<Rightarrow> nat \<Rightarrow> nat \<Rightarrow> real kiss_fft_cpx list \<Rightarrow> nat \<Rightarrow> complex" where
  "scaled st fstride u x q = to_c (x ! q) * twiddle (inverse st) (nfft st) (u * (fstride * q))"

lemma radix_sum_scaled:
  assumes "nfft st = fstride * (p * m)" and "exact_state st"
  shows "radix_sum st fstride m p u x q1 = (\<Sum>q<p. scaled st fstride u x q * twiddle (inverse st) p 1 ^ (q1 * q))"
  unfolding radix_sum_def twiddle_split twiddle_root [OF assms] scaled_def by (simp add: mult.assoc)

lemma scaled_0: "scaled st fstride u x 0 = to_c (x ! 0)"
  by (simp add: scaled_def)

lemma scaled_C_MUL:
  assumes "nfft st = fstride * (p * m)" and "exact_state st" and "u < m" and "q < p" and "i = u * (fstride * q)"
  shows "to_c (C_MUL exact_ops (x ! q) (twiddles st ! i)) = scaled st fstride u x q"
  using twiddle_index [OF assms(1,3,4,2)] exact_state_twiddle [OF assms(2)] assms(5) by (simp add: scaled_def)

lemma to_c_rotations:
  "to_c \<lparr>cpx_r = s_sub exact_ops (cpx_r a) (cpx_i b), cpx_i = s_add exact_ops (cpx_i a) (cpx_r b)\<rparr> = to_c a + \<i> * to_c b"
  "to_c \<lparr>cpx_r = s_add exact_ops (cpx_r a) (cpx_i b), cpx_i = s_sub exact_ops (cpx_i a) (cpx_r b)\<rparr> = to_c a - \<i> * to_c b"
  by (simp_all add: to_c_def exact_ops_def complex_eq_iff)

lemma bfly2_correct:
  assumes "nfft st = fstride * (2 * m)" and "exact_state st"
  shows "kernel_correct st fstride m 2 (bfly2_kernel exact_ops st fstride)"
  unfolding kernel_correct_def
proof (intro allI impI conjI)
  fix u q1 :: nat and x :: "real kiss_fft_cpx list"
  assume u: "u < m" and q1: "q1 < 2"
  have z: "twiddle (inverse st) 2 1 = - 1" by (simp add: twiddle_def complex_eq_iff)
  have y: "to_c (C_MUL exact_ops (x ! 1) (twiddles st ! (u * fstride))) = scaled st fstride u x 1"
    by (rule scaled_C_MUL [OF assms u]) simp_all
  show "to_c (bfly2_kernel exact_ops st fstride u x ! q1) = radix_sum st fstride m 2 u x q1"
    using q1 unfolding radix_sum_scaled [OF assms] sum_upto_2 z scaled_0
    by (auto simp: bfly2_kernel_def Let_def y [unfolded One_nat_def] less_2_cases_iff simp del: to_c_simps(3))
qed (simp add: bfly2_kernel_def Let_def)

lemma bfly4_correct:
  assumes "nfft st = fstride * (4 * m)" and "exact_state st"
  shows "kernel_correct st fstride m 4 (bfly4_kernel exact_ops st fstride)"
  unfolding kernel_correct_def
proof (intro allI impI conjI)
  fix u q1 :: nat and x :: "real kiss_fft_cpx list"
  assume u: "u < m" and q1: "q1 < 4"
  have z: "twiddle (inverse st) 4 1 = (if inverse st then \<i> else - \<i>)"
    by (simp add: twiddle_def complex_eq_iff)
  note mul = scaled_C_MUL [OF assms u]
  have y: "to_c (C_MUL exact_ops (x ! 1) (twiddles st ! (u * fstride))) = scaled st fstride u x 1"
    "to_c (C_MUL exact_ops (x ! 2) (twiddles st ! (u * (fstride * 2)))) = scaled st fstride u x 2"
    "to_c (C_MUL exact_ops (x ! 3) (twiddles st ! (u * (fstride * 3)))) = scaled st fstride u x 3"
    by (rule mul; simp)+
  have out: "map to_c (bfly4_kernel exact_ops st fstride u x) =
     (let y0 = to_c (x ! 0); y1 = scaled st fstride u x 1; y2 = scaled st fstride u x 2; y3 = scaled st fstride u x 3;
          p = (y0 - y2) - \<i> * (y1 - y3); n = (y0 - y2) + \<i> * (y1 - y3)
      in [y0 + y2 + (y1 + y3), if inverse st then n else p, y0 + y2 - (y1 + y3), if inverse st then p else n])"
    unfolding bfly4_kernel_def Let_def by (simp add: to_c_rotations y [unfolded One_nat_def] del: to_c_simps(3))
  have nth: "to_c (bfly4_kernel exact_ops st fstride u x ! q1) = map to_c (bfly4_kernel exact_ops st fstride u x) ! q1"
    using q1 by (intro nth_map [symmetric]) (simp add: bfly4_kernel_def Let_def)
  have cases: "q1 = 0 \<or> q1 = 1 \<or> q1 = 2 \<or> q1 = 3" using q1 by linarith
  obtain y0 y1 y2 y3 where ys: "to_c (x ! 0) = y0" "scaled st fstride u x 1 = y1" "scaled st fstride u x 2 = y2"
    "scaled st fstride u x 3 = y3" by blast
  show "to_c (bfly4_kernel exact_ops st fstride u x ! q1) = radix_sum st fstride m 4 u x q1"
    using cases unfolding nth out radix_sum_scaled [OF assms] sum_upto_4 z scaled_0 ys Let_def
    by (auto simp: eval_nat_numeral algebra_simps)
qed (simp add: bfly4_kernel_def Let_def)

lemma radix_3_root:
  fixes z :: complex
  assumes "z = twiddle invert 3 1"
  shows "z ^ 2 = cnj z" and "z ^ 4 = z" and "Re z = - (1 / 2)"
proof -
  have m: "z ^ 3 = 1" using twiddle_mult [of invert 3 1 3] assms by simp
  have n: "z * cnj z = 1" by (simp add: assms twiddle_def cis_cnj cis_mult)
  have "z ^ 2 = z ^ 2 * (z * cnj z)" using n by simp
  also have "\<dots> = z ^ 3 * cnj z" by (simp add: eval_nat_numeral)
  finally show sq: "z ^ 2 = cnj z" using m by simp
  have "z ^ 4 = z ^ 3 * z" by (simp add: eval_nat_numeral)
  then show "z ^ 4 = z" using m by simp
  have "Re z = cos (2 * pi / 3)" by (simp add: assms twiddle_def)
  then show "Re z = - (1 / 2)" by (simp add: cos_120)
qed

lemma bfly3_correct:
  assumes "nfft st = fstride * (3 * m)" and "exact_state st"
  shows "kernel_correct st fstride m 3 (bfly3_kernel exact_ops st fstride m)"
  unfolding kernel_correct_def
proof (intro allI impI conjI)
  fix u q1 :: nat and x :: "real kiss_fft_cpx list"
  assume u: "u < m" and q1: "q1 < 3"
  obtain z where z: "twiddle (inverse st) 3 1 = z" by blast
  note root = radix_3_root [OF z [symmetric]]
  have epi3: "to_c (twiddles st ! (fstride * m)) = z"
    using exact_state_twiddle [OF assms(2)] root_index [OF assms(1) _ assms(2), of 1] twiddle_root [OF assms] z by simp
  note mul = scaled_C_MUL [OF assms u]
  have y: "to_c (C_MUL exact_ops (x ! 1) (twiddles st ! (u * fstride))) = scaled st fstride u x 1"
    "to_c (C_MUL exact_ops (x ! 2) (twiddles st ! (u * (fstride * 2)))) = scaled st fstride u x 2"
    by (rule mul; simp)+
  have epi3_i: "cpx_i (twiddles st ! (fstride * m)) = Im z" using epi3 to_c_simps(2) by metis
  have mid: "to_c \<lparr>cpx_r = s_sub exact_ops (s_sub_half exact_ops (cpx_r a) (cpx_r c)) (cpx_i (C_MULBYSCALAR exact_ops d t)),
      cpx_i = s_add exact_ops (s_sub_half exact_ops (cpx_i a) (cpx_i c)) (cpx_r (C_MULBYSCALAR exact_ops d t))\<rparr>
      = to_c a - to_c c / 2 + \<i> * (to_c d * of_real t)"
    "to_c \<lparr>cpx_r = s_add exact_ops (s_sub_half exact_ops (cpx_r a) (cpx_r c)) (cpx_i (C_MULBYSCALAR exact_ops d t)),
      cpx_i = s_sub exact_ops (s_sub_half exact_ops (cpx_i a) (cpx_i c)) (cpx_r (C_MULBYSCALAR exact_ops d t))\<rparr>
      = to_c a - to_c c / 2 - \<i> * (to_c d * of_real t)" for a c d t
    by (simp_all add: to_c_def exact_ops_def C_MULBYSCALAR_def complex_eq_iff)
  obtain y0 y1 y2 where ys: "to_c (x ! 0) = y0" "scaled st fstride u x 1 = y1" "scaled st fstride u x 2 = y2" by blast
  have out: "map to_c (bfly3_kernel exact_ops st fstride m u x) =
     [y0 + (y1 + y2), y0 - (y1 + y2) / 2 + \<i> * ((y1 - y2) * of_real (Im z)), y0 - (y1 + y2) / 2 - \<i> * ((y1 - y2) * of_real (Im z))]"
    unfolding bfly3_kernel_def Let_def epi3_i
    by (simp add: mid y [unfolded One_nat_def] ys [unfolded One_nat_def] del: to_c_simps(3))
  have nth: "to_c (bfly3_kernel exact_ops st fstride m u x ! q1) = map to_c (bfly3_kernel exact_ops st fstride m u x) ! q1"
    using q1 by (intro nth_map [symmetric]) (simp add: bfly3_kernel_def Let_def)
  have zs: "z = - (1 / 2) + \<i> * of_real (Im z)" "cnj z = - (1 / 2) - \<i> * of_real (Im z)"
    using root(3) by (simp_all add: complex_eq_iff)
  have rot: "y0 - (y1 + y2) / 2 + \<i> * ((y1 - y2) * of_real (Im z)) = y0 + y1 * z + y2 * cnj z"
    "y0 - (y1 + y2) / 2 - \<i> * ((y1 - y2) * of_real (Im z)) = y0 + y1 * cnj z + y2 * z"
    by (subst (2 3) zs, simp add: field_simps)+
  have cases: "q1 = 0 \<or> q1 = 1 \<or> q1 = 2" using q1 by linarith
  show "to_c (bfly3_kernel exact_ops st fstride m u x ! q1) = radix_sum st fstride m 3 u x q1"
    using cases unfolding nth out radix_sum_scaled [OF assms] sum_upto_3 z scaled_0 ys rot
    by (auto simp: root [simplified] numeral_2_eq_2 [symmetric])
qed (simp add: bfly3_kernel_def Let_def)

lemma radix_5_root:
  fixes z :: complex
  assumes "z = twiddle invert 5 1"
  shows "z ^ 5 = 1" and "z ^ 3 = cnj (z ^ 2)" and "z ^ 4 = cnj z"
proof -
  show m: "z ^ 5 = 1" using twiddle_mult [of invert 5 1 5] assms by simp
  have n: "z * cnj z = 1" by (simp add: assms twiddle_def cis_cnj cis_mult)
  have "z ^ 4 = z ^ 4 * (z * cnj z)" using n by simp
  also have "\<dots> = z ^ 5 * cnj z" by (simp add: eval_nat_numeral)
  finally show "z ^ 4 = cnj z" using m by simp
  have "z ^ 3 = z ^ 3 * ((z * cnj z) * (z * cnj z))" using n by simp
  also have "\<dots> = z ^ 5 * cnj (z ^ 2)" by (simp add: eval_nat_numeral)
  finally show "z ^ 3 = cnj (z ^ 2)" using m by simp
qed

lemma bfly5_correct:
  assumes "nfft st = fstride * (5 * m)" and "exact_state st"
  shows "kernel_correct st fstride m 5 (bfly5_kernel exact_ops st fstride m)"
  unfolding kernel_correct_def
proof (intro allI impI conjI)
  fix u q1 :: nat and x :: "real kiss_fft_cpx list"
  assume u: "u < m" and q1: "q1 < 5"
  obtain z where z: "twiddle (inverse st) 5 1 = z" by blast
  note root = radix_5_root [OF z [symmetric]]
  have ya: "to_c (twiddles st ! (fstride * m)) = z"
    using exact_state_twiddle [OF assms(2)] root_index [OF assms(1) _ assms(2), of 1] twiddle_root [OF assms] z by simp
  have "twiddle (inverse st) (nfft st) (fstride * 2 * m) = twiddle (inverse st) (nfft st) (fstride * m) ^ 2"
    unfolding twiddle_mult [symmetric] by (simp only: mult_ac)
  then have yb: "to_c (twiddles st ! (fstride * 2 * m)) = z ^ 2"
    using exact_state_twiddle [OF assms(2)] root_index [OF assms(1) _ assms(2), of 2] twiddle_root [OF assms] z by simp
  have yr: "cpx_r (twiddles st ! (fstride * m)) = Re z" "cpx_i (twiddles st ! (fstride * m)) = Im z"
    "cpx_r (twiddles st ! (fstride * 2 * m)) = Re (z ^ 2)" "cpx_i (twiddles st ! (fstride * 2 * m)) = Im (z ^ 2)"
    using ya yb to_c_simps(1,2) by metis+
  note mul = scaled_C_MUL [OF assms u]
  have y: "to_c (C_MUL exact_ops (x ! 1) (twiddles st ! (u * fstride))) = scaled st fstride u x 1"
    "to_c (C_MUL exact_ops (x ! 2) (twiddles st ! (2 * u * fstride))) = scaled st fstride u x 2"
    "to_c (C_MUL exact_ops (x ! 3) (twiddles st ! (3 * u * fstride))) = scaled st fstride u x 3"
    "to_c (C_MUL exact_ops (x ! 4) (twiddles st ! (4 * u * fstride))) = scaled st fstride u x 4"
    by (rule mul; simp)+
  have parts: "cpx_r c = Re (to_c c)" "cpx_i c = Im (to_c c)" for c :: "real kiss_fft_cpx" by simp_all
  obtain y0 y1 y2 y3 y4 where ys: "to_c (x ! 0) = y0" "scaled st fstride u x 1 = y1" "scaled st fstride u x 2 = y2"
    "scaled st fstride u x 3 = y3" "scaled st fstride u x 4 = y4" by blast
  let ?s5 = "y0 + (y1 + y4) * of_real (Re z) + (y2 + y3) * of_real (Re (z ^ 2))"
  let ?s6 = "- \<i> * ((y1 - y4) * of_real (Im z) + (y2 - y3) * of_real (Im (z ^ 2)))"
  let ?s11 = "y0 + (y1 + y4) * of_real (Re (z ^ 2)) + (y2 + y3) * of_real (Re z)"
  let ?s12 = "\<i> * ((y1 - y4) * of_real (Im (z ^ 2)) - (y2 - y3) * of_real (Im z))"
  have out: "map to_c (bfly5_kernel exact_ops st fstride m u x) =
     [y0 + ((y1 + y4) + (y2 + y3)), ?s5 - ?s6, ?s11 + ?s12, ?s11 - ?s12, ?s5 + ?s6]"
  proof -
    obtain a0 a1 a2 a3 a4 where a: "x ! 0 = a0" "C_MUL exact_ops (x ! 1) (twiddles st ! (u * fstride)) = a1"
      "C_MUL exact_ops (x ! 2) (twiddles st ! (2 * u * fstride)) = a2" "C_MUL exact_ops (x ! 3) (twiddles st ! (3 * u * fstride)) = a3"
      "C_MUL exact_ops (x ! 4) (twiddles st ! (4 * u * fstride)) = a4" by blast
    have ay: "to_c a0 = y0" "to_c a1 = y1" "to_c a2 = y2" "to_c a3 = y3" "to_c a4 = y4"
      using y ys unfolding a by simp_all
    show ?thesis
      unfolding bfly5_kernel_def Let_def a yr ay [symmetric]
      by (simp add: to_c_def C_ADD_def C_SUB_def exact_ops_def complex_eq_iff algebra_simps)
  qed
  have nth: "to_c (bfly5_kernel exact_ops st fstride m u x ! q1) = map to_c (bfly5_kernel exact_ops st fstride m u x) ! q1"
    using q1 by (intro nth_map [symmetric]) (simp add: bfly5_kernel_def Let_def)
  obtain w where w: "z ^ 2 = w" by blast
  have split: "z = of_real (Re z) + \<i> * of_real (Im z)" "cnj z = of_real (Re z) - \<i> * of_real (Im z)"
    "w = of_real (Re w) + \<i> * of_real (Im w)" "cnj w = of_real (Re w) - \<i> * of_real (Im w)"
    by (simp_all add: complex_eq_iff)
  have rot: "?s5 - ?s6 = y0 + y1 * z + y2 * w + y3 * cnj w + y4 * cnj z"
    "?s11 + ?s12 = y0 + y1 * w + y2 * cnj z + y3 * z + y4 * cnj w"
    "?s11 - ?s12 = y0 + y1 * cnj w + y2 * z + y3 * cnj z + y4 * w"
    "?s5 + ?s6 = y0 + y1 * cnj z + y2 * cnj w + y3 * w + y4 * z"
    unfolding w by (simp_all add: complex_eq_iff algebra_simps)
  have pow: "z ^ 3 = cnj w" "z ^ 4 = cnj z" "z ^ 6 = z" "z ^ 8 = cnj w" "z ^ 9 = cnj z" "z ^ 12 = w" "z ^ 16 = z"
  proof -
    have p: "z ^ (5 + n) = z ^ n" for n using root(1) by (simp add: power_add)
    show "z ^ 3 = cnj w" "z ^ 4 = cnj z" using root(2,3) w by simp_all
    then show "z ^ 6 = z" "z ^ 8 = cnj w" "z ^ 9 = cnj z" using p [of 1] p [of 3] p [of 4] by simp_all
    show "z ^ 12 = w" "z ^ 16 = z" using p [of 7] p [of 2] p [of 11] p [of 6] p [of 1] w by simp_all
  qed
  have cases: "q1 = 0 \<or> q1 = 1 \<or> q1 = 2 \<or> q1 = 3 \<or> q1 = 4" using q1 by linarith
  show "to_c (bfly5_kernel exact_ops st fstride m u x ! q1) = radix_sum st fstride m 5 u x q1"
    using cases unfolding nth out radix_sum_scaled [OF assms] sum_upto_5 z scaled_0 ys rot
    by (auto simp: pow w)
qed (simp add: bfly5_kernel_def Let_def)

lemma generic_sum_result:
  assumes "exact_state st" and "step < nfft st"
  shows "i < nfft st \<Longrightarrow> to_c (generic_sum exact_ops st step ys i acc) =
    to_c acc + (\<Sum>q<length ys. to_c (ys ! q) * twiddle (inverse st) (nfft st) (i + step * Suc q))"
proof (induction ys arbitrary: i acc)
  case (Cons y ys)
  have n: "0 < nfft st" using assms(1) by (simp add: exact_state_def)
  let ?i = "if i + step \<ge> nfft st then i + step - nfft st else i + step"
  have less: "?i < nfft st" using Cons.prems assms(2) by auto
  have red: "twiddle (inverse st) (nfft st) (?i + k) = twiddle (inverse st) (nfft st) (i + step + k)" for k
  proof (cases "i + step \<ge> nfft st")
    case True
    then have "i + step + k = nfft st + (?i + k)" by simp
    then show ?thesis using twiddle_period [OF n] by (simp only: twiddle_add) simp
  qed simp
  have "to_c (generic_sum exact_ops st step (y # ys) i acc) =
     to_c acc + to_c y * twiddle (inverse st) (nfft st) ?i
       + (\<Sum>q<length ys. to_c (ys ! q) * twiddle (inverse st) (nfft st) (?i + step * Suc q))"
    using Cons.IH [OF less] exact_state_twiddle [OF assms(1) less] by (simp add: Let_def)
  also have "\<dots> = to_c acc + (to_c y * twiddle (inverse st) (nfft st) (i + step)
       + (\<Sum>q<length ys. to_c (ys ! q) * twiddle (inverse st) (nfft st) (i + step + step * Suc q)))"
    using red [of 0] by (simp only: red add_0_right add.assoc)
  also have "\<dots> = to_c acc + (\<Sum>q<length (y # ys). to_c ((y # ys) ! q) * twiddle (inverse st) (nfft st) (i + step * Suc q))"
    unfolding length_Cons sum.lessThan_Suc_shift by (simp add: add.assoc)
  finally show ?case .
qed simp

lemma generic_correct:
  assumes "nfft st = fstride * (p * m)" and "exact_state st"
  shows "kernel_correct st fstride m p (generic_kernel exact_ops st fstride m p)"
  unfolding kernel_correct_def
proof (intro allI impI conjI)
  fix u q1 :: nat and x :: "real kiss_fft_cpx list"
  assume u: "u < m" and len: "length x = p" and q1: "q1 < p"
  obtain y ys where x: "x = y # ys" using len q1 by (cases x) auto
  have f: "0 < fstride" "0 < nfft st" using assms by (auto simp: exact_state_def intro: Nat.gr0I)
  have step: "fstride * (u + q1 * m) < nfft st"
    using column_bound [OF u q1] f assms(1) by simp
  have "to_c (generic_kernel exact_ops st fstride m p u x ! q1) =
     to_c y + (\<Sum>q<length ys. to_c (ys ! q) * twiddle (inverse st) (nfft st) (0 + fstride * (u + q1 * m) * Suc q))"
    using q1 generic_sum_result [OF assms(2) step f(2), of ys y] by (simp add: generic_kernel_def x)
  also have "\<dots> = radix_sum st fstride m p u x q1"
    unfolding radix_sum_def len [symmetric] x length_Cons sum.lessThan_Suc_shift by simp
  finally show "to_c (generic_kernel exact_ops st fstride m p u x ! q1) = radix_sum st fstride m p u x q1" .
qed (simp add: generic_kernel_def)

section \<open>The transform\<close>

definition dft :: "bool \<Rightarrow> complex list \<Rightarrow> complex list" where
  "dft invert xs = map (\<lambda>k. \<Sum>j<length xs. xs ! j * twiddle invert (length xs) (j * k)) [0..<length xs]"

lemma kf_bfly_nth:
  assumes "nfft st = fstride * (p * m)" and "exact_state st" and "length F = p * m" and "u < m" and "q1 < p"
  shows "to_c (kf_bfly exact_ops F fstride st m p ! (u + q1 * m)) = radix_sum st fstride m p u (column p m u F) q1"
proof -
  have combine: "to_c (for_columns p m kern F ! (u + q1 * m)) = radix_sum st fstride m p u (column p m u F) q1"
    if "kernel_correct st fstride m p kern" for kern
    using for_columns_nth [of F p m kern u q1] that assms(3-5) by (simp add: kernel_correct_def)
  show ?thesis
    using combine bfly2_correct [of st fstride m] bfly3_correct [of st fstride m] bfly4_correct [of st fstride m]
      bfly5_correct [of st fstride m] generic_correct [OF assms(1,2)] assms(1,2)
    by (auto simp: kf_bfly_def kf_bfly2_def kf_bfly3_def kf_bfly4_def kf_bfly5_def kf_bfly_generic_def)
qed

lemma length_kf_bfly [simp]: "length (kf_bfly ops F fstride st m p) = length F"
  by (simp add: kf_bfly_def kf_bfly2_def kf_bfly3_def kf_bfly4_def kf_bfly5_def kf_bfly_generic_def)

lemma length_concat_blocks:
  "(\<And>q. q < p \<Longrightarrow> length (f q) = m) \<Longrightarrow> length (concat (map f [0..<p])) = p * m"
  by (induction p) simp_all

lemma nth_concat_blocks:
  assumes "\<And>q. q < p \<Longrightarrow> length (f q) = m" and "q < p" and "u < m"
  shows "concat (map f [0..<p]) ! (u + q * m) = f q ! u"
  using assms
proof (induction p)
  case (Suc p)
  have len: "length (concat (map f [0..<p])) = p * m" using Suc.prems(1) by (intro length_concat_blocks) simp
  show ?case
  proof (cases "q = p")
    case True
    then show ?thesis using len by (simp add: nth_append)
  next
    case False
    then have q: "q < p" using Suc.prems(2) by simp
    then have "u + q * m < p * m" using column_bound [OF Suc.prems(3) q] by simp
    then show ?thesis using Suc.IH Suc.prems q len by (simp add: nth_append)
  qed
qed simp

lemma length_kf_work: "factors_of n fs \<Longrightarrow> length (kf_work ops st fin off fstride in_stride fs) = n"
proof (induction fs arbitrary: n off fstride)
  case (Cons a fs)
  obtain p m where a: "a = (p, m)" by fastforce
  show ?case
  proof (cases "m = 1")
    case True
    then show ?thesis using Cons.prems by (simp add: a)
  next
    case False
    then have "length (kf_work ops st fin off' (fstride * p) in_stride fs) = m" for off'
      using Cons.IH [of m] Cons.prems by (simp add: a)
    then have "length (concat (map (\<lambda>k. kf_work ops st fin (off + k * (fstride * in_stride)) (fstride * p) in_stride fs) [0..<p])) = p * m"
      by (intro length_concat_blocks)
    then show ?thesis using Cons.prems False by (simp only: a kf_work.simps Let_def length_kf_bfly if_False factors_of.simps)
  qed
qed simp

lemma kiss_fft_alloc_Some:
  assumes "0 < n" and "memneeded n \<le> lenmem"
  shows "\<exists>st. kiss_fft_alloc cexp n invert lenmem = Some st \<and> nfft st = n \<and> length (kiss_fft ops st fin) = n"
proof -
  obtain fs where fs: "kf_factor n = Some fs" "factors_of n fs"
    using factor_from_result [OF assms(1), of 4 "floor_sqrt n"] by (auto simp: kf_factor_def)
  then show ?thesis using assms(2)
    by (simp add: kiss_fft_alloc_def kiss_fft_def kiss_fft_stride_def length_kf_work)
qed

lemma sum_lessThan_add: "(\<Sum>i<a + p. f i) = (\<Sum>i<a. f i) + (\<Sum>q<p. f (q + a))" for f :: "nat \<Rightarrow> complex"
  by (induction p) (simp_all add: ac_simps)

lemma sum_columns: "(\<Sum>q<p. \<Sum>j<m. f (q + j * p)) = (\<Sum>i<p * m. f i)" for f :: "nat \<Rightarrow> complex"
proof -
  have "(\<Sum>j<m. \<Sum>q<p. f (q + j * p)) = (\<Sum>i<m * p. f i)"
  proof (induction m)
    case (Suc m)
    then show ?case using sum_lessThan_add [of f "m * p" p] by (simp add: add.commute)
  qed simp
  then show ?thesis by (simp add: sum.swap [of _ "{..<m}"] mult.commute)
qed

lemma kf_work_result:
  assumes "exact_state st"
  shows "factors_of n fs \<Longrightarrow> nfft st = fstride * n \<Longrightarrow>
    length (kf_work exact_ops st fin off fstride in_stride fs) = n \<and>
    (\<forall>k < n. to_c (kf_work exact_ops st fin off fstride in_stride fs ! k) =
      (\<Sum>j<n. to_c (fin ! (off + j * (fstride * in_stride))) * twiddle (inverse st) n (j * k)))"
proof (induction fs arbitrary: n off fstride)
  case (Cons a fs)
  obtain p m where a: "a = (p, m)" by fastforce
  have n: "n = p * m" and p: "0 < p" using Cons.prems(1) by (simp_all add: a)
  have n0: "0 < n" using Cons.prems(2) assms by (auto simp: exact_state_def)
  have N: "nfft st = fstride * (p * m)" using Cons.prems(2) n by simp
  have f0: "0 < fstride" using N assms by (auto simp: exact_state_def intro: Nat.gr0I)
  define X where "X i = to_c (fin ! (off + i * (fstride * in_stride)))" for i
  let ?block = "\<lambda>q. kf_work exact_ops st fin (off + q * (fstride * in_stride)) (fstride * p) in_stride fs"
  define F where "F = (if m = 1 then map (\<lambda>k. fin ! (off + k * (fstride * in_stride))) [0..<p] else concat (map ?block [0..<p]))"
  have F: "length F = n \<and> (\<forall>u < m. \<forall>q < p. to_c (F ! (u + q * m)) = (\<Sum>j<m. X (q + j * p) * twiddle (inverse st) m (j * u)))"
  proof (cases "m = 1")
    case True
    then show ?thesis by (simp add: F_def n X_def)
  next
    case False
    then have fs: "factors_of m fs" using Cons.prems(1) by (simp add: a)
    have IH: "length (?block q) = m" "u < m \<Longrightarrow> to_c (?block q ! u) = (\<Sum>j<m. X (q + j * p) * twiddle (inverse st) m (j * u))" for q u
      using Cons.IH [OF fs, of "fstride * p" "off + q * (fstride * in_stride)"] N
      by (simp_all add: X_def algebra_simps)
    have "length F = n" unfolding F_def using False length_concat_blocks [of p ?block m] IH(1) n by simp
    moreover have "to_c (F ! (u + q * m)) = (\<Sum>j<m. X (q + j * p) * twiddle (inverse st) m (j * u))" if "u < m" "q < p" for u q
      unfolding F_def using False nth_concat_blocks [of p ?block m q u] IH that by simp
    ultimately show ?thesis by blast
  qed
  have work: "kf_work exact_ops st fin off fstride in_stride (a # fs) = kf_bfly exact_ops F fstride st m p"
    by (simp add: a F_def Let_def)
  have "to_c (kf_bfly exact_ops F fstride st m p ! k) = (\<Sum>j<n. X j * twiddle (inverse st) n (j * k))" if k: "k < n" for k
  proof -
    have m0: "0 < m" using n n0 by (auto intro: Nat.gr0I)
    define u where "u = k mod m"
    define q1 where "q1 = k div m"
    have ku: "k = u + q1 * m" "u < m" "q1 < p"
      using k n m0 by (simp_all add: u_def q1_def less_mult_imp_div_less)
    have fine: "twiddle (inverse st) m (j * u) = twiddle (inverse st) n (p * (j * k))" for j
    proof -
      have "twiddle (inverse st) m (j * k) = twiddle (inverse st) m (j * u + m * (j * q1))"
        by (simp add: ku(1) algebra_simps)
      also have "\<dots> = twiddle (inverse st) m (j * u)"
        by (simp only: twiddle_add twiddle_mult [of _ m m] twiddle_period [OF m0]) simp
      finally show ?thesis using twiddle_scale [OF p, of "inverse st" m "j * k"] n by simp
    qed
    have coarse: "twiddle (inverse st) (nfft st) (fstride * k * q) = twiddle (inverse st) n (k * q)" for q
      using twiddle_scale [OF f0, of "inverse st" n "k * q"] N n by (simp add: mult.assoc)
    have "to_c (kf_bfly exact_ops F fstride st m p ! k) = radix_sum st fstride m p u (column p m u F) q1"
      unfolding ku(1) using F n by (intro kf_bfly_nth [OF N assms _ ku(2,3)]) simp
    also have "\<dots> = (\<Sum>q<p. (\<Sum>j<m. X (q + j * p) * twiddle (inverse st) n (p * (j * k))) * twiddle (inverse st) n (k * q))"
      unfolding radix_sum_def ku(1) [symmetric] coarse
      using F ku(2) by (intro sum.cong refl) (simp add: column_nth fine)
    also have "\<dots> = (\<Sum>q<p. \<Sum>j<m. X (q + j * p) * twiddle (inverse st) n ((q + j * p) * k))"
      unfolding sum_distrib_right
      by (intro sum.cong refl) (simp add: twiddle_add [symmetric] mult.assoc algebra_simps)
    also have "\<dots> = (\<Sum>j<n. X j * twiddle (inverse st) n (j * k))"
      unfolding n by (rule sum_columns)
    finally show ?thesis .
  qed
  then show ?case unfolding work using F by (simp add: X_def)
qed simp

text \<open>
  C29: with exact arithmetic and exact twiddles the fast transform computes the discrete Fourier
  transform of its input, forward or inverse, for every size.
\<close>

theorem kiss_fft_computes_dft:
  assumes "0 < n" and "length fin = n" and "memneeded n \<le> lenmem"
  shows "\<exists>st. kiss_fft_alloc exact_cexp n invert lenmem = Some st \<and>
    map to_c (kiss_fft exact_ops st fin) = dft invert (map to_c fin)"
proof -
  obtain fs where fs: "kf_factor n = Some fs" "factors_of n fs"
    using factor_from_result [OF assms(1), of 4 "floor_sqrt n"] by (auto simp: kf_factor_def)
  let ?st = "\<lparr>nfft = n, inverse = invert, factors = fs, twiddles = map (exact_cexp n invert) [0..<n]\<rparr>"
  have alloc: "kiss_fft_alloc exact_cexp n invert lenmem = Some ?st"
    using assms(3) fs(1) by (simp add: kiss_fft_alloc_def)
  have st: "exact_state ?st" using assms(1) by (simp add: exact_state_def)
  have "map to_c (kiss_fft exact_ops ?st fin) = dft invert (map to_c fin)"
    using kf_work_result [OF st fs(2), of 1 fin 0 1] assms(2)
    by (intro nth_equalityI) (simp_all add: kiss_fft_def kiss_fft_stride_def dft_def)
  then show ?thesis using alloc by blast
qed

theorem kiss_fft_computes_dft_witness:
  "\<exists>st. kiss_fft_alloc exact_cexp 6 False 1000 = Some st \<and>
    map to_c (kiss_fft exact_ops st (replicate 6 \<lparr>cpx_r = 1, cpx_i = 0\<rparr>)) = dft False (map to_c (replicate 6 \<lparr>cpx_r = 1, cpx_i = 0\<rparr>))"
  by (rule kiss_fft_computes_dft) (simp_all add: memneeded_def uadd_def umul_def usub_def)

end
