(* ===== verification/Algorithms.thy ===== *)
theory Algorithms
  imports Stream_Meta Kiss_Fft
begin

text \<open>
  The numerical routines of \<^verbatim>\<open>libanalyze/src/Algorithms.h\<close> and the accessor iterators of
  \<^verbatim>\<open>libanalyze/src/Utilities.h\<close>, on lists of IEEE single precision values: the range
  \<^verbatim>\<open>[begin, end)\<close> is the list. A routine that is generic in the data point takes the point's
  \<^verbatim>\<open>ampere\<close> as a parameter.

  The lemmas show that a root mean square is never negative, that the distance of a sample to
  itself is zero and distances are symmetric, which sample the search for a zero crossing
  finds and when it leaves the range, and for which base frequencies the search for harmonics
  is defined.
\<close>

section \<open>Single precision\<close>

abbreviation f_add :: "f32 \<Rightarrow> f32 \<Rightarrow> f32" where "f_add \<equiv> fl_add binary32"
abbreviation f_sub :: "f32 \<Rightarrow> f32 \<Rightarrow> f32" where "f_sub \<equiv> fl_sub binary32"
abbreviation f_mul :: "f32 \<Rightarrow> f32 \<Rightarrow> f32" where "f_mul \<equiv> fl_mul binary32"
abbreviation f_div :: "f32 \<Rightarrow> f32 \<Rightarrow> f32" where "f_div \<equiv> fl_div binary32"
abbreviation f_sqrt :: "f32 \<Rightarrow> f32" where "f_sqrt \<equiv> fl_sqrt binary32"
abbreviation f_of_int :: "int \<Rightarrow> f32" where "f_of_int \<equiv> fl_of_int binary32"

section \<open>Accessor iterators\<close>

definition makeAmpereIterator :: "('a \<Rightarrow> f32) \<Rightarrow> 'a list \<Rightarrow> f32 list" where
  "makeAmpereIterator ampere points = map ampere points"

definition makeVoltageIterator :: "('a \<Rightarrow> f32) \<Rightarrow> 'a list \<Rightarrow> f32 list" where
  "makeVoltageIterator volt points = map volt points"

section \<open>Sums\<close>

fun sum_squares :: "f32 \<Rightarrow> f32 list \<Rightarrow> f32" where
  "sum_squares result [] = result"
| "sum_squares result (x # xs) = sum_squares (f_add result (f_mul x x)) xs"

definition rootMeanSquare :: "f32 list \<Rightarrow> f32" where
  "rootMeanSquare xs =
     f_sqrt (f_div (sum_squares fl_zero xs) (f_of_int (int (length xs))))"

definition rootMeanSquareOfAmpere :: "('a \<Rightarrow> f32) \<Rightarrow> 'a list \<Rightarrow> f32" where
  "rootMeanSquareOfAmpere ampere points = rootMeanSquare (makeAmpereIterator ampere points)"

fun sum_square_diffs :: "f32 \<Rightarrow> f32 list \<Rightarrow> f32 list \<Rightarrow> f32" where
  "sum_square_diffs result [] ys = result"
| "sum_square_diffs result (x # xs) [] = result"
| "sum_square_diffs result (x # xs) (y # ys) =
     (let dim_diff = f_sub x y in sum_square_diffs (f_add result (f_mul dim_diff dim_diff)) xs ys)"

definition euclideanDistance :: "f32 list \<Rightarrow> f32 list \<Rightarrow> f32" where
  "euclideanDistance xs ys =
     f_sqrt (f_div (sum_square_diffs fl_zero xs ys) (f_of_int (int (length xs))))"

definition mean :: "f32 list \<Rightarrow> f32" where
  "mean xs = f_div (foldl f_add fl_zero xs) (f_of_int (int (length xs)))"

text \<open>The loop of \<open>variance\<close>; the sum is not divided by the number of elements.\<close>

fun sum_deviations :: "f32 \<Rightarrow> f32 \<Rightarrow> f32 list \<Rightarrow> f32" where
  "sum_deviations m result [] = result"
| "sum_deviations m result (x # xs) =
     (let diff = f_sub x m in sum_deviations m (f_add result (f_mul diff diff)) xs)"

definition variance :: "f32 list \<Rightarrow> f32" where
  "variance xs = sum_deviations (mean xs) fl_zero xs"

section \<open>Harmonics\<close>

text \<open>
  One harmonic: the greatest real part around \<open>centre\<close>. An iterator before the beginning or
  past the end is undefined; on an empty range (radius zero) \<^verbatim>\<open>max_element\<close> returns the
  position itself.
\<close>

definition harmonic_at :: "f32 kiss_fft_cpx list \<Rightarrow> nat \<Rightarrow> nat \<Rightarrow> f32 res" where
  "harmonic_at data_points centre search_radius =
     (if centre < search_radius \<or> length data_points < centre + search_radius then Inl Undefined
      else case max_element (\<lambda>c1 c2. fl_less (fl_abs (cpx_r c1)) (fl_abs (cpx_r c2)))
                  (slice data_points (centre - search_radius) (2 * search_radius)) of
             Some m \<Rightarrow> Inr (fl_abs (cpx_r m))
           | None \<Rightarrow> (if centre < length data_points then Inr (fl_abs (cpx_r (data_points ! centre)))
                      else Inl Undefined))"

fun harmonics_from :: "f32 kiss_fft_cpx list \<Rightarrow> nat \<Rightarrow> nat \<Rightarrow> nat list \<Rightarrow> f32 list res" where
  "harmonics_from data_points base_frequency search_radius [] = Inr []"
| "harmonics_from data_points base_frequency search_radius (i # is) =
     res_bind (harmonic_at data_points (umul i base_frequency) search_radius) (\<lambda>harm.
     res_bind (harmonics_from data_points base_frequency search_radius is) (\<lambda>result.
     Inr (harm # result)))"

definition getHarmonics :: "f32 kiss_fft_cpx list \<Rightarrow> nat \<Rightarrow> nat \<Rightarrow> nat \<Rightarrow> f32 list res" where
  "getHarmonics data_points base_frequency number_of_harmonics search_radius =
     (let n = uadd number_of_harmonics 1
      in if uadd (umul base_frequency n) search_radius < length data_points
         then harmonics_from data_points base_frequency search_radius [2..<n + 1]
         else Inl Assert_failed)"

section \<open>Zero crossings\<close>

text \<open>
  The scan reads the element before it compares the iterator with the end, so it reads one
  element past a range in which the sign never changes. The result is a distance from \<open>begin\<close>.
\<close>

fun scan_sign :: "f32 \<Rightarrow> f32 list \<Rightarrow> nat \<Rightarrow> nat res" where
  "scan_sign factor [] i = Inl Undefined"
| "scan_sign factor (x # xs) i =
     (if fl_less fl_zero (f_mul factor x) then scan_sign factor xs (i + 1) else Inr i)"

definition getFirstZeroCrossing :: "f32 list \<Rightarrow> nat res" where
  "getFirstZeroCrossing xs =
     (case xs of [] \<Rightarrow> Inr 0
      | x # _ \<Rightarrow> scan_sign (if fl_less fl_zero x then fl_one else fl_neg fl_one) xs 0)"

text \<open>
  The loop over the crossings: \<open>pos\<close> is the current iterator, \<open>first\<close> the first crossing. Each
  round advances by \<open>skip\<close>, so with \<open>skip = 0\<close> it may stay where it is for ever.
\<close>

partial_function (option) crossings ::
  "f32 list \<Rightarrow> nat \<Rightarrow> nat \<Rightarrow> nat \<Rightarrow> nat \<Rightarrow> (nat \<times> nat) res option" where
  "crossings xs skip pos last_crossing n =
     (if skip < length xs - pos
      then (case getFirstZeroCrossing (drop (pos + skip) xs) of
              Inl e \<Rightarrow> Some (Inl e)
            | Inr i \<Rightarrow> crossings xs skip (pos + skip + i) pos (uadd n 1))
      else Some (Inr (last_crossing, n)))"

definition calculateExactBaseFrequency :: "f32 list \<Rightarrow> nat \<Rightarrow> nat \<Rightarrow> f32 res option" where
  "calculateExactBaseFrequency xs rate skip_after_crossing =
     (case getFirstZeroCrossing xs of
        Inl e \<Rightarrow> Some (Inl e)
      | Inr first \<Rightarrow> map_option (res_map (\<lambda>(last_crossing, n).
          f_div (f_div (f_of_int (int (umul rate (usub n 1))))
                       (f_of_int (int last_crossing - int first)))
                (f_of_int 2)))
          (crossings xs skip_after_crossing first first 0))"

section \<open>Facts\<close>

lemma rootMeanSquare_not_neg: "fl_not_neg (rootMeanSquare xs)"
  by (simp add: rootMeanSquare_def)

lemma fl_neg_neg [simp]: "fl_neg (fl_neg a) = a"
  by (cases a) simp_all

lemma fl_mul_neg_neg [simp]: "fl_mul fmt (fl_neg a) (fl_neg b) = fl_mul fmt a b"
  by (cases a; cases b) auto

lemma fl_of_rat_neg: "v \<noteq> 0 \<Longrightarrow> fl_of_rat fmt s (- v) = fl_neg (fl_of_rat fmt s v)"
  by (auto simp: fl_of_rat_def fl_round_def Let_def)

lemma fl_of_rat_sign: "v \<noteq> 0 \<Longrightarrow> fl_of_rat fmt s v = fl_of_rat fmt t v"
  by (simp add: fl_of_rat_def)

text \<open>Both ways round, a difference has the same square.\<close>

lemma fl_sub_square_sym: "fl_mul fmt (fl_sub fmt a b) (fl_sub fmt a b) = fl_mul fmt (fl_sub fmt b a) (fl_sub fmt b a)"
proof (cases "is_fin a \<and> is_fin b")
  case True
  then obtain s m t n where ab: "a = Fin s m" "b = Fin t n" by (cases a; cases b) auto
  let ?v = "fl_val a - fl_val b"
  have sub: "fl_sub fmt a b = fl_of_rat fmt (s \<and> \<not> t) ?v" "fl_sub fmt b a = fl_of_rat fmt (t \<and> \<not> s) (- ?v)"
    by (simp_all add: fl_sub_def ab)
  show ?thesis
  proof (cases "?v = 0")
    case True
    then show ?thesis by (simp add: sub fl_of_rat_def)
  next
    case False
    have "fl_sub fmt b a = fl_neg (fl_sub fmt a b)"
      unfolding sub using fl_of_rat_neg [OF False] fl_of_rat_sign [OF False] by metis
    then show ?thesis by simp
  qed
next
  case False
  then show ?thesis by (cases a; cases b) (auto simp: fl_sub_def)
qed

lemma sum_square_diffs_sym: "sum_square_diffs r xs ys = sum_square_diffs r ys xs"
proof (induction r xs ys rule: sum_square_diffs.induct)
  case (1 r ys)
  show ?case by (cases ys) simp_all
next
  case (3 r x xs y ys)
  then show ?case using fl_sub_square_sym [of binary32 x y] by (simp add: Let_def)
qed simp_all

lemma euclideanDistance_sym: "length xs = length ys \<Longrightarrow> euclideanDistance xs ys = euclideanDistance ys xs"
  by (simp add: euclideanDistance_def sum_square_diffs_sym)

lemma fl_sub_self: "is_fin a \<Longrightarrow> fl_sub fmt a a = fl_zero"
  by (cases a) (auto simp: fl_sub_def fl_of_rat_def)

lemma sum_square_diffs_self:
  "\<forall>x \<in> set xs. is_fin x \<Longrightarrow> sum_square_diffs fl_zero xs xs = fl_zero"
proof (induction xs)
  case Nil
  then show ?case by simp
next
  case (Cons x xs)
  have "f_add fl_zero (f_mul fl_zero fl_zero) = fl_zero" by (simp add: fl_of_rat_def fl_round_def)
  with Cons show ?case by (simp add: Let_def fl_sub_self)
qed

lemma f_of_int_one: "fl_of_rat binary32 False 1 = fl_one"
  by code_simp

lemma f_of_int_ge_one: "1 \<le> n \<Longrightarrow> \<not> fl_less (f_of_int n) fl_one"
  using fl_of_rat_mono [of 1 "of_int n" binary32 False False] f_of_int_one
  by (simp add: fl_of_int_def binary32_def)

lemma f_of_int_not_NaN: "f_of_int n \<noteq> NaN"
  by (simp add: fl_of_int_def fl_of_rat_def fl_round_def Let_def)

lemma f_of_int_wf: "fl_wf binary32 (f_of_int n)"
  by (simp add: fl_of_int_def binary32_def)

lemma f_div_zero: "1 \<le> n \<Longrightarrow> f_div fl_zero (f_of_int n) = Fin (fl_less (f_of_int n) fl_zero) 0"
  using f_of_int_ge_one [of n] f_of_int_not_NaN [of n] f_of_int_wf [of n]
  by (cases "f_of_int n") (auto dest: representable_nonneg simp: fl_round_def split: if_splits)

lemma euclideanDistance_self:
  assumes "xs \<noteq> []" and "\<forall>x \<in> set xs. is_fin x"
  shows "fl_eq (euclideanDistance xs xs) fl_zero"
  using assms by (simp add: euclideanDistance_def sum_square_diffs_self f_div_zero Suc_leI)

text \<open>What the scan for a sign change returns.\<close>

lemma scan_sign_result:
  "scan_sign f xs i =
     (case find_index (\<lambda>x. \<not> fl_less fl_zero (f_mul f x)) xs of
        Some j \<Rightarrow> Inr (i + j) | None \<Rightarrow> Inl Undefined)"
  by (induction xs arbitrary: i) (auto split: option.splits)

definition sign_factor :: "f32 \<Rightarrow> f32" where
  "sign_factor x = (if fl_less fl_zero x then fl_one else fl_neg fl_one)"

lemma getFirstZeroCrossing_result:
  "getFirstZeroCrossing xs =
     (if xs = [] then Inr 0
      else case find_index (\<lambda>x. \<not> fl_less fl_zero (f_mul (sign_factor (hd xs)) x)) xs of
        Some j \<Rightarrow> Inr j | None \<Rightarrow> Inl Undefined)"
  by (simp add: getFirstZeroCrossing_def scan_sign_result sign_factor_def split: list.splits option.splits)

text \<open>A harmonic: defined around centres at least a radius away from both ends.\<close>

lemma harmonic_at_result:
  assumes "0 < search_radius" and "search_radius \<le> centre" and "centre + search_radius \<le> length data"
  shows "\<exists>c \<in> set (slice data (centre - search_radius) (2 * search_radius)).
     harmonic_at data centre search_radius = Inr (fl_abs (cpx_r c))"
proof -
  let ?xs = "slice data (centre - search_radius) (2 * search_radius)"
  let ?lt = "\<lambda>c1 c2. fl_less (fl_abs (cpx_r c1)) (fl_abs (cpx_r c2))"
  have "length ?xs = 2 * search_radius" using assms by (intro length_slice_full) simp
  then obtain c cs where xs: "?xs = c # cs" using assms(1) by (cases ?xs) auto
  then have "max_element ?lt ?xs = Some (max_elem_from ?lt c cs)" by (simp add: max_element_def)
  moreover have "max_elem_from ?lt c cs \<in> set ?xs" using max_elem_from_mem [of ?lt c cs] by (simp add: xs)
  ultimately show ?thesis using assms by (auto simp: harmonic_at_def)
qed

lemma harmonics_from_result:
  "\<forall>i \<in> set is. \<exists>h. harmonic_at data (umul i base) radius = Inr h \<Longrightarrow>
     \<exists>hs. harmonics_from data base radius is = Inr hs \<and> length hs = length is \<and>
       (\<forall>k < length is. harmonic_at data (umul (is ! k) base) radius = Inr (hs ! k))"
proof (induction "is")
  case Nil
  then show ?case by simp
next
  case (Cons i "is")
  then obtain h hs where "harmonic_at data (umul i base) radius = Inr h"
    "harmonics_from data base radius is = Inr hs" "length hs = length is"
    "\<forall>k < length is. harmonic_at data (umul (is ! k) base) radius = Inr (hs ! k)"
    by fastforce
  then show ?case by (auto simp: nth_Cons split: nat.splits)
qed

lemma getHarmonics_result:
  assumes "base * (n + 1) + radius < length data" and "length data < 2 ^ 64" and "0 < radius" and "radius \<le> 2 * base"
  shows "\<exists>hs. getHarmonics data base n radius = Inr hs \<and> length hs = n \<and>
     (\<forall>k < n. harmonic_at data ((k + 2) * base) radius = Inr (hs ! k))"
proof -
  have base: "0 < base" using assms(3,4) by simp
  then have "n + 1 \<le> base * (n + 1)" using mult_le_mono1 [of 1 base "n + 1"] by simp
  then have small: "n + 1 < 2 ^ 64" "base * (n + 1) < 2 ^ 64" "base * (n + 1) + radius < 2 ^ 64"
    using assms(1,2) by linarith+
  have test: "getHarmonics data base n radius = harmonics_from data base radius [2..<n + 2]"
    using small assms(1) by (simp add: getHarmonics_def Let_def uadd_small umul_small)
  have mul: "umul i base = i * base" "2 * base \<le> i * base" "i * base \<le> base * (n + 1)" if "i \<in> set [2..<n + 2]" for i
  proof -
    have i: "2 \<le> i" "i \<le> n + 1" using that by auto
    from mult_le_mono1 [OF i(2), of base] show le: "i * base \<le> base * (n + 1)"
      by (simp only: mult.commute)
    show "umul i base = i * base" using le small(2) by (intro umul_small) linarith
    show "2 * base \<le> i * base" using i(1) by (rule mult_le_mono1)
  qed
  have "\<exists>h. harmonic_at data (umul i base) radius = Inr h" if "i \<in> set [2..<n + 2]" for i
  proof -
    have "radius \<le> i * base" "i * base + radius \<le> length data"
      using mul(2,3) [OF that] assms(1,4) by linarith+
    from harmonic_at_result [OF assms(3) this] mul(1) [OF that] show ?thesis by auto
  qed
  then obtain hs where hs: "harmonics_from data base radius [2..<n + 2] = Inr hs" "length hs = length [2..<n + 2]"
    "\<forall>k < length [2..<n + 2]. harmonic_at data (umul ([2..<n + 2] ! k) base) radius = Inr (hs ! k)"
    using harmonics_from_result [of "[2..<n + 2]" data base radius] by blast
  have len: "length [2..<n + 2] = n" by (simp del: upt_Suc)
  have "harmonic_at data ((k + 2) * base) radius = Inr (hs ! k)" if "k < n" for k
  proof -
    have "[2..<n + 2] ! k = k + 2" using that by (subst nth_upt) simp_all
    moreover have "umul (k + 2) base = (k + 2) * base" by (rule mul(1)) (use that in \<open>simp del: upt_Suc\<close>)
    moreover have "harmonic_at data (umul ([2..<n + 2] ! k) base) radius = Inr (hs ! k)"
      using hs(3) that unfolding len by blast
    ultimately show ?thesis by (simp only:)
  qed
  with hs(1,2) test len show ?thesis by (simp del: upt_Suc)
qed

text \<open>The loop over the crossings ends when every round skips at least one sample.\<close>

lemma crossings_returns: "0 < skip \<Longrightarrow> \<exists>r. crossings xs skip pos last_crossing n = Some r"
proof (induction "length xs - pos" arbitrary: pos last_crossing n rule: less_induct)
  case less
  show ?case
  proof (cases "skip < length xs - pos")
    case False
    then show ?thesis by (subst crossings.simps) simp
  next
    case True
    show ?thesis
    proof (cases "getFirstZeroCrossing (drop (pos + skip) xs)")
      case (Inl e)
      then show ?thesis using True by (subst crossings.simps) simp
    next
      case (Inr i)
      have "length xs - (pos + skip + i) < length xs - pos" using True less.prems by simp
      from less.hyps [OF this less.prems] show ?thesis
        using True Inr by (subst crossings.simps) simp
    qed
  qed
qed

text \<open>A root mean square of finite samples is a number, though it may overflow to infinity.\<close>

definition fl_number_not_neg :: "fl \<Rightarrow> bool" where
  "fl_number_not_neg a \<longleftrightarrow> a = Inf False \<or> (\<exists>m. a = Fin False m \<and> 0 \<le> m)"

lemma number_round: "0 \<le> q \<Longrightarrow> fl_number_not_neg (fl_round fmt False q)"
  by (auto simp: fl_number_not_neg_def fl_round_def Let_def round_mag_nonneg)

lemma number_square: "is_fin a \<Longrightarrow> fl_number_not_neg (fl_mul fmt a a)"
  by (cases a) (auto intro: number_round)

lemma number_add: "fl_number_not_neg a \<Longrightarrow> fl_number_not_neg b \<Longrightarrow> fl_number_not_neg (fl_add fmt a b)"
  using number_round [of _ fmt]
  by (cases a; cases b) (auto simp: fl_number_not_neg_def fl_of_rat_def)

lemma sum_squares_number:
  "fl_number_not_neg r \<Longrightarrow> \<forall>x \<in> set xs. is_fin x \<Longrightarrow> fl_number_not_neg (sum_squares r xs)"
  by (induction xs arbitrary: r) (simp_all add: number_add number_square)

lemma f_of_int_finite:
  assumes "1 \<le> n" and "n < 2 ^ 64"
  shows "\<exists>m. f_of_int n = Fin False m \<and> 0 < m"
proof -
  have "rat_of_int n \<le> of_int (2 ^ 64)" using assms(2) by (subst of_int_le_iff) simp
  also have "\<dots> = 2 powi 64" by simp
  finally have "round_mag binary32 (of_int n) \<le> 2 powi 64"
    using assms(1) by (intro round_mag_le_powi) (simp_all add: binary32_def)
  moreover have "(2::rat) powi 64 < 2 powi (emax binary32 + 1)" by (simp add: powi_less_iff binary32_def)
  ultimately have "\<not> 2 powi (emax binary32 + 1) \<le> round_mag binary32 (of_int n)" by linarith
  then have fin: "f_of_int n = Fin False (round_mag binary32 (of_int n))"
    using assms(1) by (simp add: fl_of_int_def fl_of_rat_def fl_round_def)
  then have "1 \<le> round_mag binary32 (of_int n)" using f_of_int_ge_one [OF assms(1)] by simp
  with fin show ?thesis by auto
qed

lemma rootMeanSquare_number:
  assumes "xs \<noteq> []" and "\<forall>x \<in> set xs. is_fin x" and "length xs < 2 ^ 64"
  shows "rootMeanSquare xs \<noteq> NaN"
proof -
  obtain m where m: "f_of_int (int (length xs)) = Fin False m" "0 < m"
    using f_of_int_finite [of "int (length xs)"] assms(1,3) by (auto simp: Suc_leI)
  have "fl_number_not_neg (sum_squares fl_zero xs)"
    using assms(2) by (intro sum_squares_number) (auto simp: fl_number_not_neg_def)
  then consider "sum_squares fl_zero xs = Inf False" | r where "sum_squares fl_zero xs = Fin False r" "0 \<le> r"
    by (auto simp: fl_number_not_neg_def)
  then show ?thesis
  proof cases
    case 1
    then show ?thesis by (simp add: rootMeanSquare_def m)
  next
    case (2 r)
    then have "fl_number_not_neg (f_div (sum_squares fl_zero xs) (f_of_int (int (length xs))))"
      using m number_round [of "r / m" binary32] by simp
    then show ?thesis by (auto simp: rootMeanSquare_def fl_number_not_neg_def split: if_splits)
  qed
qed

section \<open>Properties\<close>

text \<open>
  The distance of two feature vectors of the same length is symmetric, the distance of a
  finite vector to itself is zero, and neither a distance nor a root mean square is negative.
\<close>

theorem distance_laws:
  assumes "length xs = length ys" and "ys \<noteq> []" and "\<forall>y \<in> set ys. is_fin y"
  shows "euclideanDistance xs ys = euclideanDistance ys xs \<and> fl_eq (euclideanDistance ys ys) fl_zero
    \<and> fl_not_neg (euclideanDistance xs ys) \<and> fl_not_neg (rootMeanSquare xs)"
  using euclideanDistance_sym [OF assms(1)] euclideanDistance_self [OF assms(2,3)]
  by (simp add: rootMeanSquare_not_neg) (simp add: euclideanDistance_def)

theorem distance_laws_witness:
  "euclideanDistance [fl_one] [Fin False 2] = euclideanDistance [Fin False 2] [fl_one]"
  using distance_laws [of "[fl_one]" "[Fin False 2]"] by simp

text \<open>
  C16: the search for a zero crossing returns the position of the first sample whose product
  with the sign of the first sample is not positive; in a range without such a sample it reads
  past the end.
\<close>

theorem first_zero_crossing:
  assumes "xs \<noteq> []"
  shows "(\<forall>i. getFirstZeroCrossing xs = Inr i \<longleftrightarrow>
      i < length xs \<and> \<not> fl_less fl_zero (f_mul (sign_factor (hd xs)) (xs ! i)) \<and>
      (\<forall>j < i. fl_less fl_zero (f_mul (sign_factor (hd xs)) (xs ! j)))) \<and>
    (getFirstZeroCrossing xs = Inl Undefined \<longleftrightarrow>
      (\<forall>x \<in> set xs. fl_less fl_zero (f_mul (sign_factor (hd xs)) x)))"
proof -
  let ?P = "\<lambda>x. \<not> fl_less fl_zero (f_mul (sign_factor (hd xs)) x)"
  have r: "getFirstZeroCrossing xs = (case find_index ?P xs of Some j \<Rightarrow> Inr j | None \<Rightarrow> Inl Undefined)"
    using assms by (simp add: getFirstZeroCrossing_result)
  show ?thesis
  proof (cases "find_index ?P xs")
    case None
    then show ?thesis using r find_index_None_iff [of ?P xs] by auto
  next
    case (Some j)
    note j = find_index_SomeD [OF Some]
    have "i = j" if "i < length xs" "?P (xs ! i)" "\<forall>k < i. \<not> ?P (xs ! k)" for i
      using j that by (metis linorder_neqE_nat)
    moreover have res: "getFirstZeroCrossing xs = Inr j" using r Some by simp
    moreover have "xs ! j \<in> set xs" using j by simp
    ultimately show ?thesis using j by (metis Inl_Inr_False sum.inject(2))
  qed
qed

theorem first_zero_crossing_witness:
  "getFirstZeroCrossing [fl_one, Fin False 2, Fin True 1] = Inr 2
     \<and> getFirstZeroCrossing [fl_one] = Inl Undefined"
proof -
  have m: "f_mul fl_one fl_one = fl_one" "f_mul fl_one (Fin False 2) = Fin False 2"
    "f_mul fl_one (Fin True 1) = Fin True 1" by code_simp+
  show ?thesis
    using first_zero_crossing [of "[fl_one, Fin False 2, Fin True 1]"] first_zero_crossing [of "[fl_one]"]
    by (simp del: fl_mul.simps add: sign_factor_def m less_Suc_eq all_conj_distrib numeral_2_eq_2)
qed





end
