(* ===== verification/Event_Data.thy ===== *)
theory Event_Data
  imports Stream_Meta
begin

text \<open>
  The detected event and its meta data (\<^verbatim>\<open>event_detector/src/Event.h\<close>,
  \<^verbatim>\<open>event_detector/src/EventMetaData.h\<close>). An iterator pair of the class is the list of the
  points between the two; moving an iterator before the beginning or past the end of the data
  is undefined.
\<close>

record event_meta_data =
  event_time :: int
  event_id :: "nat option"
  event_label :: "f64 option"
  classification_certainty :: f32
  power_meta_data_of_event :: power_meta_data

definition EventMetaData :: "int \<Rightarrow> power_meta_data \<Rightarrow> event_meta_data" where
  "EventMetaData t m =
     \<lparr>event_time = t, event_id = None, event_label = None, classification_certainty = fl_zero,
      power_meta_data_of_event = m\<rparr>"

record 'a event =
  event_data :: "'a list"
  event_meta :: event_meta_data

definition eventDataToVector :: "'a list \<Rightarrow> 'a list" where
  "eventDataToVector points = points"

definition createEvent :: "event_meta_data \<Rightarrow> 'a list \<Rightarrow> nat option \<Rightarrow> 'a event" where
  "createEvent meta_data points new_id =
     \<lparr>event_data = eventDataToVector points, event_meta = meta_data\<lparr>event_id := new_id\<rparr>\<rparr>"

text \<open>The position of \<open>event_begin\<close>.\<close>

definition event_begin :: "'a event \<Rightarrow> nat res" where
  "event_begin ev =
     (let b = data_points_stored_before_event (power_meta_data_of_event (event_meta ev))
      in if 0 \<le> b \<and> b \<le> int (length (event_data ev)) then Inr (nat b) else Inl Undefined)"

text \<open>\<open>[before_event_begin, before_event_end)\<close> and \<open>[event_begin, event_end)\<close>.\<close>

definition before_event :: "'a event \<Rightarrow> 'a list res" where
  "before_event ev = res_map (\<lambda>b. take b (event_data ev)) (event_begin ev)"

definition during_event :: "'a event \<Rightarrow> 'a list res" where
  "during_event ev = res_map (\<lambda>b. drop b (event_data ev)) (event_begin ev)"

lemma event_parts:
  assumes "0 \<le> data_points_stored_before_event (power_meta_data_of_event (event_meta ev))"
    and "data_points_stored_before_event (power_meta_data_of_event (event_meta ev)) \<le> int (length (event_data ev))"
  shows "\<exists>xs ys. before_event ev = Inr xs \<and> during_event ev = Inr ys \<and> event_data ev = xs @ ys \<and>
    int (length xs) = data_points_stored_before_event (power_meta_data_of_event (event_meta ev))"
  using assms by (simp add: before_event_def during_event_def event_begin_def Let_def)

lemma createEvent_simps [simp]:
  "event_data (createEvent m points i) = points"
  "event_id (event_meta (createEvent m points i)) = i"
  "event_time (event_meta (createEvent m points i)) = event_time m"
  "event_label (event_meta (createEvent m points i)) = event_label m"
  "power_meta_data_of_event (event_meta (createEvent m points i)) = power_meta_data_of_event m"
  by (simp_all add: createEvent_def eventDataToVector_def)

lemma EventMetaData_simps [simp]:
  "event_time (EventMetaData t m) = t" "event_id (EventMetaData t m) = None"
  "event_label (EventMetaData t m) = None" "power_meta_data_of_event (EventMetaData t m) = m"
  by (simp_all add: EventMetaData_def)

end
