(* ===== verification/Label_Manager.thy ===== *)
theory Label_Manager
  imports Event_Data Cpp_Stream "HOL-Library.Multiset"
begin

text \<open>
  The event label manager (\<^verbatim>\<open>data_analyzer/src/EventLabelManager.h\<close>,
  \<^verbatim>\<open>data_analyzer/src/EventFeatures.h\<close>): the labelled and the unlabelled events, and the labels of
  a prerecorded data set, a \<^verbatim>\<open>std::set\<close> whose comparator takes times that differ by at most
  2.5 seconds for equal. The set is the list of its elements in order; what the tree's search
  finds is determined by the order, because the comparator is monotone along it.

  The interface \<open>tolerant_set\<close> states what such a set promises; it is interpreted on the labels.
  The lemmas show that the labels stay more than 2.5 seconds apart, which label an event gets,
  that no operation loses or duplicates an event, and that a file of labels that was written
  out is read back.
\<close>

section \<open>State\<close>

record event_features =
  event_meta_data :: event_meta_data
  feature_vector :: "f32 list"

definition EventFeatures :: "event_meta_data \<Rightarrow> f32 list \<Rightarrow> event_features" where
  "EventFeatures meta_data f_vect = \<lparr>event_meta_data = meta_data, feature_vector = f_vect\<rparr>"

record label_time_pair =
  pair_label :: f64
  pair_time :: int

record label_manager =
  labeled_events :: "event_features list"
  unlabeled_events :: "event_features list"
  labels :: "label_time_pair list"

definition EventLabelManager :: label_manager where
  "EventLabelManager = \<lparr>labeled_events = [], unlabeled_events = [], labels = []\<rparr>"

abbreviation feature_id :: "event_features \<Rightarrow> nat option" where
  "feature_id ev \<equiv> event_id (event_meta_data ev)"

definition set_label :: "f64 \<Rightarrow> event_features \<Rightarrow> event_features" where
  "set_label l ev = ev\<lparr>event_meta_data := (event_meta_data ev)\<lparr>event_label := Some l\<rparr>\<rparr>"

section \<open>The set of labels\<close>

text \<open>Times are microseconds.\<close>

definition accepted_time_difference :: int where
  "accepted_time_difference = 2500 * 1000"

definition compareLabels :: "label_time_pair \<Rightarrow> label_time_pair \<Rightarrow> bool" where
  "compareLabels l1 l2 \<longleftrightarrow> pair_time l1 + accepted_time_difference < pair_time l2"

text \<open>\<^verbatim>\<open>std::set\<close> with a comparator \<open>lt\<close>: search, and insertion unless an equivalent element is there.\<close>

definition set_lower_bound :: "('e \<Rightarrow> 'e \<Rightarrow> bool) \<Rightarrow> 'e \<Rightarrow> 'e list \<Rightarrow> 'e list" where
  "set_lower_bound lt k xs = dropWhile (\<lambda>e. lt e k) xs"

definition set_find :: "('e \<Rightarrow> 'e \<Rightarrow> bool) \<Rightarrow> 'e \<Rightarrow> 'e list \<Rightarrow> 'e option" where
  "set_find lt k xs =
     (case set_lower_bound lt k xs of [] \<Rightarrow> None | e # _ \<Rightarrow> if lt k e then None else Some e)"

definition set_insert :: "('e \<Rightarrow> 'e \<Rightarrow> bool) \<Rightarrow> 'e \<Rightarrow> 'e list \<Rightarrow> 'e list" where
  "set_insert lt k xs =
     (let front = takeWhile (\<lambda>e. \<not> lt k e) xs; rear = dropWhile (\<lambda>e. \<not> lt k e) xs
      in if front = [] \<or> lt (last front) k then front @ k # rear else xs)"

section \<open>Operations\<close>

definition labelIsForEvent :: "label_time_pair \<Rightarrow> event_features \<Rightarrow> bool" where
  "labelIsForEvent label_time ev =
     (let to_search = label_time\<lparr>pair_time := event_time (event_meta_data ev)\<rparr>
      in \<not> compareLabels to_search label_time \<and> \<not> compareLabels label_time to_search)"

text \<open>The searched pair has a time only; its label is not read.\<close>

definition getEventLabel :: "event_features \<Rightarrow> label_manager \<Rightarrow> f64 option" where
  "getEventLabel ev lm =
     (if labels lm = [] then None
      else map_option pair_label
        (set_find compareLabels \<lparr>pair_label = NaN, pair_time = event_time (event_meta_data ev)\<rparr> (labels lm)))"

definition addLabeledEvent :: "event_features \<Rightarrow> f64 \<Rightarrow> label_manager \<Rightarrow> label_manager" where
  "addLabeledEvent ev l lm = lm\<lparr>labeled_events := labeled_events lm @ [set_label l ev]\<rparr>"

definition addUnLabeledEvent :: "event_features \<Rightarrow> label_manager \<Rightarrow> label_manager" where
  "addUnLabeledEvent ev lm = lm\<lparr>unlabeled_events := unlabeled_events lm @ [ev]\<rparr>"

definition addClassifiedEvent :: "event_features \<Rightarrow> label_manager \<Rightarrow> label_manager" where
  "addClassifiedEvent ev lm = lm\<lparr>unlabeled_events := unlabeled_events lm @ [ev]\<rparr>"

definition addClassifiedEvent_label :: "event_features \<Rightarrow> f64 \<Rightarrow> label_manager \<Rightarrow> label_manager" where
  "addClassifiedEvent_label ev l lm = lm\<lparr>unlabeled_events := unlabeled_events lm @ [set_label l ev]\<rparr>"

definition findLabelAndAddEvent :: "event_features \<Rightarrow> label_manager \<Rightarrow> bool \<times> label_manager" where
  "findLabelAndAddEvent ev lm =
     (let opt_label = (if event_label (event_meta_data ev) = None then getEventLabel ev lm else None)
      in case opt_label of
           Some l \<Rightarrow> (True, addLabeledEvent ev l lm)
         | None \<Rightarrow> (False, lm))"

text \<open>The event at \<open>i\<close> leaves the unlabelled events and joins the labelled ones.\<close>

definition move_to_labeled :: "nat \<Rightarrow> f64 \<Rightarrow> label_manager \<Rightarrow> label_manager" where
  "move_to_labeled i l lm =
     (addLabeledEvent (unlabeled_events lm ! i) l lm)\<lparr>unlabeled_events := swap_pop (unlabeled_events lm) i\<rparr>"

definition addLabel_time :: "label_time_pair \<Rightarrow> label_manager \<Rightarrow> bool \<times> label_manager" where
  "addLabel_time l lm =
     (case find_index (labelIsForEvent l) (unlabeled_events lm) of
        Some i \<Rightarrow> (True, move_to_labeled i (pair_label l) lm)
      | None \<Rightarrow> (False, lm))"

definition addLabel_id :: "nat \<Rightarrow> f64 \<Rightarrow> label_manager \<Rightarrow> bool \<times> label_manager" where
  "addLabel_id eid l lm =
     (case find_index (\<lambda>ev. feature_id ev = Some eid) (unlabeled_events lm) of
        Some i \<Rightarrow> (True, move_to_labeled i l lm)
      | None \<Rightarrow>
          (case find_index (\<lambda>ev. feature_id ev = Some eid) (labeled_events lm) of
             Some i \<Rightarrow> (True, lm\<lparr>labeled_events := (labeled_events lm)[i := set_label l (labeled_events lm ! i)]\<rparr>)
           | None \<Rightarrow> (False, lm)))"

definition getEvent :: "nat \<Rightarrow> label_manager \<Rightarrow> event_features option" where
  "getEvent eid lm =
     map_option (\<lambda>i. unlabeled_events lm ! i)
       (find_index (\<lambda>ev. feature_id ev = Some eid) (unlabeled_events lm))"

definition setEvent :: "nat \<Rightarrow> event_features \<Rightarrow> label_manager \<Rightarrow> label_manager" where
  "setEvent eid ev lm =
     (case find_index (\<lambda>ev. feature_id ev = Some eid) (unlabeled_events lm) of
        Some i \<Rightarrow> lm\<lparr>unlabeled_events := (unlabeled_events lm)[i := ev]\<rparr>
      | None \<Rightarrow> lm)"

text \<open>
  The file of labels: lines of seconds since the epoch and a label. Every round of the loop
  reads one; a round that does not leave the stream good adds nothing and ends the loop. The
  fuel is the length of the text: a round that leaves the stream good has read something.
\<close>

definition read_label :: "istream \<Rightarrow> label_time_pair option \<times> istream" where
  "read_label s =
     (let (epoch, s1) = extract_signed (- (2 ^ 63)) (2 ^ 63 - 1) s;
          s2 = stream_ignore 10 (CHR '','') s1;
          (l, s3) = extract_float binary64 s2;
          s4 = stream_ignore 50 (CHR ''\<newline>'') s3
      in ((case (epoch, l) of (Some e, Some x) \<Rightarrow> Some \<lparr>pair_label = x, pair_time = e * 1000000\<rparr> | _ \<Rightarrow> None), s4))"

fun read_labels :: "nat \<Rightarrow> istream \<Rightarrow> label_time_pair list \<Rightarrow> label_time_pair list" where
  "read_labels 0 s ls = ls"
| "read_labels (Suc fuel) s ls =
     (case read_label s of
        (l, s') \<Rightarrow> if stream_good s' then
                     (case l of Some x \<Rightarrow> read_labels fuel s' (set_insert compareLabels x ls) | None \<Rightarrow> ls)
                   else ls)"

definition loadLabelsFromFile :: "string option \<Rightarrow> label_manager \<Rightarrow> label_manager" where
  "loadLabelsFromFile content lm =
     (case content of
        None \<Rightarrow> lm
      | Some text \<Rightarrow> lm\<lparr>labels := read_labels (length text + 1) (istringstream text) (labels lm)\<rparr>)"

section \<open>A set with a tolerant comparator\<close>

text \<open>
  The order is that of a key; elements are equivalent if neither is less. The invariant is that
  every element is less than all that follow it.
\<close>

locale tolerant_set =
  fixes lt :: "'e \<Rightarrow> 'e \<Rightarrow> bool"
    and key :: "'e \<Rightarrow> int"
    and tol :: int
  assumes lt_def: "lt a b \<longleftrightarrow> key a + tol < key b"
    and tol_nonneg: "0 \<le> tol"
begin

abbreviation invar :: "'e list \<Rightarrow> bool" where "invar \<equiv> sorted_wrt lt"

abbreviation close :: "'e \<Rightarrow> 'e \<Rightarrow> bool" where "close a b \<equiv> \<not> lt a b \<and> \<not> lt b a"

lemma close_iff: "close a b \<longleftrightarrow> \<bar>key a - key b\<bar> \<le> tol"
  by (auto simp: lt_def)

lemma lt_trans: "lt a b \<Longrightarrow> lt b c \<Longrightarrow> lt a c"
  using tol_nonneg by (simp add: lt_def)

lemma find_found:
  "invar xs \<Longrightarrow> set_find lt k xs = Some e \<Longrightarrow>
     e \<in> set xs \<and> close e k \<and> (\<forall>f \<in> set xs. close f k \<longrightarrow> key e \<le> key f)"
proof (induction xs)
  case Nil
  then show ?case by (simp add: set_find_def set_lower_bound_def)
next
  case (Cons x xs)
  show ?case
  proof (cases "lt x k")
    case True
    then have "set_find lt k xs = Some e" using Cons.prems(2) by (simp add: set_find_def set_lower_bound_def)
    then show ?thesis using Cons.IH Cons.prems(1) True by auto
  next
    case False
    then have "e = x" "\<not> lt k x" using Cons.prems(2) by (auto simp: set_find_def set_lower_bound_def split: if_splits)
    moreover have "\<forall>f \<in> set xs. key x \<le> key f" using Cons.prems(1) tol_nonneg by (auto simp: lt_def)
    ultimately show ?thesis using False by auto
  qed
qed

lemma find_none:
  "invar xs \<Longrightarrow> set_find lt k xs = None \<longleftrightarrow> (\<forall>e \<in> set xs. \<not> close e k)"
proof (induction xs)
  case Nil
  then show ?case by (simp add: set_find_def set_lower_bound_def)
next
  case (Cons x xs)
  show ?case
  proof (cases "lt x k")
    case True
    then have "set_find lt k (x # xs) = set_find lt k xs" by (simp add: set_find_def set_lower_bound_def)
    then show ?thesis using Cons True by auto
  next
    case False
    have "set_find lt k (x # xs) = (if lt k x then None else Some x)"
      using False by (simp add: set_find_def set_lower_bound_def)
    moreover have "\<forall>f \<in> set xs. lt k f" if "lt k x" using Cons.prems lt_trans [OF that] by auto
    ultimately show ?thesis using False by auto
  qed
qed

lemma insert_cases:
  assumes "invar xs"
  shows "if \<exists>e \<in> set xs. close e k then set_insert lt k xs = xs
    else \<exists>front rear. xs = front @ rear \<and> set_insert lt k xs = front @ k # rear \<and>
      (\<forall>e \<in> set front. lt e k) \<and> (\<forall>e \<in> set rear. lt k e)"
proof -
  let ?front = "takeWhile (\<lambda>e. \<not> lt k e) xs" and ?behind = "dropWhile (\<lambda>e. \<not> lt k e) xs"
  have xs: "xs = ?front @ ?behind" by simp
  have sorted: "sorted_wrt lt (?front @ ?behind)" using assms by simp
  have behind: "\<forall>e \<in> set ?behind. lt k e"
  proof (cases ?behind)
    case (Cons b bs)
    have kb: "lt k b" using hd_dropWhile [of "\<lambda>e. \<not> lt k e" xs] Cons by simp
    have "\<forall>e \<in> set bs. lt b e" using sorted unfolding Cons by (simp add: sorted_wrt_append)
    then show ?thesis using kb lt_trans [OF kb] unfolding Cons by auto
  next
    case Nil
    show ?thesis unfolding Nil by simp
  qed
  have front: "\<forall>e \<in> set ?front. \<not> lt k e" by (auto dest: set_takeWhileD)
  show ?thesis
  proof (cases "?front = [] \<or> lt (last ?front) k")
    case True
    have less: "\<forall>e \<in> set ?front. lt e k"
    proof
      fix e
      assume e: "e \<in> set ?front"
      then obtain ys z where ys: "?front = ys @ [z]" by (cases ?front rule: rev_cases) auto
      have z: "lt z k" using True unfolding ys by simp
      have "\<forall>y \<in> set ys. lt y z" using sorted unfolding ys by (simp add: sorted_wrt_append)
      moreover have "e \<in> set ys \<or> e = z" using e unfolding ys by auto
      ultimately show "lt e k" using z lt_trans [OF _ z] by blast
    qed
    have "set xs = set ?front \<union> set ?behind" by (metis set_append takeWhile_dropWhile_id)
    then have none: "\<not> (\<exists>e \<in> set xs. close e k)" using less behind by blast
    have "set_insert lt k xs = ?front @ k # ?behind" using True by (simp add: set_insert_def Let_def)
    then have "xs = ?front @ ?behind \<and> set_insert lt k xs = ?front @ k # ?behind \<and>
      (\<forall>e \<in> set ?front. lt e k) \<and> (\<forall>e \<in> set ?behind. lt k e)" using less behind xs by blast
    then show ?thesis unfolding if_not_P [OF none] by blast
  next
    case False
    then have ne: "?front \<noteq> []" "\<not> lt (last ?front) k" by auto
    then have "last ?front \<in> set ?front" by simp
    then have "last ?front \<in> set xs" "close (last ?front) k" using front ne(2) by (auto dest: set_takeWhileD)
    moreover have "set_insert lt k xs = xs" using False by (simp add: set_insert_def Let_def)
    ultimately show ?thesis by auto
  qed
qed

lemma invar_insert: "invar xs \<Longrightarrow> invar (set_insert lt k xs)"
  using insert_cases [of xs k] by (auto simp: sorted_wrt_append split: if_splits)

lemma set_set_insert:
  "invar xs \<Longrightarrow> set (set_insert lt k xs) = (if \<exists>e \<in> set xs. close e k then set xs else insert k (set xs))"
  using insert_cases [of xs k] by (auto split: if_splits)

end

interpretation label_set: tolerant_set compareLabels pair_time accepted_time_difference
  by unfold_locales (simp_all add: compareLabels_def accepted_time_difference_def)

section \<open>No operation loses an event\<close>

text \<open>An event up to its label.\<close>

definition unlabel :: "event_features \<Rightarrow> event_features" where
  "unlabel ev = ev\<lparr>event_meta_data := (event_meta_data ev)\<lparr>event_label := None\<rparr>\<rparr>"

definition all_events :: "label_manager \<Rightarrow> event_features multiset" where
  "all_events lm = mset (map unlabel (labeled_events lm @ unlabeled_events lm))"

lemma unlabel_set_label [simp]: "unlabel (set_label l ev) = unlabel ev"
  by (simp add: unlabel_def set_label_def)

lemma set_label_simps [simp]:
  "feature_id (set_label l ev) = feature_id ev" "event_label (event_meta_data (set_label l ev)) = Some l"
  "feature_vector (set_label l ev) = feature_vector ev"
  by (simp_all add: set_label_def)

lemma mset_swap_pop:
  assumes "i < length xs"
  shows "add_mset (xs ! i) (mset (swap_pop xs i)) = mset xs"
proof -
  obtain ys z where xs: "xs = ys @ [z]" using assms by (cases xs rule: rev_cases) auto
  show ?thesis
  proof (cases "i = length ys")
    case True
    then show ?thesis by (simp add: xs swap_pop_alt)
  next
    case False
    then have i: "i < length ys" using assms by (simp add: xs)
    then have "swap_pop xs i = ys[i := z]" by (simp add: xs swap_pop_alt)
    then show ?thesis using i by (simp add: xs nth_append mset_update)
  qed
qed

lemma move_to_labeled_events:
  assumes "i < length (unlabeled_events lm)"
  shows "all_events (move_to_labeled i l lm) = all_events lm"
proof -
  have "mset (map unlabel (unlabeled_events lm)) = image_mset unlabel (mset (unlabeled_events lm))" by simp
  also have "\<dots> = add_mset (unlabel (unlabeled_events lm ! i)) (image_mset unlabel (mset (swap_pop (unlabeled_events lm) i)))"
    by (simp flip: mset_swap_pop [OF assms])
  finally show ?thesis
    by (simp add: all_events_def move_to_labeled_def addLabeledEvent_def)
qed

lemma all_events_add [simp]:
  "all_events (addUnLabeledEvent ev lm) = add_mset (unlabel ev) (all_events lm)"
  "all_events (addClassifiedEvent ev lm) = add_mset (unlabel ev) (all_events lm)"
  "all_events (addClassifiedEvent_label ev l lm) = add_mset (unlabel ev) (all_events lm)"
  "all_events (addLabeledEvent ev l lm) = add_mset (unlabel ev) (all_events lm)"
  by (simp_all add: all_events_def addUnLabeledEvent_def addClassifiedEvent_def
      addClassifiedEvent_label_def addLabeledEvent_def)

lemma all_events_findLabel:
  "findLabelAndAddEvent ev lm = (b, lm') \<Longrightarrow>
     all_events lm' = (if b then add_mset (unlabel ev) (all_events lm) else all_events lm)"
  by (auto simp: findLabelAndAddEvent_def Let_def split: option.splits)

lemma all_events_addLabel_time: "all_events (snd (addLabel_time l lm)) = all_events lm"
  by (auto simp: addLabel_time_def move_to_labeled_events dest: find_index_SomeD split: option.split)

lemma all_events_addLabel_id: "all_events (snd (addLabel_id eid l lm)) = all_events lm"
proof (cases "find_index (\<lambda>ev. feature_id ev = Some eid) (unlabeled_events lm)")
  case (Some i)
  then show ?thesis by (auto simp: addLabel_id_def move_to_labeled_events dest: find_index_SomeD)
next
  case None
  show ?thesis
  proof (cases "find_index (\<lambda>ev. feature_id ev = Some eid) (labeled_events lm)")
    case (Some i)
    then have "i < length (labeled_events lm)" by (auto dest: find_index_SomeD)
    then have "map unlabel ((labeled_events lm)[i := set_label l (labeled_events lm ! i)]) = map unlabel (labeled_events lm)"
      by (intro nth_equalityI) (auto simp: nth_list_update)
    then show ?thesis using None Some by (simp add: addLabel_id_def all_events_def)
  qed (use None in \<open>simp add: addLabel_id_def\<close>)
qed

text \<open>Labels only grow by insertions, so they stay apart.\<close>

lemma read_labels_apart: "sorted_wrt compareLabels ls \<Longrightarrow> sorted_wrt compareLabels (read_labels fuel s ls)"
proof (induction fuel arbitrary: s ls)
  case 0
  then show ?case by simp
next
  case (Suc fuel)
  obtain l s' where r: "read_label s = (l, s')" by (cases "read_label s")
  then show ?case using Suc label_set.invar_insert by (cases l) simp_all
qed

lemma loadLabels_apart:
  "sorted_wrt compareLabels (labels lm) \<Longrightarrow> sorted_wrt compareLabels (labels (loadLabelsFromFile content lm))"
  by (cases content) (simp_all add: loadLabelsFromFile_def read_labels_apart del: read_labels.simps)

section \<open>Reading a file that was written out\<close>

definition label_line :: "nat \<Rightarrow> nat \<Rightarrow> string" where
  "label_line epoch l = decimal epoch @ CHR '','' # decimal l @ [CHR ''\<newline>'']"

definition label_text :: "(nat \<times> nat) list \<Rightarrow> string" where
  "label_text ps = concat (map (\<lambda>(epoch, l). label_line epoch l) ps)"

definition label_pair :: "nat \<times> nat \<Rightarrow> label_time_pair" where
  "label_pair = (\<lambda>(epoch, l). \<lparr>pair_label = Fin False (of_nat l), pair_time = int epoch * 1000000\<rparr>)"

lemma scan_float_digits:
  "\<forall>c \<in> set digits. isdigit c \<Longrightarrow> \<not> isdigit d \<Longrightarrow> d \<notin> {CHR ''.'', CHR ''e'', CHR ''E''} \<Longrightarrow>
     scan_float m p x (digits @ d # rest) = (digits, d # rest)"
  by (induction digits arbitrary: m) auto

lemma float_digits_decimal: "float_digits (decimal n) = Some (of_nat n)"
proof -
  have w: "takeWhile isdigit (decimal n) = decimal n" "dropWhile isdigit (decimal n) = []"
    using decimal_digits [of n] by (simp_all add: takeWhile_eq_all_conv)
  show ?thesis unfolding float_digits_def w by simp
qed

lemma representable_nat:
  assumes "n < 2 ^ 53"
  shows "representable binary64 (of_nat n)"
proof -
  have "rat_of_nat n < of_nat (2 ^ 53)" using assms by (subst of_nat_less_iff)
  also have "\<dots> \<le> 2 powi 53" by simp
  also have "\<dots> < 2 powi (emax binary64 + 1)" by (subst powi_less_iff) (simp add: binary64_def)
  finally have "rat_of_nat n < 2 powi (emax binary64 + 1)" .
  then show ?thesis unfolding representable_def using assms
    by (intro conjI exI [of _ n] exI [of _ 0]) (simp_all add: binary64_def)
qed

lemma extract_float_decimal:
  assumes "stream_good s" and "unread s = decimal n @ CHR ''\<newline>'' # rest" and "n < 2 ^ 53"
  shows "extract_float binary64 s = (Some (Fin False (of_nat n)), s\<lparr>unread := CHR ''\<newline>'' # rest, eofbit := False\<rparr>)"
proof -
  obtain c cs where d: "decimal n = c # cs" "c \<noteq> CHR ''-''" "c \<noteq> CHR ''+''" by (rule decimal_head)
  have sign: "split_sign (unread s) = (False, decimal n @ CHR ''\<newline>'' # rest)" using d assms(2) by simp
  have scan: "scan_float False False False (decimal n @ CHR ''\<newline>'' # rest) = (decimal n, CHR ''\<newline>'' # rest)"
    by (rule scan_float_digits [OF decimal_digits]) (auto simp: isdigit_def)
  have "fl_round binary64 False (of_nat n) = Fin False (of_nat n)"
    using fl_round_id [OF representable_nat [OF assms(3)]] by simp
  then show ?thesis using sentry_decimal [OF assms(1,2)] sign scan float_digits_decimal
    by (simp add: extract_float_def)
qed

lemma read_label_line:
  assumes "stream_good s" and "unread s = label_line epoch l @ rest" and "int epoch < 2 ^ 63" and "l < 2 ^ 53"
  shows "read_label s = (Some (label_pair (epoch, l)), s\<lparr>unread := rest, eofbit := False\<rparr>)"
proof -
  let ?r1 = "CHR '','' # decimal l @ CHR ''\<newline>'' # rest"
  have u: "unread s = decimal epoch @ ?r1" using assms(2) by (simp add: label_line_def)
  have e: "extract_signed (- (2 ^ 63)) (2 ^ 63 - 1) s = (Some (int epoch), s\<lparr>unread := ?r1, eofbit := False\<rparr>)"
    using extract_signed_decimal [OF assms(1) u, of "- (2 ^ 63)" "2 ^ 63 - 1"] assms(3) by (simp add: isdigit_def)
  let ?s2 = "s\<lparr>unread := decimal l @ CHR ''\<newline>'' # rest, eofbit := False\<rparr>"
  have g: "\<not> eofbit s" "\<not> failbit s" using assms(1) by (simp_all add: stream_good_def)
  have i1: "stream_ignore 10 (CHR '','') (s\<lparr>unread := ?r1, eofbit := False\<rparr>) = ?s2"
    using ignore_chars_delim [of "[]" 10 "CHR '',''"] g by (simp add: stream_ignore_def stream_good_def)
  have f: "extract_float binary64 ?s2 = (Some (Fin False (of_nat l)), ?s2\<lparr>unread := CHR ''\<newline>'' # rest, eofbit := False\<rparr>)"
    using g assms(4) by (intro extract_float_decimal) (simp_all add: stream_good_def)
  have i2: "stream_ignore 50 (CHR ''\<newline>'') (s\<lparr>unread := CHR ''\<newline>'' # rest, eofbit := False\<rparr>) = s\<lparr>unread := rest, eofbit := False\<rparr>"
    using ignore_chars_delim [of "[]" 50 "CHR ''\<newline>''"] g by (simp add: stream_ignore_def stream_good_def)
  show ?thesis using e i1 f i2 by (simp add: read_label_def label_pair_def)
qed

lemma read_label_end: "unread s = [] \<Longrightarrow> \<not> stream_good (snd (read_label s))"
proof -
  assume "unread s = []"
  then have "fst (sentry s) = False" "failbit (snd (sentry s))" by (auto simp: sentry_def)
  then obtain s1 where s1: "sentry s = (False, s1)" "failbit s1" by (metis prod.collapse)
  have "failbit (stream_ignore n d x)" if "failbit x" for n d x using that by (simp add: stream_ignore_def stream_good_def)
  moreover have "failbit (snd (extract_float f x))" if "failbit x" for f x
    using that by (simp add: extract_float_def sentry_def stream_good_def)
  ultimately show ?thesis using s1
    by (simp add: read_label_def extract_signed_def stream_good_def split: prod.split) (metis snd_conv)
qed

lemma read_labels_text:
  assumes "stream_good s" and "unread s = label_text ps" and "length ps < fuel"
    and "\<forall>(epoch, l) \<in> set ps. int epoch < 2 ^ 63 \<and> l < 2 ^ 53"
  shows "read_labels fuel s ls = foldl (\<lambda>ls x. set_insert compareLabels x ls) ls (map label_pair ps)"
  using assms
proof (induction ps arbitrary: fuel s ls)
  case Nil
  then obtain f where f: "fuel = Suc f" by (cases fuel) auto
  have "\<not> stream_good (snd (read_label s))" using read_label_end Nil by (simp add: label_text_def)
  then show ?case by (cases "read_label s") (simp add: f)
next
  case (Cons p ps)
  obtain epoch l where p: "p = (epoch, l)" by (cases p)
  obtain f where f: "fuel = Suc f" "length ps < f" using Cons.prems(3) by (cases fuel) auto
  let ?s = "s\<lparr>unread := label_text ps, eofbit := False\<rparr>"
  have "read_label s = (Some (label_pair (epoch, l)), ?s)"
    using Cons.prems(2,4) by (intro read_label_line [OF Cons.prems(1)]) (auto simp: p label_text_def)
  moreover have good: "stream_good ?s" using Cons.prems(1) by (simp add: stream_good_def)
  ultimately show ?case using Cons.IH [OF good _ f(2)] Cons.prems(4) by (simp add: f p)
qed

lemma insert_last: "\<forall>e \<in> set xs. compareLabels e k \<Longrightarrow> set_insert compareLabels k xs = xs @ [k]"
proof -
  assume a: "\<forall>e \<in> set xs. compareLabels e k"
  then have "\<forall>e \<in> set xs. \<not> compareLabels k e" by (auto simp: compareLabels_def accepted_time_difference_def)
  then have w: "takeWhile (\<lambda>e. \<not> compareLabels k e) xs = xs" "dropWhile (\<lambda>e. \<not> compareLabels k e) xs = []"
    by (simp_all add: takeWhile_eq_all_conv)
  show ?thesis unfolding set_insert_def w using a by (cases "xs = []") simp_all
qed

lemma insert_all:
  "sorted_wrt compareLabels (ls @ ks) \<Longrightarrow> foldl (\<lambda>ls x. set_insert compareLabels x ls) ls ks = ls @ ks"
proof (induction ks arbitrary: ls)
  case Nil
  then show ?case by simp
next
  case (Cons k ks)
  have "\<forall>e \<in> set ls. compareLabels e k" using Cons.prems by (simp add: sorted_wrt_append)
  then show ?case using Cons.IH [of "ls @ [k]"] Cons.prems by (simp add: insert_last)
qed

lemma length_label_text: "length ps \<le> length (label_text ps)"
  by (induction ps) (auto simp: label_text_def label_line_def)

section \<open>Properties\<close>

text \<open>
  C18: the labels of a data set stay more than 2.5 seconds apart, whatever file is loaded, and a
  new label is kept exactly if no label within 2.5 seconds of it is there yet.
\<close>

theorem labels_stay_apart:
  assumes "sorted_wrt compareLabels (labels lm)"
  shows "sorted_wrt compareLabels (labels (loadLabelsFromFile content lm)) \<and>
    sorted_wrt compareLabels (set_insert compareLabels l (labels lm)) \<and>
    set (set_insert compareLabels l (labels lm)) =
      (if \<exists>e \<in> set (labels lm). \<bar>pair_time e - pair_time l\<bar> \<le> 2500000 then set (labels lm)
       else insert l (set (labels lm)))"
  using loadLabels_apart [OF assms] label_set.invar_insert [OF assms] label_set.set_set_insert [OF assms, of l]
  unfolding label_set.close_iff by (simp add: accepted_time_difference_def)

theorem labels_stay_apart_witness:
  "set (set_insert compareLabels \<lparr>pair_label = fl_one, pair_time = 1000000\<rparr> []) = {\<lparr>pair_label = fl_one, pair_time = 1000000\<rparr>}"
  using labels_stay_apart [of EventLabelManager None "\<lparr>pair_label = fl_one, pair_time = 1000000\<rparr>"]
  by (simp add: EventLabelManager_def)

text \<open>
  C19: an event gets the earliest label within 2.5 seconds of its time, and none exactly if
  there is no such label.
\<close>

theorem event_label_found:
  assumes "sorted_wrt compareLabels (labels lm)"
  shows "case getEventLabel ev lm of
      None \<Rightarrow> \<forall>e \<in> set (labels lm). 2500000 < \<bar>pair_time e - event_time (event_meta_data ev)\<bar>
    | Some x \<Rightarrow> \<exists>e \<in> set (labels lm). x = pair_label e \<and> \<bar>pair_time e - event_time (event_meta_data ev)\<bar> \<le> 2500000 \<and>
        (\<forall>f \<in> set (labels lm). \<bar>pair_time f - event_time (event_meta_data ev)\<bar> \<le> 2500000 \<longrightarrow> pair_time e \<le> pair_time f)"
proof -
  let ?k = "\<lparr>pair_label = NaN, pair_time = event_time (event_meta_data ev)\<rparr>"
  have g: "getEventLabel ev lm = map_option pair_label (set_find compareLabels ?k (labels lm))"
    by (simp add: getEventLabel_def set_find_def set_lower_bound_def)
  show ?thesis
  proof (cases "set_find compareLabels ?k (labels lm)")
    case None
    then have "\<forall>e \<in> set (labels lm). \<not> (\<bar>pair_time e - pair_time ?k\<bar> \<le> accepted_time_difference)"
      using label_set.find_none [OF assms, of ?k] unfolding label_set.close_iff by blast
    then show ?thesis using None by (simp add: g accepted_time_difference_def not_le)
  next
    case (Some e)
    from label_set.find_found [OF assms Some] show ?thesis
      unfolding label_set.close_iff using Some by (auto simp: g accepted_time_difference_def)
  qed
qed

definition sample_features :: "int \<Rightarrow> nat option \<Rightarrow> event_features" where
  "sample_features t i = EventFeatures ((EventMetaData t default_power_meta_data)\<lparr>event_id := i\<rparr>) [fl_one]"

theorem event_label_found_witness:
  "getEventLabel (sample_features 2000000 None)
     (EventLabelManager\<lparr>labels := [\<lparr>pair_label = fl_one, pair_time = 0\<rparr>]\<rparr>) = Some fl_one"
  using event_label_found [of "EventLabelManager\<lparr>labels := [\<lparr>pair_label = fl_one, pair_time = 0\<rparr>]\<rparr>" "sample_features 2000000 None"]
  by (simp add: sample_features_def EventFeatures_def split: option.splits)


text \<open>
  C21: labelling by id succeeds exactly if an event has the id; then the first such event is
  among the labelled ones with the new label, and if it was unlabelled it is so no longer.
\<close>

theorem label_by_id:
  assumes "\<exists>ev \<in> set (unlabeled_events lm) \<union> set (labeled_events lm). feature_id ev = Some eid"
  shows "fst (addLabel_id eid x lm) \<and>
    (\<exists>ev \<in> set (labeled_events (snd (addLabel_id eid x lm))).
       feature_id ev = Some eid \<and> event_label (event_meta_data ev) = Some x)"
proof (cases "find_index (\<lambda>ev. feature_id ev = Some eid) (unlabeled_events lm)")
  case (Some i)
  then show ?thesis
    by (auto simp: addLabel_id_def move_to_labeled_def addLabeledEvent_def dest: find_index_SomeD)
next
  case None
  then obtain i where i: "find_index (\<lambda>ev. feature_id ev = Some eid) (labeled_events lm) = Some i"
    using assms find_index_None_iff [of "\<lambda>ev. feature_id ev = Some eid"]
      find_index_Some_iff [of "\<lambda>ev. feature_id ev = Some eid" "labeled_events lm"] by blast
  let ?ev = "set_label x (labeled_events lm ! i)"
  have "?ev \<in> set ((labeled_events lm)[i := ?ev])" "feature_id ?ev = Some eid"
    using find_index_SomeD [OF i] by (auto simp: set_update_memI)
  then have "\<exists>ev \<in> set ((labeled_events lm)[i := ?ev]). feature_id ev = Some eid \<and> event_label (event_meta_data ev) = Some x"
    by (intro bexI [of _ ?ev]) simp_all
  then show ?thesis using None i by (simp add: addLabel_id_def)
qed

theorem label_by_id_witness:
  "fst (addLabel_id 7 fl_one (addUnLabeledEvent (sample_features 0 (Some 7)) EventLabelManager))"
  using label_by_id [of "addUnLabeledEvent (sample_features 0 (Some 7)) EventLabelManager" 7 fl_one]
  by (simp add: addUnLabeledEvent_def sample_features_def EventFeatures_def)

text \<open>
  C22: a file of labels that was written out, one line for each, in the order of their times and
  more than 2.5 seconds apart, is read back completely.
\<close>

theorem label_file_roundtrip:
  assumes "sorted_wrt compareLabels (map label_pair ps)"
    and "\<forall>(epoch, l) \<in> set ps. int epoch < 2 ^ 63 \<and> l < 2 ^ 53"
  shows "labels (loadLabelsFromFile (Some (label_text ps)) EventLabelManager) = map label_pair ps"
proof -
  have "read_labels (length (label_text ps) + 1) (istringstream (label_text ps)) []
      = foldl (\<lambda>ls x. set_insert compareLabels x ls) [] (map label_pair ps)"
    using length_label_text [of ps] assms(2)
    by (intro read_labels_text) (simp_all add: istringstream_def stream_good_def)
  then show ?thesis using insert_all [of "[]"] assms(1)
    by (simp add: loadLabelsFromFile_def EventLabelManager_def del: read_labels.simps)
qed

theorem label_file_roundtrip_witness:
  "labels (loadLabelsFromFile (Some (label_text [(10, 1), (20, 2)])) EventLabelManager)
     = [\<lparr>pair_label = Fin False 1, pair_time = 10000000\<rparr>, \<lparr>pair_label = Fin False 2, pair_time = 20000000\<rparr>]"
  using label_file_roundtrip [of "[(10, 1), (20, 2)]"]
  by (simp add: label_pair_def compareLabels_def accepted_time_difference_def)

end
