(* ===== verification/Feature_Extractor.thy ===== *)
theory Feature_Extractor
  imports Algorithms Label_Manager
begin

text \<open>
  The windowed Fourier transform (\<^verbatim>\<open>libanalyze/src/FastFourierTransformCalculator.h\<close>), the
  configuration of the classification (\<^verbatim>\<open>data_analyzer/src/ClassificationConfig.h\<close>) and the
  extraction of an event's features (\<^verbatim>\<open>data_analyzer/src/FeatureExtractor.h\<close>). The functions of
  the C library's \<^verbatim>\<open>math.h\<close> whose results it does not fix are a parameter.

  The lemmas show when a windowed transform is defined, that its configuration always fits the
  buffer, and how many features an event has.
\<close>

record libm =
  libm_cos :: "f64 \<Rightarrow> f64"
  libm_sin :: "f64 \<Rightarrow> f64"
  libm_cosf :: "f32 \<Rightarrow> f32"
  libm_arg :: "f32 \<Rightarrow> f32 \<Rightarrow> f32"

section \<open>The transform's buffers\<close>

record fft_calculator =
  kiss_fft_buffer :: "f32 kiss_fft_cpx list"
  blackman_harris_buffer :: "f32 list"
  max_data_size :: nat
  cfg_buffer_size :: nat

definition FastFourierTransformCalculator :: fft_calculator where
  "FastFourierTransformCalculator =
     \<lparr>kiss_fft_buffer = [], blackman_harris_buffer = [], max_data_size = 0, cfg_buffer_size = 0\<rparr>"

definition resize :: "'a \<Rightarrow> nat \<Rightarrow> 'a list \<Rightarrow> 'a list" where
  "resize fill n xs = take n xs @ replicate (n - length xs) fill"

definition setMaxDataSetSize :: "nat \<Rightarrow> fft_calculator \<Rightarrow> fft_calculator" where
  "setMaxDataSetSize n c =
     c\<lparr>max_data_size := n, kiss_fft_buffer := resize \<lparr>cpx_r = fl_zero, cpx_i = fl_zero\<rparr> n (kiss_fft_buffer c),
       cfg_buffer_size := uadd 1024 (umul n 8)\<rparr>"

definition initKissFFT :: "libm \<Rightarrow> nat \<Rightarrow> fft_calculator \<Rightarrow> f32 kiss_fft_state option \<times> fft_calculator" where
  "initKissFFT lib n c =
     (let c = (if n > max_data_size c then setMaxDataSetSize n c else c)
      in (kiss_fft_alloc (kf_cexp_float (libm_cos lib) (libm_sin lib)) n False (cfg_buffer_size c), c))"

definition fillKissFFTBuffer :: "f32 list \<Rightarrow> fft_calculator \<Rightarrow> fft_calculator" where
  "fillKissFFTBuffer xs c =
     (let filled = map (\<lambda>x. \<lparr>cpx_r = x, cpx_i = fl_zero\<rparr>) (take (length (kiss_fft_buffer c)) xs)
      in c\<lparr>kiss_fft_buffer := filled @ drop (length filled) (kiss_fft_buffer c)\<rparr>)"

text \<open>The window; the argument of each cosine is computed in double precision and narrowed.\<close>

definition bmh_value :: "libm \<Rightarrow> nat \<Rightarrow> nat \<Rightarrow> f32" where
  "bmh_value lib n idx =
     (let c = (\<lambda>k. libm_cosf lib (fl_conv binary32
                (fl_div binary64 (fl_mul binary64 (fl_mul binary64 (Fin False k) double_pi) (fl_of_int binary64 (int idx)))
                   (fl_of_int binary64 (int (usub n 1))))));
          a0 = fl_round binary32 False (35875 / 100000); a1 = fl_round binary32 False (48829 / 100000);
          a2 = fl_round binary32 False (14128 / 100000); a3 = fl_round binary32 False (1168 / 100000)
      in f_sub (f_add (f_sub a0 (f_mul a1 (c 2))) (f_mul a2 (c 4))) (f_mul a3 (c 6)))"

definition getBlackmanHarrisBuffer :: "libm \<Rightarrow> nat \<Rightarrow> fft_calculator \<Rightarrow> fft_calculator" where
  "getBlackmanHarrisBuffer lib n c =
     (if length (blackman_harris_buffer c) = n then c
      else c\<lparr>blackman_harris_buffer := map (bmh_value lib n) [0..<n]\<rparr>)"

text \<open>The loop runs over the whole transform buffer, also when that is longer than the window.\<close>

definition multiplyKissFFTBufferWithBMH :: "libm \<Rightarrow> nat \<Rightarrow> fft_calculator \<Rightarrow> fft_calculator res" where
  "multiplyKissFFTBufferWithBMH lib n c =
     (let c = getBlackmanHarrisBuffer lib n c
      in if length (blackman_harris_buffer c) < length (kiss_fft_buffer c) then Inl Undefined
         else Inr (c\<lparr>kiss_fft_buffer :=
                map (\<lambda>(w, x). x\<lparr>cpx_r := f_mul w (cpx_r x)\<rparr>) (zip (blackman_harris_buffer c) (kiss_fft_buffer c))\<rparr>))"

text \<open>A null configuration is dereferenced; a transform of size zero runs off its factors.\<close>

definition run_kiss_fft :: "f32 kiss_fft_state option \<Rightarrow> fft_calculator \<Rightarrow> f32 kiss_fft_cpx list res" where
  "run_kiss_fft cfg c =
     (case cfg of None \<Rightarrow> Inl Undefined
      | Some st \<Rightarrow> if nfft st = 0 then Inl Undefined else Inr (kiss_fft float_ops st (kiss_fft_buffer c)))"

definition calculateFFT :: "libm \<Rightarrow> f32 list \<Rightarrow> fft_calculator \<Rightarrow> (f32 kiss_fft_cpx list \<times> fft_calculator) res" where
  "calculateFFT lib xs c =
     (let (cfg, c) = initKissFFT lib (length xs) c; c = fillKissFFTBuffer xs c
      in res_map (\<lambda>r. (r, c)) (run_kiss_fft cfg c))"

definition calculateFFTWithBlackmanHarris ::
  "libm \<Rightarrow> f32 list \<Rightarrow> fft_calculator \<Rightarrow> (f32 kiss_fft_cpx list \<times> fft_calculator) res" where
  "calculateFFTWithBlackmanHarris lib xs c =
     (let (cfg, c) = initKissFFT lib (length xs) c; c = fillKissFFTBuffer xs c
      in res_bind (multiplyKissFFTBufferWithBMH lib (length xs) c) (\<lambda>c.
         res_map (\<lambda>r. (r, c)) (run_kiss_fft cfg c)))"

definition calculateAmpereFFT :: "libm \<Rightarrow> ('a \<Rightarrow> f32) \<Rightarrow> 'a list \<Rightarrow> fft_calculator \<Rightarrow> (f32 kiss_fft_cpx list \<times> fft_calculator) res" where
  "calculateAmpereFFT lib ampere points = calculateFFT lib (makeAmpereIterator ampere points)"

definition calculateVoltageFFT :: "libm \<Rightarrow> ('a \<Rightarrow> f32) \<Rightarrow> 'a list \<Rightarrow> fft_calculator \<Rightarrow> (f32 kiss_fft_cpx list \<times> fft_calculator) res" where
  "calculateVoltageFFT lib volt points = calculateFFT lib (makeVoltageIterator volt points)"

definition calculateAmpereFFTWithBlackmanHarris ::
  "libm \<Rightarrow> ('a \<Rightarrow> f32) \<Rightarrow> 'a list \<Rightarrow> fft_calculator \<Rightarrow> (f32 kiss_fft_cpx list \<times> fft_calculator) res" where
  "calculateAmpereFFTWithBlackmanHarris lib ampere points =
     calculateFFTWithBlackmanHarris lib (makeAmpereIterator ampere points)"

definition calculateVoltageFFTWithBlackmanHarris ::
  "libm \<Rightarrow> ('a \<Rightarrow> f32) \<Rightarrow> 'a list \<Rightarrow> fft_calculator \<Rightarrow> (f32 kiss_fft_cpx list \<times> fft_calculator) res" where
  "calculateVoltageFFTWithBlackmanHarris lib volt points =
     calculateFFTWithBlackmanHarris lib (makeVoltageIterator volt points)"

section \<open>The configuration\<close>

datatype normalization_mode = Rescale | Standardize

record classification_config =
  number_of_rms :: int
  normalization_mode :: normalization_mode
  number_of_harmonics :: nat
  harmonics_search_radius :: nat

definition ClassificationConfig :: classification_config where
  "ClassificationConfig =
     \<lparr>number_of_rms = 20, normalization_mode = Standardize, number_of_harmonics = 10, harmonics_search_radius = 5\<rparr>"

section \<open>The feature extractor\<close>

record feature_extractor =
  fe_config :: classification_config
  fe_calculator :: fft_calculator
  fft_ampere_before :: "f32 kiss_fft_cpx list"
  fft_ampere_after :: "f32 kiss_fft_cpx list"
  fft_voltage_before :: "f32 kiss_fft_cpx list"
  fft_voltage_after :: "f32 kiss_fft_cpx list"

definition FeatureExtractor :: feature_extractor where
  "FeatureExtractor =
     \<lparr>fe_config = ClassificationConfig, fe_calculator = FastFourierTransformCalculator, fft_ampere_before = [],
      fft_ampere_after = [], fft_voltage_before = [], fft_voltage_after = []\<rparr>"

definition setConfig :: "classification_config \<Rightarrow> feature_extractor \<Rightarrow> feature_extractor" where
  "setConfig config fe = fe\<lparr>fe_config := config\<rparr>"

definition calcFFTs ::
  "libm \<Rightarrow> ('a \<Rightarrow> f32) \<Rightarrow> ('a \<Rightarrow> f32) \<Rightarrow> 'a event \<Rightarrow> feature_extractor \<Rightarrow> feature_extractor res" where
  "calcFFTs lib ampere volt ev fe =
     res_bind (before_event ev) (\<lambda>before. res_bind (during_event ev) (\<lambda>during.
     let num_data_points = min (length before) (length during) in
     res_bind (calculateAmpereFFTWithBlackmanHarris lib ampere (take num_data_points before) (fe_calculator fe)) (\<lambda>(ab, c).
     res_bind (calculateVoltageFFTWithBlackmanHarris lib volt (take num_data_points before) c) (\<lambda>(vb, c).
     res_bind (calculateAmpereFFTWithBlackmanHarris lib ampere (take num_data_points during) c) (\<lambda>(aa, c).
     res_bind (calculateVoltageFFTWithBlackmanHarris lib volt (take num_data_points during) c) (\<lambda>(va, c).
       Inr (fe\<lparr>fe_calculator := c, fft_ampere_before := ab, fft_voltage_before := vb, fft_ampere_after := aa,
               fft_voltage_after := va\<rparr>)))))))"

text \<open>\<^verbatim>\<open>roundf\<close>, halves away from zero, and the conversion to \<^verbatim>\<open>unsigned long\<close>.\<close>

fun fl_roundf :: "fl \<Rightarrow> fl" where
  "fl_roundf (Fin s m) = Fin s (of_int \<lfloor>m + 1 / 2\<rfloor>)"
| "fl_roundf x = x"

definition to_ulong :: "fl \<Rightarrow> nat res" where
  "to_ulong x = (if is_fin x \<and> - 1 < fl_val x \<and> fl_val x < 2 ^ 64 then Inr (nat \<lfloor>fl_val x\<rfloor>) else Inl Undefined)"

definition calcBaseFrequencyPos :: "power_meta_data \<Rightarrow> nat \<Rightarrow> nat res" where
  "calcBaseFrequencyPos meta_data number_of_data_points_in_fft =
     (let result = f_of_int (int number_of_data_points_in_fft);
          result = f_div result (f_of_int (int (sample_rate meta_data)));
          result = f_mul result (f_of_int (int (frequency meta_data)))
      in to_ulong (fl_roundf result))"

definition calcPhaseShift :: "libm \<Rightarrow> f32 kiss_fft_cpx list \<Rightarrow> f32 kiss_fft_cpx list \<Rightarrow> nat \<Rightarrow> f32 res" where
  "calcPhaseShift lib amperes voltages base_freq_pos =
     (if length amperes \<le> base_freq_pos \<or> length voltages \<le> base_freq_pos then Inl Undefined
      else let a = amperes ! base_freq_pos; v = voltages ! base_freq_pos;
               angle_amps = libm_arg lib (cpx_r a) (cpx_i a); angle_volts = libm_arg lib (cpx_r v) (cpx_i v);
               phase_tmp = f_mul (f_sub angle_amps angle_volts) (f_of_int (- 1));
               two_pi = fl_mul binary64 (Fin False 2) double_pi
           in if fl_less double_pi phase_tmp then Inr (fl_conv binary32 (fl_sub binary64 two_pi phase_tmp))
              else if fl_less phase_tmp (fl_neg double_pi) then Inr (fl_conv binary32 (fl_add binary64 two_pi phase_tmp))
              else Inr phase_tmp)"

definition extractPhaseShift :: "libm \<Rightarrow> 'a event \<Rightarrow> feature_extractor \<Rightarrow> f32 list res" where
  "extractPhaseShift lib ev fe =
     res_bind (calcBaseFrequencyPos (power_meta_data_of_event (event_meta ev)) (length (fft_ampere_before fe))) (\<lambda>pos.
     res_bind (calcPhaseShift lib (fft_ampere_before fe) (fft_voltage_before fe) pos) (\<lambda>phase_shift_before.
     res_bind (calcPhaseShift lib (fft_ampere_after fe) (fft_voltage_after fe) pos) (\<lambda>phase_shift.
       Inr [f_sub phase_shift phase_shift_before])))"

text \<open>
  The loop over the periods: \<open>rounds\<close> is how many more it may push before the break. The bound
  is a difference with an unsigned operand, converted to \<^verbatim>\<open>long\<close>.
\<close>

fun rms_loop :: "('a \<Rightarrow> f32) \<Rightarrow> f32 \<Rightarrow> nat \<Rightarrow> int \<Rightarrow> 'a list \<Rightarrow> nat \<Rightarrow> int \<Rightarrow> f32 list" where
  "rms_loop ampere sub_rms period loop_end points 0 pos = []"
| "rms_loop ampere sub_rms period loop_end points (Suc rounds) pos =
     (if \<not> pos < loop_end then []
      else f_sub (rootMeanSquareOfAmpere ampere (slice points (nat pos) period)) sub_rms
             # rms_loop ampere sub_rms period loop_end points rounds (pos + int period))"

definition extractRms :: "('a \<Rightarrow> f32) \<Rightarrow> 'a event \<Rightarrow> feature_extractor \<Rightarrow> f32 list res" where
  "extractRms ampere ev fe =
     (let meta = power_meta_data_of_event (event_meta ev) in
      res_bind (dataPointsPerPeriod meta) (\<lambda>period.
      res_bind (before_event ev) (\<lambda>before. res_bind (during_event ev) (\<lambda>during.
        let sub_rms = (if to_unsigned (data_points_stored_before_event meta) \<ge> period
                       then rootMeanSquareOfAmpere ampere (take period before) else fl_zero);
            loop_end = to_signed (usub (length during) period)
        in Inr (rms_loop ampere sub_rms period loop_end during (nat (number_of_rms (fe_config fe)) + 1) 0)))))"

definition extractHarmonics :: "'a event \<Rightarrow> feature_extractor \<Rightarrow> f32 list res" where
  "extractHarmonics ev fe =
     (let n = number_of_harmonics (fe_config fe); radius = harmonics_search_radius (fe_config fe) in
      res_bind (calcBaseFrequencyPos (power_meta_data_of_event (event_meta ev)) (length (fft_ampere_before fe))) (\<lambda>pos.
      res_bind (getHarmonics (fft_ampere_before fe) pos n radius) (\<lambda>harm_old.
      res_bind (getHarmonics (fft_ampere_after fe) pos n radius) (\<lambda>harm_new.
        Inr (map (\<lambda>(new, old). f_sub (fl_abs new) (fl_abs old)) (zip harm_new harm_old))))))"

definition extractFeatures ::
  "libm \<Rightarrow> ('a \<Rightarrow> f32) \<Rightarrow> ('a \<Rightarrow> f32) \<Rightarrow> 'a event \<Rightarrow> feature_extractor \<Rightarrow> (event_features \<times> feature_extractor) res" where
  "extractFeatures lib ampere volt ev fe =
     res_bind (calcFFTs lib ampere volt ev fe) (\<lambda>fe.
     res_bind (extractPhaseShift lib ev fe) (\<lambda>phase.
     res_bind (extractRms ampere ev fe) (\<lambda>rms.
     res_bind (extractHarmonics ev fe) (\<lambda>harmonics.
       Inr (EventFeatures (event_meta ev) (phase @ rms @ harmonics), fe)))))"

section \<open>When a transform is defined\<close>

definition calculator_inv :: "fft_calculator \<Rightarrow> bool" where
  "calculator_inv c \<longleftrightarrow> length (kiss_fft_buffer c) = max_data_size c \<and> max_data_size c < 2 ^ 31
     \<and> (0 < max_data_size c \<longrightarrow> cfg_buffer_size c = 1024 + 8 * max_data_size c)"

lemma new_calculator_inv [simp]: "calculator_inv FastFourierTransformCalculator"
  by (simp add: calculator_inv_def FastFourierTransformCalculator_def)

lemma length_resize [simp]: "length (resize fill n xs) = n"
  by (simp add: resize_def)

lemma initKissFFT_result:
  assumes "calculator_inv c" and "0 < n" and "n < 2 ^ 31"
  shows "\<exists>st c'. initKissFFT lib n c = (Some st, c') \<and> nfft st = n \<and> (\<forall>fin. length (kiss_fft float_ops st fin) = n)
    \<and> calculator_inv c' \<and> max_data_size c' = max n (max_data_size c) \<and> blackman_harris_buffer c' = blackman_harris_buffer c"
proof -
  let ?c = "if n > max_data_size c then setMaxDataSetSize n c else c"
  have inv: "calculator_inv ?c" and size: "max_data_size ?c = max n (max_data_size c)"
    using assms by (auto simp: calculator_inv_def setMaxDataSetSize_def uadd_def umul_def)
  have "cfg_buffer_size ?c = 1024 + 8 * max n (max_data_size c)"
    using inv size assms(2) by (simp add: calculator_inv_def)
  moreover have "memneeded n = 272 + 8 * (n - 1)"
    using assms(2,3) by (simp add: memneeded_def uadd_def umul_def usub_le)
  ultimately have fits: "memneeded n \<le> cfg_buffer_size ?c" using assms(2) by simp
  obtain st where st: "kiss_fft_alloc (kf_cexp_float (libm_cos lib) (libm_sin lib)) n False (cfg_buffer_size ?c) = Some st" "nfft st = n"
    using kiss_fft_alloc_Some [OF assms(2) fits] by blast
  have len: "length (kiss_fft float_ops st fin) = n" for fin
    using kiss_fft_alloc_Some [OF assms(2) fits, of "kf_cexp_float (libm_cos lib) (libm_sin lib)" False float_ops fin] st(1) by auto
  have "blackman_harris_buffer ?c = blackman_harris_buffer c" by (simp add: setMaxDataSetSize_def)
  then show ?thesis using st len inv size by (simp add: initKissFFT_def)
qed

lemma fill_simps [simp]:
  "length (kiss_fft_buffer (fillKissFFTBuffer xs c)) = length (kiss_fft_buffer c)"
  "max_data_size (fillKissFFTBuffer xs c) = max_data_size c"
  "cfg_buffer_size (fillKissFFTBuffer xs c) = cfg_buffer_size c"
  "blackman_harris_buffer (fillKissFFTBuffer xs c) = blackman_harris_buffer c"
  by (simp_all add: fillKissFFTBuffer_def Let_def)

lemma window_simps [simp]:
  "length (blackman_harris_buffer (getBlackmanHarrisBuffer lib n c)) = n"
  "kiss_fft_buffer (getBlackmanHarrisBuffer lib n c) = kiss_fft_buffer c"
  "max_data_size (getBlackmanHarrisBuffer lib n c) = max_data_size c"
  "cfg_buffer_size (getBlackmanHarrisBuffer lib n c) = cfg_buffer_size c"
  by (simp_all add: getBlackmanHarrisBuffer_def)

lemma windowed_fft:
  assumes "calculator_inv c" and "xs \<noteq> []" and "length xs < 2 ^ 31"
  shows "if max_data_size c \<le> length xs
    then \<exists>r c'. calculateFFTWithBlackmanHarris lib xs c = Inr (r, c') \<and> length r = length xs
      \<and> calculator_inv c' \<and> max_data_size c' = length xs
    else calculateFFTWithBlackmanHarris lib xs c = Inl Undefined"
proof -
  let ?n = "length xs"
  obtain st c1 where init: "initKissFFT lib ?n c = (Some st, c1)" and st: "nfft st = ?n" "\<And>fin. length (kiss_fft float_ops st fin) = ?n"
    and inv: "calculator_inv c1" and size: "max_data_size c1 = max ?n (max_data_size c)"
    using initKissFFT_result [OF assms(1) _ assms(3)] assms(2) by fastforce
  let ?c = "getBlackmanHarrisBuffer lib ?n (fillKissFFTBuffer xs c1)"
  have len: "length (kiss_fft_buffer ?c) = max ?n (max_data_size c)" using inv size by (simp add: calculator_inv_def)
  show ?thesis
  proof (cases "max_data_size c \<le> ?n")
    case True
    then show ?thesis
      using init st inv size len assms(2)
      by (simp add: calculateFFTWithBlackmanHarris_def multiplyKissFFTBufferWithBMH_def Let_def run_kiss_fft_def calculator_inv_def)
  next
    case False
    then show ?thesis
      using init len by (simp add: calculateFFTWithBlackmanHarris_def multiplyKissFFTBufferWithBMH_def Let_def)
  qed
qed

text \<open>
  C31: a windowed transform of a non-empty range is defined exactly if no longer range was
  transformed before: the configuration always fits its buffer and the result has as many
  elements as the range, but the window is applied to the whole transform buffer, which
  keeps the size of the longest range, so that a shorter range reads past the window.
\<close>

theorem windowed_fft_defined_iff:
  assumes "calculator_inv c" and "xs \<noteq> []" and "length xs < 2 ^ 31"
  shows "if max_data_size c \<le> length xs
    then \<exists>r c'. calculateFFTWithBlackmanHarris lib xs c = Inr (r, c') \<and> length r = length xs
      \<and> calculator_inv c' \<and> max_data_size c' = length xs
    else calculateFFTWithBlackmanHarris lib xs c = Inl Undefined"
  by (rule windowed_fft [OF assms])

definition some_libm :: libm where
  "some_libm = \<lparr>libm_cos = (\<lambda>x. x), libm_sin = (\<lambda>x. x), libm_cosf = (\<lambda>x. x), libm_arg = (\<lambda>r i. i)\<rparr>"

theorem windowed_fft_defined_iff_witness:
  "if max_data_size FastFourierTransformCalculator \<le> length [fl_one, fl_zero]
    then \<exists>r c'. calculateFFTWithBlackmanHarris some_libm [fl_one, fl_zero] FastFourierTransformCalculator = Inr (r, c')
      \<and> length r = length [fl_one, fl_zero] \<and> calculator_inv c' \<and> max_data_size c' = length [fl_one, fl_zero]
    else calculateFFTWithBlackmanHarris some_libm [fl_one, fl_zero] FastFourierTransformCalculator = Inl Undefined"
  by (rule windowed_fft_defined_iff) simp_all

section \<open>The number of features\<close>

lemma length_rms_loop:
  assumes "0 < period"
  shows "0 \<le> pos \<Longrightarrow> length (rms_loop ampere sub period loop_end points rounds pos) =
    min rounds (nat ((loop_end - pos + int period - 1) div int period))"
proof (induction rounds arbitrary: pos)
  case (Suc rounds)
  show ?case
  proof (cases "pos < loop_end")
    case True
    have "loop_end - pos + int period - 1 = (loop_end - (pos + int period) + int period - 1) + int period" by simp
    note eq = this
    have step: "(loop_end - pos + int period - 1) div int period
        = (loop_end - (pos + int period) + int period - 1) div int period + 1"
      unfolding eq using assms by (intro div_add_self2) simp
    have "0 \<le> (loop_end - (pos + int period) + int period - 1) div int period"
      using True assms by (intro pos_imp_zdiv_nonneg_iff [THEN iffD2]) auto
    then show ?thesis using Suc.IH [of "pos + int period"] Suc.prems True step by (simp add: nat_add_distrib)
  next
    case False
    then have "(loop_end - pos + int period - 1) div int period \<le> (int period - 1) div int period"
      using assms by (intro zdiv_mono1) auto
    also have "\<dots> = 0" using assms by (intro div_pos_pos_trivial) auto
    finally have "(loop_end - pos + int period - 1) div int period \<le> 0" .
    then show ?thesis using False by simp
  qed
qed simp


lemma length_harmonics_from: "harmonics_from xs base radius is = Inr hs \<Longrightarrow> length hs = length is"
  by (induction "is" arbitrary: hs) (auto simp: res_bind_eq_Inr_iff)

lemma length_getHarmonics:
  assumes "getHarmonics xs base n radius = Inr hs" and "n + 1 < 2 ^ 64"
  shows "length hs = n"
  using assms length_harmonics_from [of xs base radius "[2..<n + 1 + 1]" hs]
  by (simp add: getHarmonics_def Let_def uadd_def split: if_splits del: upt_Suc)

text \<open>
  C32: every event whose extraction succeeds has one phase shift, the harmonics of the
  configuration, and one root mean square for each full period before the last one, at most
  one more than the configuration asks for. Events of the same length have the same number
  of features.
\<close>

theorem number_of_features:
  assumes "extractFeatures lib ampere volt ev fe = Inr (features, fe')" and "during_event ev = Inr during"
    and "dataPointsPerPeriod (power_meta_data_of_event (event_meta ev)) = Inr period" and "0 < period"
    and "0 < length during" and "length during < 2 ^ 63" and "period < 2 ^ 63" and "number_of_harmonics (fe_config fe) + 1 < 2 ^ 64"
  shows "length (feature_vector features) = 1 + min (nat (number_of_rms (fe_config fe)) + 1) ((length during - 1) div period)
    + number_of_harmonics (fe_config fe)"
proof -
  obtain fe1 phase rms harmonics where fe1: "calcFFTs lib ampere volt ev fe = Inr fe1"
    and phase: "extractPhaseShift lib ev fe1 = Inr phase" and rms: "extractRms ampere ev fe1 = Inr rms"
    and harm: "extractHarmonics ev fe1 = Inr harmonics" and f: "feature_vector features = phase @ rms @ harmonics"
    using assms(1) by (auto simp: extractFeatures_def res_bind_eq_Inr_iff EventFeatures_def)
  have config: "fe_config fe1 = fe_config fe"
    using fe1 by (auto simp: calcFFTs_def Let_def res_bind_eq_Inr_iff)
  have "length phase = 1" using phase by (auto simp: extractPhaseShift_def res_bind_eq_Inr_iff)
  moreover have "length harmonics = number_of_harmonics (fe_config fe)"
    using harm length_getHarmonics [OF _ assms(8)] config
    by (auto simp: extractHarmonics_def Let_def res_bind_eq_Inr_iff)
  moreover have "length rms = min (nat (number_of_rms (fe_config fe)) + 1) ((length during - 1) div period)"
  proof -
    let ?last = "to_signed (usub (length during) period)"
    obtain sub where r: "rms = rms_loop ampere sub period ?last during (nat (number_of_rms (fe_config fe)) + 1) 0"
      using rms assms(2,3) config by (auto simp: extractRms_def Let_def res_bind_eq_Inr_iff)
    have "?last = int (length during) - int period" using assms(6,7) by (rule to_signed_usub)
    then have "nat ((?last - 0 + int period - 1) div int period) = (length during - 1) div period"
      using assms(5) by (cases "length during") (simp_all add: nat_div_distrib)
    then show ?thesis using length_rms_loop [OF assms(4), of 0 ampere sub ?last during "nat (number_of_rms (fe_config fe)) + 1"] r
      by simp
  qed
  ultimately show ?thesis by (simp add: f)
qed


lemma calcPhaseShift_defined:
  assumes "pos < length amperes" and "pos < length voltages"
  shows "\<exists>p. calcPhaseShift lib amperes voltages pos = Inr p"
proof -
  have "\<exists>p. (if a then Inr x else if b then Inr y else Inr z) = (Inr p :: f32 res)" for a b x y z by simp
  then show ?thesis using assms unfolding calcPhaseShift_def Let_def by simp
qed

lemma fl_round_nat: "n < 2 ^ 24 \<Longrightarrow> fl_round binary32 s (of_nat n) = Fin s (of_nat n)"
proof (rule fl_round_id)
  assume n: "n < 2 ^ 24"
  have "(of_nat n :: rat) < of_nat (2 ^ 24)" using n by (simp only: of_nat_less_iff)
  also have "\<dots> \<le> 2 powi (emax binary32 + 1)" by (simp add: binary32_def power_int_def)
  finally have "(of_nat n :: rat) < 2 powi (emax binary32 + 1)" .
  then show "representable binary32 (of_nat n)"
    using n unfolding representable_def binary32_def by (intro conjI exI [of _ n] exI [of _ "0 :: int"]) simp_all
qed

definition four_points :: "default_data_point event" where
  "four_points =
     \<lparr>event_data = replicate 8 DefaultDataPoint,
      event_meta = EventMetaData 0 (default_power_meta_data\<lparr>sample_rate := 4, frequency := 1, data_points_stored_before_event := 4\<rparr>)\<rparr>"

definition plain_extractor :: feature_extractor where
  "plain_extractor = FeatureExtractor\<lparr>fe_config := ClassificationConfig\<lparr>number_of_harmonics := 0, harmonics_search_radius := 0\<rparr>\<rparr>"

lemma four_points_extracted:
  "\<exists>features fe'. extractFeatures some_libm default_ampere default_voltage four_points plain_extractor = Inr (features, fe')"
proof -
  let ?pts = "replicate 4 DefaultDataPoint"
  have parts: "before_event four_points = Inr ?pts" "during_event four_points = Inr ?pts"
    by (simp_all add: before_event_def during_event_def event_begin_def four_points_def default_power_meta_data_def)
  have fft: "\<exists>r c'. calculateFFTWithBlackmanHarris some_libm xs c = Inr (r, c') \<and> length r = 4 \<and> calculator_inv c' \<and> max_data_size c' = 4"
    if "length xs = 4" "calculator_inv c" "max_data_size c \<le> 4" for xs c
    using windowed_fft [of c xs some_libm] that by (cases xs) auto
  have new_max: "max_data_size FastFourierTransformCalculator = 0" by (simp add: FastFourierTransformCalculator_def)
  obtain ab c1 where ab: "calculateFFTWithBlackmanHarris some_libm (map default_ampere ?pts) FastFourierTransformCalculator = Inr (ab, c1)"
    "length ab = 4" "calculator_inv c1" "max_data_size c1 = 4"
    using fft [of "map default_ampere ?pts" FastFourierTransformCalculator] new_max by auto
  obtain vb c2 where vb: "calculateFFTWithBlackmanHarris some_libm (map default_voltage ?pts) c1 = Inr (vb, c2)"
    "length vb = 4" "calculator_inv c2" "max_data_size c2 = 4"
    using fft [of "map default_voltage ?pts" c1] ab by auto
  obtain aa c3 where aa: "calculateFFTWithBlackmanHarris some_libm (map default_ampere ?pts) c2 = Inr (aa, c3)"
    "length aa = 4" "calculator_inv c3" "max_data_size c3 = 4"
    using fft [of "map default_ampere ?pts" c2] vb by auto
  obtain va c4 where va: "calculateFFTWithBlackmanHarris some_libm (map default_voltage ?pts) c3 = Inr (va, c4)" "length va = 4"
    using fft [of "map default_voltage ?pts" c3] aa by auto
  let ?fe = "plain_extractor\<lparr>fe_calculator := c4, fft_ampere_before := ab, fft_voltage_before := vb, fft_ampere_after := aa, fft_voltage_after := va\<rparr>"
  have ffts: "calcFFTs some_libm default_ampere default_voltage four_points plain_extractor = Inr ?fe"
    using ab vb aa va
    by (simp add: calcFFTs_def parts Let_def calculateAmpereFFTWithBlackmanHarris_def calculateVoltageFFTWithBlackmanHarris_def
        makeAmpereIterator_def makeVoltageIterator_def plain_extractor_def FeatureExtractor_def)
  have pos: "calcBaseFrequencyPos (power_meta_data_of_event (event_meta four_points)) 4 = Inr 1"
  proof -
    have "f_of_int 4 = Fin False 4" "f_of_int 1 = Fin False 1"
      using fl_round_nat [of 4 False] fl_round_nat [of 1 False] by (simp_all add: fl_of_int_def fl_of_rat_def)
    moreover have "\<lfloor>3 / 2 :: rat\<rfloor> = 1" by (simp add: floor_eq_iff)
    ultimately show ?thesis
      using fl_round_nat [of 1 False] by (simp add: calcBaseFrequencyPos_def four_points_def to_ulong_def)
  qed
  obtain p1 where p1: "calcPhaseShift some_libm ab vb 1 = Inr p1" using calcPhaseShift_defined [of 1 ab vb some_libm] ab vb by auto
  obtain p2 where p2: "calcPhaseShift some_libm aa va 1 = Inr p2" using calcPhaseShift_defined [of 1 aa va some_libm] aa va by auto
  have phase: "extractPhaseShift some_libm four_points ?fe = Inr [f_sub p2 p1]" using ab pos p1 p2 by (simp add: extractPhaseShift_def)
  have "dataPointsPerPeriod (power_meta_data_of_event (event_meta four_points)) = Inr 4"
    by (simp add: four_points_def dataPointsPerPeriod_def)
  then obtain rms where rms: "extractRms default_ampere four_points ?fe = Inr rms" by (simp add: extractRms_def Let_def parts)
  have "getHarmonics xs 1 0 0 = Inr []" if "length xs = 4" for xs
    using that by (simp add: getHarmonics_def uadd_def umul_def)
  then have "extractHarmonics four_points ?fe = Inr []"
    using ab aa pos by (simp add: extractHarmonics_def Let_def plain_extractor_def ClassificationConfig_def)
  then show ?thesis using ffts phase rms by (simp add: extractFeatures_def)
qed

theorem number_of_features_witness:
  "\<exists>features fe'. extractFeatures some_libm default_ampere default_voltage four_points plain_extractor = Inr (features, fe')
    \<and> length (feature_vector features) = 1 + min (nat (number_of_rms (fe_config plain_extractor)) + 1)
        ((length (replicate 4 DefaultDataPoint) - 1) div 4) + number_of_harmonics (fe_config plain_extractor)"
proof -
  obtain features fe' where f: "extractFeatures some_libm default_ampere default_voltage four_points plain_extractor = Inr (features, fe')"
    using four_points_extracted by blast
  have "during_event four_points = Inr (replicate 4 DefaultDataPoint)"
    by (simp add: during_event_def event_begin_def four_points_def default_power_meta_data_def)
  moreover have "dataPointsPerPeriod (power_meta_data_of_event (event_meta four_points)) = Inr 4"
    by (simp add: four_points_def dataPointsPerPeriod_def)
  moreover have "number_of_harmonics (fe_config plain_extractor) + 1 < 2 ^ 64"
    by (simp add: plain_extractor_def ClassificationConfig_def)
  ultimately have "length (feature_vector features) = 1 + min (nat (number_of_rms (fe_config plain_extractor)) + 1)
        ((length (replicate 4 DefaultDataPoint) - 1) div 4) + number_of_harmonics (fe_config plain_extractor)"
    by (intro number_of_features [OF f]) simp_all
  then show ?thesis using f by blast
qed

end
