(* ===== verification/Index_Heap.thy ===== *)
theory Index_Heap
  imports Ieee_Float "HOL-Library.Multiset" "HOL-Library.Product_Lexorder"
begin

text \<open>
  The heaps that collect the nearest neighbours of a query (\<^verbatim>\<open>external/libnabo/nabo/index_heap.h\<close>):
  \<^verbatim>\<open>IndexHeapSTL\<close> on the standard library's binary heaps, and \<^verbatim>\<open>IndexHeapBruteForceVector\<close> on
  an array in order. The arrangement of a range by \<open>push_heap\<close>, \<open>pop_heap\<close> and
  \<open>sort_heap\<close> is the one of the GNU implementation of the standard library.

  The locale \<open>neighbour_heap\<close> is what a search relies on: the heap always holds \<open>k\<close> entries,
  counting the ones not yet found as infinitely far, its head is their greatest value, and a
  replacement exchanges an entry of that value for the new one. Both heaps satisfy it.
\<close>

section \<open>The standard library's heaps\<close>

function sift_up :: "('a \<Rightarrow> 'a \<Rightarrow> bool) \<Rightarrow> nat \<Rightarrow> 'a \<Rightarrow> 'a list \<Rightarrow> 'a list" where
  "sift_up lt hole v xs =
     (if 0 < hole \<and> lt (xs ! ((hole - 1) div 2)) v
      then sift_up lt ((hole - 1) div 2) v (xs[hole := xs ! ((hole - 1) div 2)])
      else xs[hole := v])"
  by pat_completeness auto
termination
  by (relation "measure (\<lambda>(lt, hole, v, xs). hole)") auto

declare sift_up.simps [simp del]

definition push_heap :: "('a \<Rightarrow> 'a \<Rightarrow> bool) \<Rightarrow> 'a list \<Rightarrow> 'a list" where
  "push_heap lt xs = sift_up lt (length xs - 1) (last xs) xs"

text \<open>
  \<open>adjust_heap\<close> moves the hole down to a leaf of the first \<open>n\<close> elements, always to the greater
  child, and sifts the value up from there.
\<close>

function adjust_heap :: "('a \<Rightarrow> 'a \<Rightarrow> bool) \<Rightarrow> nat \<Rightarrow> nat \<Rightarrow> 'a \<Rightarrow> 'a list \<Rightarrow> 'a list" where
  "adjust_heap lt hole n v xs =
     (if hole < (n - 1) div 2
      then let s = (if lt (xs ! (2 * (hole + 1))) (xs ! (2 * (hole + 1) - 1)) then 2 * (hole + 1) - 1 else 2 * (hole + 1))
           in adjust_heap lt s n v (xs[hole := xs ! s])
      else if even n \<and> 0 < n \<and> hole = (n - 2) div 2
      then sift_up lt (2 * hole + 1) v (xs[hole := xs ! (2 * hole + 1)])
      else sift_up lt hole v xs)"
  by pat_completeness auto
termination
  by (relation "measure (\<lambda>(lt, hole, n, v, xs). n - hole)") auto

declare adjust_heap.simps [simp del]

definition pop_heap :: "('a \<Rightarrow> 'a \<Rightarrow> bool) \<Rightarrow> nat \<Rightarrow> 'a list \<Rightarrow> 'a list" where
  "pop_heap lt n xs = (if 1 < n then adjust_heap lt 0 (n - 1) (xs ! (n - 1)) (xs[n - 1 := xs ! 0]) else xs)"

fun sort_heap :: "('a \<Rightarrow> 'a \<Rightarrow> bool) \<Rightarrow> nat \<Rightarrow> 'a list \<Rightarrow> 'a list" where
  "sort_heap lt 0 xs = xs"
| "sort_heap lt (Suc n) xs = sort_heap lt n (pop_heap lt (Suc n) xs)"

text \<open>
  The comparison of the elements, where it is that of a linearly ordered key; the heap property
  of the first \<open>n\<close> elements; and the property of all elements but the one in the hole.
\<close>

definition key_order :: "('a \<Rightarrow> 'k::linorder) \<Rightarrow> ('a \<Rightarrow> 'a \<Rightarrow> bool) \<Rightarrow> 'a set \<Rightarrow> bool" where
  "key_order key lt A \<longleftrightarrow> (\<forall>x \<in> A. \<forall>y \<in> A. lt x y \<longleftrightarrow> key x < key y)"

definition is_heap :: "('a \<Rightarrow> 'k::linorder) \<Rightarrow> nat \<Rightarrow> 'a list \<Rightarrow> bool" where
  "is_heap key n xs \<longleftrightarrow> (\<forall>i. 0 < i \<and> i < n \<longrightarrow> key (xs ! i) \<le> key (xs ! ((i - 1) div 2)))"

definition heap_but :: "('a \<Rightarrow> 'k::linorder) \<Rightarrow> nat \<Rightarrow> nat \<Rightarrow> 'a list \<Rightarrow> bool" where
  "heap_but key n hole xs \<longleftrightarrow>
     (\<forall>i. 0 < i \<and> i < n \<longrightarrow> i \<noteq> hole \<longrightarrow> (i - 1) div 2 \<noteq> hole \<longrightarrow> key (xs ! i) \<le> key (xs ! ((i - 1) div 2))) \<and>
     (\<forall>i. 0 < i \<and> i < n \<longrightarrow> (i - 1) div 2 = hole \<longrightarrow> 0 < hole \<longrightarrow> key (xs ! i) \<le> key (xs ! ((hole - 1) div 2)))"

lemma length_sift_up [simp]: "length (sift_up lt hole v xs) = length xs"
  by (induction lt hole v xs rule: sift_up.induct) (subst sift_up.simps, simp)

lemma length_adjust_heap [simp]: "length (adjust_heap lt hole n v xs) = length xs"
  by (induction lt hole n v xs rule: adjust_heap.induct) (subst adjust_heap.simps, simp add: Let_def)

lemma length_push_heap [simp]: "length (push_heap lt xs) = length xs"
  by (simp add: push_heap_def)

lemma length_pop_heap [simp]: "length (pop_heap lt n xs) = length xs"
  by (simp add: pop_heap_def)

lemma length_sort_heap [simp]: "length (sort_heap lt n xs) = length xs"
  by (induction lt n xs rule: sort_heap.induct) simp_all

lemma mset_move:
  assumes "i < length xs" and "j < length xs" and "i \<noteq> j"
  shows "mset (xs[i := xs ! j, j := v]) = mset (xs[i := v])"
proof -
  let ?ys = "xs[i := v]"
  have "mset (?ys[i := ?ys ! j, j := ?ys ! i]) = mset ?ys"
    using assms by (intro mset_swap) simp_all
  then show ?thesis using assms by (simp add: nth_list_update)
qed

lemma mset_sift_up: "hole < length xs \<Longrightarrow> mset (sift_up lt hole v xs) = mset (xs[hole := v])"
proof (induction lt hole v xs rule: sift_up.induct)
  case (1 lt hole v xs)
  show ?case
  proof (cases "0 < hole \<and> lt (xs ! ((hole - 1) div 2)) v")
    case True
    let ?p = "(hole - 1) div 2"
    have p: "?p < hole" using True by linarith
    have "mset (sift_up lt hole v xs) = mset (sift_up lt ?p v (xs[hole := xs ! ?p]))"
      using True by (subst sift_up.simps) simp
    also have "\<dots> = mset (xs[hole := xs ! ?p, ?p := v])" using 1 True p by simp
    also have "\<dots> = mset (xs[hole := v])" using 1(2) p by (intro mset_move) simp_all
    finally show ?thesis .
  next
    case False
    then show ?thesis by (subst sift_up.simps) auto
  qed
qed

lemma is_heap_sift_up:
  assumes "hole < n" and "n \<le> length xs" and "heap_but key n hole xs"
    and "\<forall>i. 0 < i \<and> i < n \<longrightarrow> (i - 1) div 2 = hole \<longrightarrow> key (xs ! i) \<le> key v"
    and "key_order key lt (insert v (set xs))"
  shows "is_heap key n (sift_up lt hole v xs)"
  using assms
proof (induction lt hole v xs rule: sift_up.induct)
  case (1 lt hole v xs)
  note but = 1(4) and child = 1(5)
  let ?p = "(hole - 1) div 2"
  have lt: "0 < hole \<Longrightarrow> lt (xs ! ?p) v \<longleftrightarrow> key (xs ! ?p) < key v"
    using 1(2,3,6) by (simp add: key_order_def)
  show ?case
  proof (cases "0 < hole \<and> lt (xs ! ?p) v")
    case True
    let ?ys = "xs[hole := xs ! ?p]"
    have p: "?p < hole" "?p < length xs" using True 1(2,3) by linarith+
    have pv: "key (xs ! ?p) < key v" using True lt by simp
    have ok: "\<And>i. 0 < i \<Longrightarrow> i < n \<Longrightarrow> i \<noteq> hole \<Longrightarrow> (i - 1) div 2 \<noteq> hole \<Longrightarrow> key (xs ! i) \<le> key (xs ! ((i - 1) div 2))"
      and ch: "\<And>i. 0 < i \<Longrightarrow> i < n \<Longrightarrow> (i - 1) div 2 = hole \<Longrightarrow> key (xs ! i) \<le> key (xs ! ?p)"
      using but True by (auto simp: heap_but_def)
    have "is_heap key n (sift_up lt ?p v ?ys)"
    proof (rule 1(1) [OF True])
      show "?p < n" "n \<le> length ?ys" using p 1(2,3) by simp_all
      show "heap_but key n ?p ?ys"
        unfolding heap_but_def
      proof (intro conjI allI impI)
        fix i assume i: "0 < i \<and> i < n" "i \<noteq> ?p" "(i - 1) div 2 \<noteq> ?p"
        then have "i \<noteq> hole" by auto
        then show "key (?ys ! i) \<le> key (?ys ! ((i - 1) div 2))"
          using i ok [of i] ch [of i] 1(2,3) by (auto simp: nth_list_update)
      next
        fix i assume i: "0 < i \<and> i < n" "(i - 1) div 2 = ?p" "0 < ?p"
        have pp: "(?p - 1) div 2 < ?p" "(?p - 1) div 2 \<noteq> hole" using i(3) p by linarith+
        have "key (xs ! ?p) \<le> key (xs ! ((?p - 1) div 2))" using ok [of ?p] i(3) p pp 1(2) by simp
        moreover have "i \<noteq> hole \<Longrightarrow> key (xs ! i) \<le> key (xs ! ?p)" using ok [of i] i p by simp
        ultimately show "key (?ys ! i) \<le> key (?ys ! ((?p - 1) div 2))"
          using i pp 1(2,3) by (cases "i = hole") (auto simp: nth_list_update)
      qed
      show "\<forall>i. 0 < i \<and> i < n \<longrightarrow> (i - 1) div 2 = ?p \<longrightarrow> key (?ys ! i) \<le> key v"
      proof (intro allI impI)
        fix i assume i: "0 < i \<and> i < n" "(i - 1) div 2 = ?p"
        have "i \<noteq> hole \<Longrightarrow> key (xs ! i) \<le> key (xs ! ?p)" using ok [of i] i p by simp
        then show "key (?ys ! i) \<le> key v" using pv i 1(2,3) by (cases "i = hole") auto
      qed
      have "set ?ys \<subseteq> set xs" using p by (auto dest: set_update_subset_insert [THEN subsetD])
      then show "key_order key lt (insert v (set ?ys))" using 1(6) by (auto simp: key_order_def)
    qed
    then show ?thesis using True by (subst sift_up.simps) simp
  next
    case False
    have "is_heap key n (xs[hole := v])"
      unfolding is_heap_def
    proof (intro allI impI)
      fix i assume i: "0 < i \<and> i < n"
      show "key (xs[hole := v] ! i) \<le> key (xs[hole := v] ! ((i - 1) div 2))"
      proof (cases "i = hole")
        case True
        then have "(hole - 1) div 2 \<noteq> hole" "\<not> key (xs ! ?p) < key v" using i False lt by auto
        then show ?thesis using True i 1(2,3) by (simp add: nth_list_update)
      next
        case ne: False
        then show ?thesis using but child i 1(2,3)
          by (cases "(i - 1) div 2 = hole") (auto simp: heap_but_def nth_list_update)
      qed
    qed
    then show ?thesis using False by (subst sift_up.simps) auto
  qed
qed

lemma set_adjust_step: "i < length xs \<Longrightarrow> j < length xs \<Longrightarrow> set (xs[i := xs ! j]) \<subseteq> set xs"
  by (auto dest: set_update_subset_insert [THEN subsetD])

lemma mset_adjust_heap: "hole < length xs \<Longrightarrow> hole < n \<Longrightarrow> n \<le> length xs \<Longrightarrow>
  mset (adjust_heap lt hole n v xs) = mset (xs[hole := v])"
proof (induction lt hole n v xs rule: adjust_heap.induct)
  case (1 lt hole n v xs)
  let ?c = "2 * (hole + 1)"
  let ?s = "if lt (xs ! ?c) (xs ! (?c - 1)) then ?c - 1 else ?c"
  consider (down) "hole < (n - 1) div 2" | (one) "\<not> hole < (n - 1) div 2" "even n \<and> 0 < n \<and> hole = (n - 2) div 2"
    | (leaf) "\<not> hole < (n - 1) div 2" "\<not> (even n \<and> 0 < n \<and> hole = (n - 2) div 2)" by blast
  then show ?case
  proof cases
    case down
    then have s: "?s < n" "hole < ?s" by auto
    have "mset (adjust_heap lt hole n v xs) = mset (adjust_heap lt ?s n v (xs[hole := xs ! ?s]))"
      using down by (subst adjust_heap.simps) (simp add: Let_def)
    also have "\<dots> = mset (xs[hole := xs ! ?s, ?s := v])"
      using 1(1) [OF down refl] s 1(4) by simp
    also have "\<dots> = mset (xs[hole := v])" using s 1(2,4) by (intro mset_move) simp_all
    finally show ?thesis .
  next
    case one
    let ?d = "2 * hole + 1"
    have d: "?d < n" "hole < ?d" using one(2) by presburger+
    have "mset (adjust_heap lt hole n v xs) = mset (sift_up lt ?d v (xs[hole := xs ! ?d]))"
      using one by (subst adjust_heap.simps) simp
    also have "\<dots> = mset (xs[hole := xs ! ?d, ?d := v])" using d 1(4) by (intro mset_sift_up) simp
    also have "\<dots> = mset (xs[hole := v])" using d 1(2,4) by (intro mset_move) simp_all
    finally show ?thesis .
  next
    case leaf
    then have "adjust_heap lt hole n v xs = sift_up lt hole v xs" by (subst adjust_heap.simps) auto
    then show ?thesis using mset_sift_up [OF 1(2)] by simp
  qed
qed

text \<open>One step down: the hole moves to its greatest child.\<close>

lemma heap_but_down:
  assumes "heap_but key n hole xs" and "s < n" and "(s - 1) div 2 = hole" and "hole < s" and "n \<le> length xs"
    and "\<forall>i. 0 < i \<and> i < n \<longrightarrow> (i - 1) div 2 = hole \<longrightarrow> key (xs ! i) \<le> key (xs ! s)"
  shows "heap_but key n s (xs[hole := xs ! s])"
  unfolding heap_but_def
proof (intro conjI allI impI)
  let ?ys = "xs[hole := xs ! s]"
  have ok: "\<And>i. 0 < i \<Longrightarrow> i < n \<Longrightarrow> i \<noteq> hole \<Longrightarrow> (i - 1) div 2 \<noteq> hole \<Longrightarrow> key (xs ! i) \<le> key (xs ! ((i - 1) div 2))"
    and up: "\<And>i. 0 < i \<Longrightarrow> i < n \<Longrightarrow> (i - 1) div 2 = hole \<Longrightarrow> 0 < hole \<Longrightarrow> key (xs ! i) \<le> key (xs ! ((hole - 1) div 2))"
    using assms(1) by (auto simp: heap_but_def)
  {
    fix i assume i: "0 < i \<and> i < n" "i \<noteq> s" "(i - 1) div 2 \<noteq> s"
    show "key (?ys ! i) \<le> key (?ys ! ((i - 1) div 2))"
    proof (cases "i = hole")
      case True
      then have "(i - 1) div 2 \<noteq> hole" using i by linarith
      then show ?thesis using True up [of s] assms i by simp
    next
      case False
      then show ?thesis using ok [of i] assms i by (cases "(i - 1) div 2 = hole") auto
    qed
  next
    fix i assume i: "0 < i \<and> i < n" "(i - 1) div 2 = s" "0 < s"
    then have "i \<noteq> hole" "s \<noteq> hole" using assms(4) by linarith+
    then show "key (?ys ! i) \<le> key (?ys ! ((s - 1) div 2))" using ok [of i] i assms by simp
  }
qed

lemma is_heap_adjust_heap:
  assumes "hole < n" and "n \<le> length xs" and "heap_but key n hole xs" and "key_order key lt (insert v (set xs))"
  shows "is_heap key n (adjust_heap lt hole n v xs)"
  using assms
proof (induction lt hole n v xs rule: adjust_heap.induct)
  case (1 lt hole n v xs)
  note order = 1(5)
  let ?c = "2 * (hole + 1)"
  let ?s = "if lt (xs ! ?c) (xs ! (?c - 1)) then ?c - 1 else ?c"
  have order': "key_order key lt (insert v (set (xs[hole := xs ! j])))" if "j < n" for j
    using set_adjust_step [of hole xs j] that 1(2,3) order by (auto simp: key_order_def)
  consider (down) "hole < (n - 1) div 2" | (one) "\<not> hole < (n - 1) div 2" "even n \<and> 0 < n \<and> hole = (n - 2) div 2"
    | (leaf) "\<not> hole < (n - 1) div 2" "\<not> (even n \<and> 0 < n \<and> hole = (n - 2) div 2)" by blast
  then show ?case
  proof cases
    case down
    then have s: "?s < n" "hole < ?s" "(?s - 1) div 2 = hole" "?c < n" by auto
    have "lt (xs ! ?c) (xs ! (?c - 1)) \<longleftrightarrow> key (xs ! ?c) < key (xs ! (?c - 1))"
      using order s(4) 1(3) by (simp add: key_order_def)
    then have "\<forall>i. 0 < i \<and> i < n \<longrightarrow> (i - 1) div 2 = hole \<longrightarrow> key (xs ! i) \<le> key (xs ! ?s)"
    proof (intro allI impI)
      fix i assume i: "0 < i \<and> i < n" "(i - 1) div 2 = hole"
      then have "i = ?c - 1 \<or> i = ?c" by presburger
      then show "key (xs ! i) \<le> key (xs ! ?s)"
        using \<open>lt (xs ! ?c) (xs ! (?c - 1)) \<longleftrightarrow> _\<close> by (auto simp: less_imp_le not_less)
    qed
    then have "heap_but key n ?s (xs[hole := xs ! ?s])"
      by (intro heap_but_down [OF 1(4) s(1,3,2) 1(3)])
    then have "is_heap key n (adjust_heap lt ?s n v (xs[hole := xs ! ?s]))"
      using 1(1) [OF down refl] s(1) 1(3) order' by simp
    then show ?thesis using down by (subst adjust_heap.simps) (simp add: Let_def)
  next
    case one
    let ?d = "2 * hole + 1"
    have d: "?d < n" "hole < ?d" "(?d - 1) div 2 = hole" "n = ?d + 1" using one(2) by presburger+
    have kids: "\<forall>i. 0 < i \<and> i < n \<longrightarrow> (i - 1) div 2 = hole \<longrightarrow> key (xs ! i) \<le> key (xs ! ?d)"
    proof (intro allI impI)
      fix i assume i: "0 < i \<and> i < n" "(i - 1) div 2 = hole"
      then have "i = ?d" using d(4) by presburger
      then show "key (xs ! i) \<le> key (xs ! ?d)" by simp
    qed
    have "is_heap key n (sift_up lt ?d v (xs[hole := xs ! ?d]))"
    proof (rule is_heap_sift_up)
      show "heap_but key n ?d (xs[hole := xs ! ?d])" by (rule heap_but_down [OF 1(4) d(1,3,2) 1(3) kids])
      show "\<forall>i. 0 < i \<and> i < n \<longrightarrow> (i - 1) div 2 = ?d \<longrightarrow> key (xs[hole := xs ! ?d] ! i) \<le> key v"
        using d(4) by (auto; presburger)
    qed (use d 1(3) order' in simp_all)
    then show ?thesis using one by (subst adjust_heap.simps) simp
  next
    case leaf
    have "\<forall>i. 0 < i \<and> i < n \<longrightarrow> (i - 1) div 2 = hole \<longrightarrow> key (xs ! i) \<le> key v"
    proof (intro allI impI)
      fix i assume i: "0 < i \<and> i < n" "(i - 1) div 2 = hole"
      have "i = 2 * hole + 1 \<or> i = 2 * hole + 2" using i by linarith
      then have "n = 2 * hole + 2" using i(1) leaf(1) by linarith
      then have False using leaf(2) by simp
      then show "key (xs ! i) \<le> key v" ..
    qed
    then have "is_heap key n (sift_up lt hole v xs)"
      using is_heap_sift_up [OF 1(2-4)] order by blast
    then show ?thesis using leaf by (subst adjust_heap.simps) auto
  qed
qed

lemma set_pop_heap_element: "key_order key lt (set xs) \<Longrightarrow> i < length xs \<Longrightarrow> j < length xs \<Longrightarrow> k < length xs
  \<Longrightarrow> key_order key lt (insert (xs ! k) (set (xs[i := xs ! j])))"
  using set_adjust_step [of i xs j] by (auto simp: key_order_def)

lemma nth_sift_up: "hole < i \<Longrightarrow> sift_up lt hole v xs ! i = xs ! i"
proof (induction lt hole v xs rule: sift_up.induct)
  case (1 lt hole v xs)
  have "(hole - 1) div 2 < i" using 1(2) by linarith
  then show ?case using 1 by (subst sift_up.simps) auto
qed

lemma nth_adjust_heap: "hole < n \<Longrightarrow> n \<le> i \<Longrightarrow> adjust_heap lt hole n v xs ! i = xs ! i"
proof (induction lt hole n v xs rule: adjust_heap.induct)
  case (1 lt hole n v xs)
  let ?s = "if lt (xs ! (2 * (hole + 1))) (xs ! (2 * (hole + 1) - 1)) then 2 * (hole + 1) - 1 else 2 * (hole + 1)"
  consider (down) "hole < (n - 1) div 2" | (one) "\<not> hole < (n - 1) div 2" "even n \<and> 0 < n \<and> hole = (n - 2) div 2"
    | (leaf) "\<not> hole < (n - 1) div 2" "\<not> (even n \<and> 0 < n \<and> hole = (n - 2) div 2)" by blast
  then show ?case
  proof cases
    case down
    then have s: "?s < n" "hole < ?s" by auto
    have "adjust_heap lt hole n v xs = adjust_heap lt ?s n v (xs[hole := xs ! ?s])"
      using down by (subst adjust_heap.simps) (simp add: Let_def)
    then show ?thesis using 1(1) [OF down refl s(1) 1(3)] 1(2,3) by simp
  next
    case one
    then have "2 * hole + 1 < n" by presburger
    then show ?thesis using one 1(2,3) by (subst adjust_heap.simps) (simp add: nth_sift_up)
  next
    case leaf
    then have "adjust_heap lt hole n v xs = sift_up lt hole v xs" by (subst adjust_heap.simps) auto
    then show ?thesis using 1(2,3) by (simp add: nth_sift_up)
  qed
qed

lemma is_heap_top: "is_heap key n xs \<Longrightarrow> i < n \<Longrightarrow> key (xs ! i) \<le> key (xs ! 0)"
proof (induction i rule: less_induct)
  case (less i)
  show ?case
  proof (cases "i = 0")
    case False
    then have "key (xs ! i) \<le> key (xs ! ((i - 1) div 2))" using less by (simp add: is_heap_def)
    also have "\<dots> \<le> key (xs ! 0)" using less False by (intro less.IH) linarith+
    finally show ?thesis .
  qed simp
qed

lemma pop_heap_result:
  assumes "is_heap key n xs" and "0 < n" and "n \<le> length xs" and "key_order key lt (set xs)"
  shows "mset (pop_heap lt n xs) = mset xs \<and> is_heap key (n - 1) (pop_heap lt n xs)
    \<and> pop_heap lt n xs ! (n - 1) = xs ! 0 \<and> drop n (pop_heap lt n xs) = drop n xs"
proof (cases "1 < n")
  case True
  let ?ys = "xs[n - 1 := xs ! 0]"
  have pop: "pop_heap lt n xs = adjust_heap lt 0 (n - 1) (xs ! (n - 1)) ?ys" using True by (simp add: pop_heap_def)
  have "mset (pop_heap lt n xs) = mset (?ys[0 := xs ! (n - 1)])"
    unfolding pop using True assms(3) by (intro mset_adjust_heap) auto
  also have "\<dots> = mset xs" using True assms(3) by (intro mset_swap) auto
  finally have "mset (pop_heap lt n xs) = mset xs" .
  moreover have "is_heap key (n - 1) (pop_heap lt n xs)"
    unfolding pop
  proof (rule is_heap_adjust_heap)
    show "heap_but key (n - 1) 0 ?ys"
      using assms(1) True by (auto simp: heap_but_def is_heap_def nth_list_update)
    show "key_order key lt (insert (xs ! (n - 1)) (set ?ys))"
      using True assms(3) by (intro set_pop_heap_element assms(4)) auto
  qed (use True assms(3) in auto)
  moreover have "i \<ge> n - 1 \<Longrightarrow> pop_heap lt n xs ! i = ?ys ! i" for i
    unfolding pop using True by (intro nth_adjust_heap) auto
  moreover from this have "drop n (pop_heap lt n xs) = drop n xs"
    using True by (intro nth_equalityI) auto
  ultimately show ?thesis using True assms(3) by simp
next
  case False
  then have "n = 1" using assms(2) by simp
  then show ?thesis by (simp add: pop_heap_def is_heap_def)
qed

lemma push_heap_result:
  assumes "is_heap key (length xs) xs" and "key_order key lt (insert v (set xs))"
  shows "mset (push_heap lt (xs @ [v])) = mset (xs @ [v]) \<and> is_heap key (length xs + 1) (push_heap lt (xs @ [v]))"
proof -
  have order: "key_order key lt (insert v (set (xs @ [v])))" using assms(2) by simp
  have "is_heap key (length xs + 1) (sift_up lt (length xs) v (xs @ [v]))"
  proof (rule is_heap_sift_up [OF _ _ _ _ order])
    have "(i - 1) div 2 < length xs" if "0 < i" "i < length xs" for i using that by linarith
    then show "heap_but key (length xs + 1) (length xs) (xs @ [v])"
      using assms(1) by (auto simp: heap_but_def is_heap_def nth_append less_Suc_eq)
    show "\<forall>i. 0 < i \<and> i < length xs + 1 \<longrightarrow> (i - 1) div 2 = length xs \<longrightarrow> key ((xs @ [v]) ! i) \<le> key v"
      by (auto; presburger)
  qed simp_all
  then show ?thesis by (simp add: push_heap_def mset_sift_up)
qed

lemma mset_take_eq: "mset xs = mset ys \<Longrightarrow> drop n xs = drop n ys \<Longrightarrow> mset (take n xs) = mset (take n ys)"
  by (metis add_right_cancel append_take_drop_id mset_append)

lemma sort_heap_result:
  assumes "is_heap key n xs" and "n \<le> length xs" and "key_order key lt (set xs)"
  shows "mset (sort_heap lt n xs) = mset xs \<and> drop n (sort_heap lt n xs) = drop n xs
    \<and> sorted_wrt (\<lambda>a b. key a \<le> key b) (take n (sort_heap lt n xs))"
  using assms
proof (induction lt n xs rule: sort_heap.induct)
  case (2 lt n xs)
  let ?ys = "pop_heap lt (Suc n) xs"
  let ?zs = "sort_heap lt n ?ys"
  have pop: "mset ?ys = mset xs" "is_heap key n ?ys" "?ys ! n = xs ! 0" "drop (Suc n) ?ys = drop (Suc n) xs"
    using pop_heap_result [OF 2(2) _ 2(3,4)] by simp_all
  have IH: "mset ?zs = mset ?ys" "drop n ?zs = drop n ?ys" "sorted_wrt (\<lambda>a b. key a \<le> key b) (take n ?zs)"
    using 2(1) pop(1,2) 2(3,4) mset_eq_setD [OF pop(1)] by auto
  have n: "?zs ! n = ?ys ! n" using arg_cong [OF IH(2), of hd] 2(3) by (simp add: hd_drop_conv_nth)
  have top: "key a \<le> key (xs ! 0)" if "a \<in> set (take n ?zs)" for a
  proof -
    have "a \<in> set (take (Suc n) ?ys)"
      using that mset_eq_setD [OF mset_take_eq [OF IH(1,2)]] set_take_subset_set_take [of n "Suc n" ?ys] by auto
    then have "a \<in> set (take (Suc n) xs)" using mset_eq_setD [OF mset_take_eq [OF pop(1,4)]] by simp
    then obtain i where "i < Suc n" "a = xs ! i" by (auto simp: in_set_conv_nth)
    then show ?thesis using is_heap_top [OF 2(2)] by simp
  qed
  have "take (Suc n) ?zs = take n ?zs @ [xs ! 0]" using n pop(3) 2(3) by (simp add: take_Suc_conv_app_nth)
  then have "sorted_wrt (\<lambda>a b. key a \<le> key b) (take (Suc n) ?zs)" using IH(3) top by (simp add: sorted_wrt_append)
  moreover have "drop (Suc n) ?zs = drop (Suc n) xs"
    using arg_cong [OF IH(2), of "drop 1"] pop(4) by simp
  ultimately show ?case using IH(1) pop(1) by simp
qed simp

section \<open>Entries and their order\<close>

record heap_entry =
  entry_index :: nat
  entry_value :: fl

abbreviation entry :: "nat \<Rightarrow> fl \<Rightarrow> heap_entry" where
  "entry i v \<equiv> \<lparr>entry_index = i, entry_value = v\<rparr>"

abbreviation far :: heap_entry where "far \<equiv> entry 0 (Inf False)"

definition entry_less :: "heap_entry \<Rightarrow> heap_entry \<Rightarrow> bool" where
  "entry_less a b = fl_less (entry_value a) (entry_value b)"

fun fl_key :: "fl \<Rightarrow> int \<times> rat" where
  "fl_key NaN = (2, 0)"
| "fl_key (Inf s) = (if s then -1 else 1, 0)"
| "fl_key (Fin s m) = (0, fl_val (Fin s m))"

lemma fl_less_key: "a \<noteq> NaN \<Longrightarrow> b \<noteq> NaN \<Longrightarrow> fl_less a b \<longleftrightarrow> fl_key a < fl_key b"
  by (cases a; cases b) auto

abbreviation entry_key :: "heap_entry \<Rightarrow> int \<times> rat" where "entry_key e \<equiv> fl_key (entry_value e)"

definition numbers :: "heap_entry set \<Rightarrow> bool" where
  "numbers A \<longleftrightarrow> (\<forall>e \<in> A. entry_value e \<noteq> NaN)"

lemma entry_order: "numbers A \<Longrightarrow> key_order entry_key entry_less A"
  by (auto simp: numbers_def key_order_def entry_less_def fl_less_key)

section \<open>The heap on the standard library's algorithms\<close>

record index_heap_stl =
  heap_data :: "heap_entry list"
  nbNeighbours :: nat

definition IndexHeapSTL :: "nat \<Rightarrow> index_heap_stl" where
  "IndexHeapSTL k = \<lparr>heap_data = [far], nbNeighbours = k\<rparr>"

definition stl_reset :: "index_heap_stl \<Rightarrow> index_heap_stl" where
  "stl_reset h = h\<lparr>heap_data := [far]\<rparr>"

definition stl_headValue :: "index_heap_stl \<Rightarrow> fl" where
  "stl_headValue h = entry_value (hd (heap_data h))"

definition stl_replaceHead :: "nat \<Rightarrow> fl \<Rightarrow> index_heap_stl \<Rightarrow> index_heap_stl" where
  "stl_replaceHead i v h =
     (let d = heap_data h; n = length d;
          d = (if n = nbNeighbours h then (pop_heap entry_less n d)[n - 1 := entry i v] else d @ [entry i v])
      in h\<lparr>heap_data := push_heap entry_less d\<rparr>)"

definition stl_sort :: "index_heap_stl \<Rightarrow> index_heap_stl" where
  "stl_sort h = h\<lparr>heap_data := sort_heap entry_less (length (heap_data h)) (heap_data h)\<rparr>"

text \<open>What \<^verbatim>\<open>getData\<close> writes into the rows of the two result columns.\<close>

definition stl_getData :: "index_heap_stl \<Rightarrow> heap_entry list" where
  "stl_getData h = heap_data h @ replicate (nbNeighbours h - length (heap_data h)) far"

section \<open>The heap on an array in order\<close>

record index_heap_vector =
  vec_data :: "heap_entry list"

definition IndexHeapBruteForceVector :: "nat \<Rightarrow> index_heap_vector" where
  "IndexHeapBruteForceVector k = \<lparr>vec_data = replicate k far\<rparr>"

definition vec_reset :: "index_heap_vector \<Rightarrow> index_heap_vector" where
  "vec_reset h = h\<lparr>vec_data := map (\<lambda>e. far) (vec_data h)\<rparr>"

definition vec_headValue :: "index_heap_vector \<Rightarrow> fl" where
  "vec_headValue h = entry_value (vec_data h ! (length (vec_data h) - 1))"

text \<open>The loop that moves the greater entries up and stores the new one below them.\<close>

fun shift_in :: "nat \<Rightarrow> heap_entry \<Rightarrow> heap_entry list \<Rightarrow> heap_entry list" where
  "shift_in 0 e xs = xs[0 := e]"
| "shift_in (Suc i) e xs =
     (if fl_less (entry_value e) (entry_value (xs ! i)) then shift_in i e (xs[Suc i := xs ! i]) else xs[Suc i := e])"

definition vec_replaceHead :: "nat \<Rightarrow> fl \<Rightarrow> index_heap_vector \<Rightarrow> index_heap_vector" where
  "vec_replaceHead i v h = h\<lparr>vec_data := shift_in (length (vec_data h) - 1) (entry i v) (vec_data h)\<rparr>"

definition vec_sort :: "index_heap_vector \<Rightarrow> index_heap_vector" where
  "vec_sort h = h"

definition vec_getData :: "index_heap_vector \<Rightarrow> heap_entry list" where
  "vec_getData h = vec_data h"

section \<open>What a search relies on\<close>

text \<open>The heap a search is instantiated with, as the operations of the template's parameter.\<close>

record 'h index_heap =
  heap_new :: "nat \<Rightarrow> 'h"
  heap_reset :: "'h \<Rightarrow> 'h"
  headValue :: "'h \<Rightarrow> fl"
  replaceHead :: "nat \<Rightarrow> fl \<Rightarrow> 'h \<Rightarrow> 'h"
  heap_sort :: "'h \<Rightarrow> 'h"
  getData :: "'h \<Rightarrow> heap_entry list"

definition stl_heap :: "index_heap_stl index_heap" where
  "stl_heap = \<lparr>heap_new = IndexHeapSTL, heap_reset = stl_reset, headValue = stl_headValue,
     replaceHead = stl_replaceHead, heap_sort = stl_sort, getData = stl_getData\<rparr>"

definition vector_heap :: "index_heap_vector index_heap" where
  "vector_heap = \<lparr>heap_new = IndexHeapBruteForceVector, heap_reset = vec_reset, headValue = vec_headValue,
     replaceHead = vec_replaceHead, heap_sort = vec_sort, getData = vec_getData\<rparr>"

text \<open>
  \<open>nearest P V\<close>: the entries \<open>V\<close> are a choice from \<open>P\<close> that leaves nothing smaller behind.
\<close>

definition nearest :: "heap_entry multiset \<Rightarrow> heap_entry multiset \<Rightarrow> bool" where
  "nearest P V \<longleftrightarrow> V \<subseteq># P \<and> (\<forall>e \<in># V. \<forall>f \<in># P - V. entry_key e \<le> entry_key f)"

definition pads :: "nat \<Rightarrow> heap_entry multiset" where
  "pads k = replicate_mset k far"

locale neighbour_heap =
  fixes H :: "'h index_heap"
    and heap_inv :: "nat \<Rightarrow> 'h \<Rightarrow> bool"
    and contents :: "'h \<Rightarrow> heap_entry multiset"
  assumes new_heap: "0 < k \<Longrightarrow> heap_inv k (heap_new H k) \<and> contents (heap_new H k) = pads k"
    and reset_heap: "heap_inv k h \<Longrightarrow> heap_inv k (heap_reset H h) \<and> contents (heap_reset H h) = pads k"
    and size_contents: "heap_inv k h \<Longrightarrow> size (contents h) = k"
    and no_nan: "heap_inv k h \<Longrightarrow> numbers (set_mset (contents h))"
    and head_greatest: "heap_inv k h \<Longrightarrow> e \<in># contents h \<Longrightarrow> entry_key e \<le> fl_key (headValue H h)"
    and head_number: "heap_inv k h \<Longrightarrow> headValue H h \<noteq> NaN"
    and replace_head: "heap_inv k h \<Longrightarrow> v \<noteq> NaN \<Longrightarrow> heap_inv k (replaceHead H i v h) \<and>
      (\<exists>e \<in># contents h. entry_value e = headValue H h \<and>
        contents (replaceHead H i v h) = contents h - {#e#} + {#entry i v#})"
    and data_contents: "heap_inv k h \<Longrightarrow> mset (getData H h) = contents h"
    and sorted_data: "heap_inv k h \<Longrightarrow> mset (getData H (heap_sort H h)) = contents h \<and>
      sorted_wrt (\<lambda>a b. entry_key a \<le> entry_key b) (getData H (heap_sort H h))"
    and reset_sorted: "heap_inv k h \<Longrightarrow> heap_reset H (heap_sort H h) = heap_reset H h"
begin

lemma head_in_contents: "heap_inv k h \<Longrightarrow> \<exists>e \<in># contents h. entry_value e = headValue H h"
  using replace_head [of k h fl_zero 0] by auto

end

section \<open>Both heaps provide it\<close>

definition stl_inv :: "nat \<Rightarrow> index_heap_stl \<Rightarrow> bool" where
  "stl_inv k h \<longleftrightarrow> nbNeighbours h = k \<and> 0 < length (heap_data h) \<and> length (heap_data h) \<le> k \<and>
     is_heap entry_key (length (heap_data h)) (heap_data h) \<and> numbers (set (heap_data h)) \<and>
     (length (heap_data h) < k \<longrightarrow> far \<in> set (heap_data h))"

definition stl_contents :: "index_heap_stl \<Rightarrow> heap_entry multiset" where
  "stl_contents h = mset (heap_data h) + pads (nbNeighbours h - length (heap_data h))"

definition vec_inv :: "nat \<Rightarrow> index_heap_vector \<Rightarrow> bool" where
  "vec_inv k h \<longleftrightarrow> 0 < k \<and> length (vec_data h) = k \<and> numbers (set (vec_data h)) \<and>
     sorted_wrt (\<lambda>a b. entry_key a \<le> entry_key b) (vec_data h)"

lemma fl_key_le_far: "v \<noteq> NaN \<Longrightarrow> fl_key v \<le> fl_key (Inf False)"
  by (cases v) auto

lemma fl_key_far: "v \<noteq> NaN \<Longrightarrow> fl_key (Inf False) \<le> fl_key v \<Longrightarrow> v = Inf False"
  by (cases v) (auto split: if_splits)

lemma numbers_Un [simp]: "numbers (A \<union> B) \<longleftrightarrow> numbers A \<and> numbers B"
  "numbers (insert e A) \<longleftrightarrow> entry_value e \<noteq> NaN \<and> numbers A" "numbers {}"
  by (auto simp: numbers_def)

lemma stl_head_greatest:
  assumes "stl_inv k h" and "e \<in> set (heap_data h)"
  shows "entry_key e \<le> fl_key (stl_headValue h)"
proof -
  obtain j where "j < length (heap_data h)" "e = heap_data h ! j" using assms(2) by (auto simp: in_set_conv_nth)
  then show ?thesis
    using is_heap_top [of entry_key "length (heap_data h)" "heap_data h" j] assms(1)
    by (auto simp: stl_inv_def stl_headValue_def hd_conv_nth)
qed

lemma is_heap_prefix: "is_heap key (length xs) (xs @ ys) \<longleftrightarrow> is_heap key (length xs) xs"
proof -
  have "(i - 1) div 2 < length xs" if "i < length xs" for i using that by linarith
  then show ?thesis by (auto simp: is_heap_def nth_append)
qed

lemma stl_replace_result:
  assumes "stl_inv k h" and "v \<noteq> NaN"
  shows "stl_inv k (stl_replaceHead i v h) \<and> (\<exists>e \<in># stl_contents h. entry_value e = stl_headValue h \<and>
    stl_contents (stl_replaceHead i v h) = stl_contents h - {#e#} + {#entry i v#})"
proof -
  let ?d = "heap_data h" and ?n = "length (heap_data h)"
  have inv: "nbNeighbours h = k" "0 < ?n" "?n \<le> k" "is_heap entry_key ?n ?d" "numbers (set ?d)" "?n < k \<Longrightarrow> far \<in> set ?d"
    using assms(1) by (auto simp: stl_inv_def)
  have push: "mset (push_heap entry_less (xs @ [entry i v])) = mset (xs @ [entry i v]) \<and>
      is_heap entry_key (length xs + 1) (push_heap entry_less (xs @ [entry i v]))"
    if "is_heap entry_key (length xs) xs" "numbers (set xs)" for xs
    using push_heap_result [OF that(1)] entry_order that(2) assms(2) by simp
  have set_push: "set (push_heap entry_less (xs @ [entry i v])) = insert (entry i v) (set xs)"
    if "is_heap entry_key (length xs) xs" "numbers (set xs)" for xs
    using mset_eq_setD [OF conjunct1 [OF push [OF that]]] by simp
  show ?thesis
  proof (cases "?n = k")
    case True
    let ?p = "pop_heap entry_less ?n ?d"
    have pop: "mset ?p = mset ?d" "is_heap entry_key (?n - 1) ?p" "?p ! (?n - 1) = hd ?d"
      using pop_heap_result [OF inv(4,2) order_refl entry_order [OF inv(5)]] inv(2) by (auto simp: hd_conv_nth)
    have "?p = take (?n - 1) ?p @ [hd ?d]"
      using pop(3) inv(2) take_Suc_conv_app_nth [of "?n - 1" ?p] by simp
    then obtain xs where split: "?p = xs @ [hd ?d]" by blast
    then have len: "length xs = ?n - 1" by (metis length_append_singleton length_pop_heap diff_Suc_1)
    have upd: "?p[?n - 1 := entry i v] = xs @ [entry i v]" using len by (simp add: split list_update_append)
    have ms: "mset ?d = mset xs + {#hd ?d#}" using pop(1) arg_cong [OF split, of mset] by simp
    from ms have sub: "set xs \<subseteq> set ?d" by (metis add_mset_add_single set_mset_add_mset_insert set_mset_mset subset_insertI)
    have heap: "is_heap entry_key (length xs) xs" using pop(2) is_heap_prefix [of entry_key xs "[hd ?d]"] unfolding split len [symmetric] by simp
    have num: "numbers (set xs)" using inv(5) sub by (auto simp: numbers_def)
    have r: "stl_replaceHead i v h = h\<lparr>heap_data := push_heap entry_less (xs @ [entry i v])\<rparr>"
      unfolding stl_replaceHead_def Let_def upd using True inv(1) by simp
    have "stl_inv k (stl_replaceHead i v h)"
      using push [OF heap num] set_push [OF heap num] num assms(2) inv(1,2) True
      by (simp add: r stl_inv_def len)
    moreover have "stl_contents (stl_replaceHead i v h) = stl_contents h - {#hd ?d#} + {#entry i v#}"
      using push [OF heap num] inv(1,2) True by (simp add: r stl_contents_def ms pads_def len)
    moreover have "hd ?d \<in># stl_contents h" "entry_value (hd ?d) = stl_headValue h"
      using inv(2) by (auto simp: stl_contents_def stl_headValue_def)
    ultimately show ?thesis by blast
  next
    case False
    then have less: "?n < k" "far \<in> set ?d" using inv by auto
    have r: "stl_replaceHead i v h = h\<lparr>heap_data := push_heap entry_less (?d @ [entry i v])\<rparr>"
      using False inv(1) by (simp add: stl_replaceHead_def Let_def)
    have "stl_inv k (stl_replaceHead i v h)"
      using push [OF inv(4,5)] set_push [OF inv(4,5)] inv less assms(2) by (simp add: r stl_inv_def)
    moreover have "k - ?n = Suc (k - Suc ?n)" using less by simp
    then have "stl_contents (stl_replaceHead i v h) = stl_contents h - {#far#} + {#entry i v#}"
      using push [OF inv(4,5)] inv(1) less by (simp add: r stl_contents_def pads_def)
    moreover have "far \<in># stl_contents h" using less by (simp add: stl_contents_def)
    moreover have "stl_headValue h = Inf False"
      using fl_key_far [of "stl_headValue h"] stl_head_greatest [OF assms(1) less(2)] inv(2,5)
      by (auto simp: stl_headValue_def numbers_def)
    ultimately show ?thesis by force
  qed
qed

lemma mset_shift_in: "i < length xs \<Longrightarrow> mset (shift_in i e xs) = mset (xs[i := e])"
proof (induction i e xs rule: shift_in.induct)
  case (2 i e xs)
  then show ?case using mset_move [of "Suc i" xs i e] by simp
qed simp

lemma length_shift_in [simp]: "length (shift_in i e xs) = length xs"
  by (induction i e xs rule: shift_in.induct) simp_all

lemma sorted_shift_in:
  "sorted_wrt (\<lambda>a b. entry_key a \<le> entry_key b) (a @ b) \<Longrightarrow> \<forall>y \<in> set b. entry_key e \<le> entry_key y \<Longrightarrow>
   numbers (insert e (set (a @ b))) \<Longrightarrow> sorted_wrt (\<lambda>a b. entry_key a \<le> entry_key b) (shift_in (length a) e (a @ x # b))"
proof (induction a arbitrary: x b rule: rev_induct)
  case (snoc y a)
  have less: "fl_less (entry_value e) (entry_value y) \<longleftrightarrow> entry_key e < entry_key y"
    using snoc.prems(3) by (simp add: fl_less_key)
  show ?case
  proof (cases "entry_key e < entry_key y")
    case True
    then have "shift_in (length (a @ [y])) e ((a @ [y]) @ x # b) = shift_in (length a) e (a @ y # (y # b))"
      using less by (simp add: nth_append list_update_append)
    then show ?thesis using snoc.IH [of "y # b" y] snoc.prems True by simp
  next
    case False
    then have "shift_in (length (a @ [y])) e ((a @ [y]) @ x # b) = a @ [y, e] @ b"
      using less by (simp add: nth_append list_update_append)
    then show ?thesis using snoc.prems False by (fastforce simp: sorted_wrt_append)
  qed
qed simp

lemma vec_replace_result:
  assumes "vec_inv k h" and "v \<noteq> NaN"
  shows "vec_inv k (vec_replaceHead i v h) \<and> (\<exists>e \<in># mset (vec_data h). entry_value e = vec_headValue h \<and>
    mset (vec_data (vec_replaceHead i v h)) = mset (vec_data h) - {#e#} + {#entry i v#})"
proof -
  obtain a x where d: "vec_data h = a @ [x]" using assms(1) by (cases "vec_data h" rule: rev_cases) (auto simp: vec_inv_def)
  have inv: "numbers (set (a @ [x]))" "sorted_wrt (\<lambda>a b. entry_key a \<le> entry_key b) (a @ [x])" "k = length a + 1"
    using assms(1) by (auto simp: vec_inv_def d)
  let ?r = "shift_in (length a) (entry i v) (a @ [x])"
  have m: "mset ?r = mset a + {#entry i v#}" using mset_shift_in [of "length a" "a @ [x]" "entry i v"] by simp
  then have "set ?r = insert (entry i v) (set a)" using mset_eq_setD [of ?r "a @ [entry i v]"] by simp
  moreover have "sorted_wrt (\<lambda>a b. entry_key a \<le> entry_key b) ?r"
    using sorted_shift_in [of a "[]" "entry i v" x] inv assms(2) by (simp add: sorted_wrt_append)
  moreover have "vec_replaceHead i v h = h\<lparr>vec_data := ?r\<rparr>" by (simp add: vec_replaceHead_def d)
  ultimately show ?thesis
    using inv m assms(2) by (simp add: vec_inv_def d vec_headValue_def)
qed

lemma sorted_replicate: "sorted_wrt (\<lambda>a b. entry_key a \<le> entry_key b) (replicate n e)"
  by (simp add: sorted_wrt_iff_nth_less)

interpretation stl: neighbour_heap stl_heap stl_inv stl_contents
proof unfold_locales
  fix k i :: nat and h :: index_heap_stl and v :: fl and e
  show "0 < k \<Longrightarrow> stl_inv k (heap_new stl_heap k) \<and> stl_contents (heap_new stl_heap k) = pads k"
    by (cases k) (auto simp: stl_heap_def IndexHeapSTL_def stl_inv_def stl_contents_def is_heap_def pads_def)
  assume inv: "stl_inv k h"
  then have data: "numbers (set (heap_data h))" "heap_data h \<noteq> []" by (auto simp: stl_inv_def)
  show "stl_inv k (heap_reset stl_heap h) \<and> stl_contents (heap_reset stl_heap h) = pads k"
    using inv by (cases k) (auto simp: stl_heap_def stl_reset_def stl_inv_def stl_contents_def is_heap_def pads_def)
  show "size (stl_contents h) = k" using inv by (simp add: stl_inv_def stl_contents_def pads_def)
  show "numbers (set_mset (stl_contents h))" using data by (auto simp: stl_contents_def pads_def numbers_def)
  show num: "headValue stl_heap h \<noteq> NaN" using data by (auto simp: stl_heap_def stl_headValue_def numbers_def)
  show "e \<in># stl_contents h \<Longrightarrow> entry_key e \<le> fl_key (headValue stl_heap h)"
    using stl_head_greatest [OF inv] inv num
    by (auto simp: stl_heap_def stl_contents_def pads_def stl_inv_def split: if_splits)
  show "v \<noteq> NaN \<Longrightarrow> stl_inv k (replaceHead stl_heap i v h) \<and>
    (\<exists>e \<in># stl_contents h. entry_value e = headValue stl_heap h \<and>
      stl_contents (replaceHead stl_heap i v h) = stl_contents h - {#e#} + {#entry i v#})"
    using stl_replace_result [OF inv] by (simp add: stl_heap_def)
  show "mset (getData stl_heap h) = stl_contents h"
    by (simp add: stl_heap_def stl_getData_def stl_contents_def pads_def)
  have "is_heap entry_key (length (heap_data h)) (heap_data h)" using inv by (simp add: stl_inv_def)
  note sorted = sort_heap_result [OF this order_refl entry_order [OF data(1)]]
  have "entry_key a \<le> fl_key (Inf False)" if "a \<in> set (heap_data h)" for a
    using that data(1) by (intro fl_key_le_far) (auto simp: numbers_def)
  moreover have "set (sort_heap entry_less (length (heap_data h)) (heap_data h)) = set (heap_data h)"
    using sorted mset_eq_setD by blast
  ultimately show "mset (getData stl_heap (heap_sort stl_heap h)) = stl_contents h \<and>
      sorted_wrt (\<lambda>a b. entry_key a \<le> entry_key b) (getData stl_heap (heap_sort stl_heap h))"
    using sorted by (auto simp: stl_heap_def stl_sort_def stl_getData_def stl_contents_def pads_def sorted_wrt_append sorted_replicate)
  show "heap_reset stl_heap (heap_sort stl_heap h) = heap_reset stl_heap h"
    by (simp add: stl_heap_def stl_reset_def stl_sort_def)
qed

interpretation vec: neighbour_heap vector_heap vec_inv "\<lambda>h. mset (vec_data h)"
proof unfold_locales
  fix k i :: nat and h :: index_heap_vector and v :: fl and e
  show "0 < k \<Longrightarrow> vec_inv k (heap_new vector_heap k) \<and> mset (vec_data (heap_new vector_heap k)) = pads k"
    by (auto simp: vector_heap_def IndexHeapBruteForceVector_def vec_inv_def pads_def numbers_def sorted_wrt_iff_nth_less)
  assume inv: "vec_inv k h"
  show "vec_inv k (heap_reset vector_heap h) \<and> mset (vec_data (heap_reset vector_heap h)) = pads k"
    using inv by (auto simp: vector_heap_def vec_reset_def vec_inv_def pads_def numbers_def sorted_wrt_iff_nth_less map_replicate_const)
  show "size (mset (vec_data h)) = k" "numbers (set_mset (mset (vec_data h)))" using inv by (auto simp: vec_inv_def)
  obtain a x where d: "vec_data h = a @ [x]" using inv by (cases "vec_data h" rule: rev_cases) (auto simp: vec_inv_def)
  show "headValue vector_heap h \<noteq> NaN" using inv by (auto simp: vector_heap_def vec_headValue_def vec_inv_def d)
  show "e \<in># mset (vec_data h) \<Longrightarrow> entry_key e \<le> fl_key (headValue vector_heap h)"
    using inv by (auto simp: vector_heap_def vec_headValue_def vec_inv_def d sorted_wrt_append)
  show "v \<noteq> NaN \<Longrightarrow> vec_inv k (replaceHead vector_heap i v h) \<and>
    (\<exists>e \<in># mset (vec_data h). entry_value e = headValue vector_heap h \<and>
      mset (vec_data (replaceHead vector_heap i v h)) = mset (vec_data h) - {#e#} + {#entry i v#})"
    using vec_replace_result [OF inv] by (simp add: vector_heap_def)
  show "mset (getData vector_heap h) = mset (vec_data h)" by (simp add: vector_heap_def vec_getData_def)
  show "mset (getData vector_heap (heap_sort vector_heap h)) = mset (vec_data h) \<and>
      sorted_wrt (\<lambda>a b. entry_key a \<le> entry_key b) (getData vector_heap (heap_sort vector_heap h))"
    using inv by (simp add: vector_heap_def vec_getData_def vec_sort_def vec_inv_def)
  show "heap_reset vector_heap (heap_sort vector_heap h) = heap_reset vector_heap h"
    by (simp add: vector_heap_def vec_sort_def)
qed

section \<open>Choices of the smallest entries\<close>

lemma nearest_refl [simp]: "nearest P P"
  by (simp add: nearest_def)

lemma nearest_skip:
  assumes "nearest P V" and "\<And>f e. f \<in># Q \<Longrightarrow> e \<in># V \<Longrightarrow> entry_key e \<le> entry_key f"
  shows "nearest (P + Q) V"
proof -
  obtain R where R: "P = V + R" using assms(1) by (metis nearest_def subset_mset.le_iff_add)
  then have eq: "P + Q - V = R + Q" "P - V = R" by simp_all
  have small: "\<And>e f. e \<in># V \<Longrightarrow> f \<in># R \<Longrightarrow> entry_key e \<le> entry_key f"
    using assms(1) by (simp add: nearest_def eq)
  show ?thesis unfolding nearest_def eq using small assms(2) by (auto simp: R)
qed

lemma nearest_exchange:
  assumes "nearest P V" and "e \<in># V" and "\<And>d. d \<in># V \<Longrightarrow> entry_key d \<le> entry_key e" and "entry_key f \<le> entry_key e"
  shows "nearest (P + {#f#}) (V - {#e#} + {#f#})"
proof -
  have sub: "V \<subseteq># P" and small: "\<And>d g. d \<in># V \<Longrightarrow> g \<in># P - V \<Longrightarrow> entry_key d \<le> entry_key g"
    using assms(1) by (auto simp: nearest_def)
  obtain W R where W: "V = add_mset e W" "P = add_mset e W + R"
    using assms(2) sub by (metis mset_subset_eq_exists_conv multi_member_split)
  then have "P + {#f#} - (V - {#e#} + {#f#}) = add_mset e R" by simp
  moreover have "V - {#e#} + {#f#} \<subseteq># P + {#f#}" by (simp add: W)
  ultimately show ?thesis
    using small assms(3,4) unfolding nearest_def by (fastforce simp: W)
qed

lemma nearest_values:
  assumes "nearest P V"
  shows "sorted_list_of_multiset (image_mset entry_key V) = take (size V) (sorted_list_of_multiset (image_mset entry_key P))"
proof -
  let ?v = "sorted_list_of_multiset (image_mset entry_key V)"
  let ?r = "sorted_list_of_multiset (image_mset entry_key (P - V))"
  have "sorted (?v @ ?r)" using assms by (auto simp: sorted_append nearest_def)
  moreover have "mset (?v @ ?r) = image_mset entry_key P"
    using assms by (simp add: nearest_def flip: image_mset_union)
  ultimately have "sorted_list_of_multiset (image_mset entry_key P) = ?v @ ?r"
    by (metis sorted_list_of_multiset_mset sorted_sort_id)
  moreover have "length ?v = size V" by (metis mset_sorted_list_of_multiset size_image_mset size_mset)
  ultimately show ?thesis by simp
qed

context neighbour_heap
begin

lemma nearest_offer:
  assumes "heap_inv k h" and "nearest P (contents h)" and "v \<noteq> NaN"
  shows "let h' = (if fl_less v (headValue H h) then replaceHead H i v h else h)
    in heap_inv k h' \<and> nearest (P + {#entry i v#}) (contents h')"
proof (cases "fl_less v (headValue H h)")
  case True
  obtain e where e: "e \<in># contents h" "entry_value e = headValue H h"
      "contents (replaceHead H i v h) = contents h - {#e#} + {#entry i v#}" and inv: "heap_inv k (replaceHead H i v h)"
    using replace_head [OF assms(1,3)] by blast
  have "fl_key v \<le> entry_key e" using True e(2) head_number [OF assms(1)] assms(3) by (simp add: fl_less_key)
  then show ?thesis
    using True inv e head_greatest [OF assms(1)] nearest_exchange [OF assms(2) e(1)] by (simp add: Let_def)
next
  case False
  then have "fl_key (headValue H h) \<le> fl_key v" using head_number [OF assms(1)] assms(3) by (simp add: fl_less_key)
  then have "nearest (P + {#entry i v#}) (contents h)"
    using head_greatest [OF assms(1)] by (intro nearest_skip [OF assms(2)]) (force intro: order_trans)
  then show ?thesis using False assms(1) by (simp add: Let_def)
qed

lemma nearest_prune:
  assumes "heap_inv k h" and "nearest P (contents h)"
    and "\<And>f. f \<in># Q \<Longrightarrow> fl_key (headValue H h) \<le> entry_key f"
  shows "nearest (P + Q) (contents h)"
  using head_greatest [OF assms(1)] assms(3) by (intro nearest_skip [OF assms(2)]) (force intro: order_trans)

end

end
