(* ===== verification/Kd_Tree.thy ===== *)
theory Kd_Tree
  imports Index_Heap Prelude "HOL-Library.Word"
begin

text \<open>
  The nearest neighbour search (\<^verbatim>\<open>external/libnabo/nabo\<close>): the common part and its checks
  (\<^verbatim>\<open>nabo.cpp\<close>), the k-d tree (\<^verbatim>\<open>kdtree_cpu.cpp\<close>) and the exhaustive search
  (\<^verbatim>\<open>brute_force_cpu.cpp\<close>). The scalars' arithmetic is a parameter, so that the code is run on
  single precision values and, for its correctness, on exact ones; the heap is the template's
  parameter. A matrix is a list of columns; the pointer into a column that a bucket holds is the
  number of that column. The assertions are taken to be checked.
\<close>

unbundle bit_operations_syntax

section \<open>Scalars and matrices\<close>

record scalar_ops =
  n_add :: "fl \<Rightarrow> fl \<Rightarrow> fl"
  n_sub :: "fl \<Rightarrow> fl \<Rightarrow> fl"
  n_mul :: "fl \<Rightarrow> fl \<Rightarrow> fl"
  n_half :: "fl \<Rightarrow> fl"

definition float_scalars :: scalar_ops where
  "float_scalars = \<lparr>n_add = fl_add binary32, n_sub = fl_sub binary32, n_mul = fl_mul binary32,
     n_half = (\<lambda>x. fl_div binary32 x (Fin False 2))\<rparr>"

definition exact_of :: "rat \<Rightarrow> fl" where
  "exact_of v = Fin (v < 0) \<bar>v\<bar>"

definition exactly :: "(rat \<Rightarrow> rat \<Rightarrow> rat) \<Rightarrow> (fl \<Rightarrow> fl \<Rightarrow> fl) \<Rightarrow> fl \<Rightarrow> fl \<Rightarrow> fl" where
  "exactly f g a b = (if is_fin a \<and> is_fin b then exact_of (f (fl_val a) (fl_val b)) else g a b)"

definition exact_scalars :: scalar_ops where
  "exact_scalars = \<lparr>n_add = exactly (+) (fl_add binary32), n_sub = exactly (-) (fl_sub binary32),
     n_mul = exactly (*) (fl_mul binary32), n_half = (\<lambda>x. exactly (/) (fl_div binary32) x (Fin False 2))\<rparr>"

definition flt_max :: fl where "flt_max = Fin False ((2 - 1 / 2 ^ 23) * 2 ^ 127)"
definition flt_min :: fl where "flt_min = Fin False (1 / 2 ^ 126)"
definition flt_epsilon :: fl where "flt_epsilon = Fin False (1 / 2 ^ 23)"

definition fl_le :: "fl \<Rightarrow> fl \<Rightarrow> bool" where
  "fl_le a b \<longleftrightarrow> fl_less a b \<or> fl_eq a b"

record matrix =
  mat_rows :: nat
  mat_cols :: "fl list list"

definition mat_wf :: "matrix \<Rightarrow> bool" where
  "mat_wf m \<longleftrightarrow> (\<forall>c \<in> set (mat_cols m). length c = mat_rows m)"

section \<open>The search objects\<close>

record nn_search =
  cloud :: matrix
  dim :: nat
  creationOptionFlags :: nat
  minBound :: "fl list"
  maxBound :: "fl list"

definition NearestNeighbourSearch :: "matrix \<Rightarrow> int \<Rightarrow> nat \<Rightarrow> nn_search res" where
  "NearestNeighbourSearch m d flags =
     (let d = nat (min d (int (mat_rows m)))
      in if mat_cols m = [] then Inl Std_exception
         else if mat_rows m = 0 then Inl Std_exception
         else Inr \<lparr>cloud = m, dim = d, creationOptionFlags = flags,
           minBound = replicate d flt_max, maxBound = replicate d flt_min\<rparr>)"

definition ALLOW_SELF_MATCH :: nat where "ALLOW_SELF_MATCH = 1"
definition SORT_RESULTS :: nat where "SORT_RESULTS = 2"

definition has_flag :: "nat \<Rightarrow> nat \<Rightarrow> bool" where
  "has_flag flags f \<longleftrightarrow> flags AND f \<noteq> 0"

definition TOUCH_STATISTICS :: "('a nn_search_scheme) \<Rightarrow> bool" where
  "TOUCH_STATISTICS s = has_flag (creationOptionFlags s) 1"

text \<open>The sizes are given as rows and columns of the result matrices, the radii by their number.\<close>

definition checkSizesKnn ::
  "'a nn_search_scheme \<Rightarrow> matrix \<Rightarrow> nat \<times> nat \<Rightarrow> nat \<times> nat \<Rightarrow> nat \<Rightarrow> nat \<Rightarrow> nat option \<Rightarrow> unit res" where
  "checkSizesKnn s query indices dists2 k optionFlags radii =
     (let cols = length (mat_cols (cloud s)); queries = length (mat_cols query) in
      if has_flag optionFlags ALLOW_SELF_MATCH \<and> int k > int cols then Inl Std_exception
      else if \<not> has_flag optionFlags ALLOW_SELF_MATCH \<and> int k > int cols - 1 then Inl Std_exception
      else if mat_rows query < dim s then Inl Std_exception
      else if fst indices \<noteq> k then Inl Std_exception
      else if snd indices \<noteq> queries then Inl Std_exception
      else if fst dists2 \<noteq> k then Inl Std_exception
      else if snd dists2 \<noteq> queries then Inl Std_exception
      else if radii \<noteq> None \<and> radii \<noteq> Some queries then Inl Std_exception
      else if optionFlags > ALLOW_SELF_MATCH OR SORT_RESULTS then Inl Std_exception
      else Inr ())"

section \<open>The nodes of the tree\<close>

datatype node_union = Cut_val fl | Bucket_index nat

record kd_node =
  dimChildBucketSize :: "32 word"
  node_union :: node_union

record bucket_entry =
  pt :: nat
  bucket_point :: nat

record kd_tree = nn_search +
  bucketSize :: nat
  dimBitCount :: nat
  dimMask :: "32 word"
  nodes :: "kd_node list"
  buckets :: "bucket_entry list"

function storage_bits :: "nat \<Rightarrow> nat \<Rightarrow> nat" where
  "storage_bits i v = (if i < 64 then if v = 0 then i else storage_bits (i + 1) (v div 2) else 64)"
  by pat_completeness auto
termination
  by (relation "measure (\<lambda>(i, v). 64 - i)") auto

declare storage_bits.simps [simp del]

definition getStorageBitCount :: "nat \<Rightarrow> nat" where
  "getStorageBitCount v = storage_bits 0 v"

definition createDimChildBucketSize :: "nat \<Rightarrow> nat \<Rightarrow> nat \<Rightarrow> 32 word" where
  "createDimChildBucketSize bits d child = of_nat d OR push_bit bits (of_nat child)"

definition getDim :: "'a kd_tree_scheme \<Rightarrow> 32 word \<Rightarrow> nat" where
  "getDim t w = unat (w AND dimMask t)"

definition getChildBucketSize :: "'a kd_tree_scheme \<Rightarrow> 32 word \<Rightarrow> nat" where
  "getChildBucketSize t w = unat (drop_bit (dimBitCount t) w)"

section \<open>Building\<close>

fun arg_max_from :: "nat \<Rightarrow> fl \<Rightarrow> nat \<Rightarrow> fl list \<Rightarrow> nat" where
  "arg_max_from maxIdx maxVal i [] = maxIdx"
| "arg_max_from maxIdx maxVal i (x # xs) =
     (if fl_less maxVal x then arg_max_from i x (i + 1) xs else arg_max_from maxIdx maxVal (i + 1) xs)"

definition argMax :: "fl list \<Rightarrow> nat" where
  "argMax v = arg_max_from 0 fl_zero 0 v"

definition coeff :: "'a nn_search_scheme \<Rightarrow> nat \<Rightarrow> nat \<Rightarrow> fl" where
  "coeff s d i = mat_cols (cloud s) ! i ! d"

definition std_min :: "fl \<Rightarrow> fl \<Rightarrow> fl" where
  "std_min a b = (if fl_less b a then b else a)"

definition std_max :: "fl \<Rightarrow> fl \<Rightarrow> fl" where
  "std_max a b = (if fl_less a b then b else a)"

fun getBounds :: "'a nn_search_scheme \<Rightarrow> nat \<Rightarrow> fl \<times> fl \<Rightarrow> nat list \<Rightarrow> fl \<times> fl" where
  "getBounds s d (minVal, maxVal) [] = (minVal, maxVal)"
| "getBounds s d (minVal, maxVal) (i # is) =
     (let val = coeff s d i in getBounds s d (std_min val minVal, std_max val maxVal) is)"

text \<open>
  The partition around a cut: \<open>up\<close> tells which points the left index passes, \<open>down\<close> which the
  right one does, down to \<open>low\<close>.
\<close>

function skip_up :: "(nat \<Rightarrow> bool) \<Rightarrow> nat \<Rightarrow> nat list \<Rightarrow> nat" where
  "skip_up up l pts = (if l < length pts \<and> up (pts ! l) then skip_up up (l + 1) pts else l)"
  by pat_completeness auto
termination
  by (relation "measure (\<lambda>(up, l, pts). length pts - l)") auto

function skip_down :: "(nat \<Rightarrow> bool) \<Rightarrow> nat \<Rightarrow> int \<Rightarrow> nat list \<Rightarrow> int" where
  "skip_down down low r pts = (if int low \<le> r \<and> down (pts ! nat r) then skip_down down low (r - 1) pts else r)"
  by pat_completeness auto
termination
  by (relation "measure (\<lambda>(down, low, r, pts). nat (r + 1))") auto

declare skip_up.simps [simp del] skip_down.simps [simp del]

lemma skip_up_le: "l \<le> skip_up up l pts"
  by (induction up l pts rule: skip_up.induct) (subst skip_up.simps, auto)

lemma skip_down_le: "skip_down down low r pts \<le> r"
  by (induction down low r pts rule: skip_down.induct) (subst skip_down.simps, auto)

function partition_loop :: "(nat \<Rightarrow> bool) \<Rightarrow> (nat \<Rightarrow> bool) \<Rightarrow> nat \<Rightarrow> nat \<Rightarrow> int \<Rightarrow> nat list \<Rightarrow> nat \<times> nat list" where
  "partition_loop up down low l r pts =
     (let l' = skip_up up l pts; r' = skip_down down low r pts
      in if int l' > r' then (l', pts)
         else partition_loop up down low (l' + 1) (r' - 1) (pts[l' := pts ! nat r', nat r' := pts ! l']))"
  by pat_completeness auto
termination
proof (relation "measure (\<lambda>(up, down, low, l, r, pts). nat (r - int l + 1))", goal_cases)
  case (2 up down low l r pts l' r')
  then show ?case using skip_up_le [of l up pts] skip_down_le [of down low r pts] by simp
qed simp

declare partition_loop.simps [simp del]

lemma length_partition_loop [simp]: "length (snd (partition_loop up down low l r pts)) = length pts"
  by (induction up down low l r pts rule: partition_loop.induct) (subst partition_loop.simps, simp add: Let_def)

definition partition_points :: "'a nn_search_scheme \<Rightarrow> nat \<Rightarrow> fl \<Rightarrow> nat list \<Rightarrow> nat \<times> nat \<times> nat list" where
  "partition_points s cutDim cutVal pts =
     (let (br1, pts) = partition_loop (\<lambda>i. fl_less (coeff s cutDim i) cutVal) (\<lambda>i. fl_le cutVal (coeff s cutDim i))
            0 0 (int (length pts) - 1) pts;
          (br2, pts) = partition_loop (\<lambda>i. fl_le (coeff s cutDim i) cutVal) (\<lambda>i. fl_less cutVal (coeff s cutDim i))
            br1 br1 (int (length pts) - 1) pts
      in (br1, br2, pts))"

text \<open>The dimension and the value of the cut, the number of points on its left, and the points in order.\<close>

definition choose_split ::
  "scalar_ops \<Rightarrow> 'a nn_search_scheme \<Rightarrow> nat list \<Rightarrow> fl list \<Rightarrow> fl list \<Rightarrow> nat \<times> fl \<times> nat \<times> nat list" where
  "choose_split ops s pts minValues maxValues =
     (let count = length pts;
          cutDim = argMax (map2 (n_sub ops) maxValues minValues);
          idealCutVal = n_half ops (n_add ops (maxValues ! cutDim) (minValues ! cutDim));
          (minVal, maxVal) = getBounds s cutDim (flt_max, fl_neg flt_max) pts;
          cutVal = (if fl_less idealCutVal minVal then minVal
                    else if fl_less maxVal idealCutVal then maxVal else idealCutVal);
          (br1, br2, pts) = partition_points s cutDim cutVal pts;
          leftCount = (if fl_less idealCutVal minVal then 1
                       else if fl_less maxVal idealCutVal then count - 1
                       else if count div 2 < br1 then br1
                       else if br2 < count div 2 then br2
                       else count div 2)
      in (cutDim, cutVal, leftCount, pts))"

lemma length_choose_split: "choose_split ops s pts mn mx = (c, v, n, qs) \<Longrightarrow> length qs = length pts"
  by (auto simp: choose_split_def partition_points_def Let_def split: prod.splits dest!: arg_cong [of _ _ "\<lambda>x. length (snd x)"])

function buildNodes :: "scalar_ops \<Rightarrow> kd_tree \<Rightarrow> nat list \<Rightarrow> fl list \<Rightarrow> fl list \<Rightarrow> (kd_tree \<times> nat) res" where
  "buildNodes ops t pts minValues maxValues =
     (let count = length pts; pos = length (nodes t) in
      if count < 1 then Inl Assert_failed
      else if count \<le> bucketSize t then
        if \<exists>i \<in> set pts. length (mat_cols (cloud t)) \<le> i then Inl Assert_failed
        else Inr (t\<lparr>buckets := buckets t @ map (\<lambda>i. \<lparr>pt = i, bucket_point = i\<rparr>) pts,
                    nodes := nodes t @ [\<lparr>dimChildBucketSize = createDimChildBucketSize (dimBitCount t) (dim t) count,
                                         node_union = Bucket_index (length (buckets t))\<rparr>]\<rparr>, pos)
      else case choose_split ops t pts minValues maxValues of (cutDim, cutVal, leftCount, qs) \<Rightarrow>
        if \<not> (0 < leftCount \<and> leftCount < count) then Inl Assert_failed
        else case buildNodes ops (t\<lparr>nodes := nodes t @ [\<lparr>dimChildBucketSize = 0, node_union = Cut_val cutVal\<rparr>]\<rparr>)
               (take leftCount qs) minValues (maxValues[cutDim := cutVal]) of
          Inl e \<Rightarrow> Inl e
        | Inr (t1, leftChild) \<Rightarrow>
            if leftChild \<noteq> pos + 1 then Inl Assert_failed
            else case buildNodes ops t1 (drop leftCount qs) (minValues[cutDim := cutVal]) maxValues of
              Inl e \<Rightarrow> Inl e
            | Inr (t2, rightChild) \<Rightarrow>
                Inr (t2\<lparr>nodes := (nodes t2)[pos := (nodes t2 ! pos)
                  \<lparr>dimChildBucketSize := createDimChildBucketSize (dimBitCount t) cutDim rightChild\<rparr>]\<rparr>, pos))"
  by pat_completeness auto
termination
  by (relation "measure (\<lambda>(ops, t, pts, mn, mx). length pts)") (auto dest!: length_choose_split [OF sym])

declare buildNodes.simps [simp del]

text \<open>
  The constructor. The tree holds at most \<open>2 ^ (32 - dimBitCount) - 1\<close> nodes, which is compared with
  an estimate.
\<close>

definition create_kd_tree :: "scalar_ops \<Rightarrow> matrix \<Rightarrow> int \<Rightarrow> nat \<Rightarrow> nat \<Rightarrow> kd_tree res" where
  "create_kd_tree ops m d flags bucket_size =
     res_bind (NearestNeighbourSearch m d flags) (\<lambda>s.
       let bits = getStorageBitCount (dim s); cols = length (mat_cols m);
           t = nn_search.extend s (kd_tree.fields bucket_size bits (push_bit bits 1 - 1) [] [])
       in if bucket_size < 2 then Inl Std_exception
          else if cols \<le> bucket_size
          then Inr (t\<lparr>buckets := map (\<lambda>i. \<lparr>pt = i, bucket_point = i\<rparr>) [0..<cols],
                      nodes := [\<lparr>dimChildBucketSize = createDimChildBucketSize bits (dim s) cols, node_union = Bucket_index 0\<rparr>]\<rparr>)
          else if 2 ^ (32 - bits) - 1 < cols div (bucket_size div 2) then Inl Std_exception
          else let mn = foldl (\<lambda>b i. map2 std_min b (take (dim s) (mat_cols m ! i))) (minBound s) [0..<cols];
                   mx = foldl (\<lambda>b i. map2 std_max b (take (dim s) (mat_cols m ! i))) (maxBound s) [0..<cols]
               in res_map fst (buildNodes ops (t\<lparr>minBound := mn, maxBound := mx\<rparr>) [0..<cols] mn mx))"

section \<open>Searching\<close>

fun dist_from :: "scalar_ops \<Rightarrow> fl \<Rightarrow> fl list \<Rightarrow> fl list \<Rightarrow> fl" where
  "dist_from ops distance (q # qs) (p # ps) =
     (let diff = n_sub ops q p in dist_from ops (n_add ops distance (n_mul ops diff diff)) qs ps)"
| "dist_from ops distance _ _ = distance"

definition point_dist :: "scalar_ops \<Rightarrow> 'a nn_search_scheme \<Rightarrow> fl list \<Rightarrow> nat \<Rightarrow> fl" where
  "point_dist ops s query i = dist_from ops fl_zero (take (dim s) query) (take (dim s) (mat_cols (cloud s) ! i))"

text \<open>Whether a point at a given distance is a neighbour at all.\<close>

definition is_candidate :: "bool \<Rightarrow> fl \<Rightarrow> fl \<Rightarrow> bool" where
  "is_candidate allowSelfMatch maxRadius2 distance \<longleftrightarrow> fl_le distance maxRadius2 \<and> (allowSelfMatch \<or> fl_less flt_epsilon distance)"

fun scan_bucket ::
  "'h index_heap \<Rightarrow> scalar_ops \<Rightarrow> 'a nn_search_scheme \<Rightarrow> bool \<Rightarrow> fl list \<Rightarrow> fl \<Rightarrow> bucket_entry list \<Rightarrow> 'h \<Rightarrow> 'h" where
  "scan_bucket H ops s self query maxRadius2 [] h = h"
| "scan_bucket H ops s self query maxRadius2 (b # bs) h =
     (let distance = point_dist ops s query (pt b)
      in scan_bucket H ops s self query maxRadius2 bs
           (if is_candidate self maxRadius2 distance \<and> fl_less distance (headValue H h)
            then replaceHead H (bucket_point b) distance h else h))"

partial_function (option) recurseKnn ::
  "'h index_heap \<Rightarrow> scalar_ops \<Rightarrow> kd_tree \<Rightarrow> bool \<Rightarrow> bool \<Rightarrow> fl list \<Rightarrow> fl \<Rightarrow> fl \<Rightarrow> nat \<Rightarrow> fl \<Rightarrow> fl list \<Rightarrow> 'h \<Rightarrow> ('h \<times> nat) res option" where
  "recurseKnn H ops t self stats query maxError2 maxRadius2 n rd off h =
     (if length (nodes t) \<le> n then Some (Inl Undefined)
      else let node = nodes t ! n; cd = getDim t (dimChildBucketSize node);
               child = getChildBucketSize t (dimChildBucketSize node)
      in if cd = dim t then
           (case node_union node of
              Bucket_index b \<Rightarrow> if length (buckets t) < b + child then Some (Inl Undefined)
                else Some (Inr (scan_bucket H ops t self query maxRadius2 (take child (drop b (buckets t))) h, child))
            | Cut_val c \<Rightarrow> Some (Inl Undefined))
         else case node_union node of
              Bucket_index b \<Rightarrow> Some (Inl Undefined)
            | Cut_val cutVal \<Rightarrow>
                let old_off = off ! cd; new_off = n_sub ops (query ! cd) cutVal;
                    here = (if fl_less fl_zero new_off then child else n + 1);
                    there = (if fl_less fl_zero new_off then n + 1 else child)
                in Option.bind (recurseKnn H ops t self stats query maxError2 maxRadius2 here rd off h) (\<lambda>r.
                   case r of Inl e \<Rightarrow> Some (Inl e)
                   | Inr (h1, c1) \<Rightarrow>
                       let rd' = n_add ops rd (n_add ops (n_mul ops (fl_neg old_off) old_off) (n_mul ops new_off new_off))
                       in if fl_le rd' maxRadius2 \<and> fl_less (n_mul ops rd' maxError2) (headValue H h1)
                          then Option.bind (recurseKnn H ops t self stats query maxError2 maxRadius2 there rd' (off[cd := new_off]) h1) (\<lambda>r.
                               case r of Inl e \<Rightarrow> Some (Inl e)
                               | Inr (h2, c2) \<Rightarrow> Some (Inr (h2, if stats then c1 + c2 else 0)))
                          else Some (Inr (h1, if stats then c1 else 0))))"

declare recurseKnn.simps [code]

text \<open>One query: the column of the results, the heap, which is used again, and the touched leaves.\<close>

definition onePointKnn ::
  "'h index_heap \<Rightarrow> scalar_ops \<Rightarrow> kd_tree \<Rightarrow> fl list \<Rightarrow> 'h \<Rightarrow> fl \<Rightarrow> fl \<Rightarrow> bool \<Rightarrow> bool \<Rightarrow> bool \<Rightarrow> (heap_entry list \<times> 'h \<times> nat) res option" where
  "onePointKnn H ops t query h maxError2 maxRadius2 self stats sort_results =
     Option.bind (recurseKnn H ops t self stats query maxError2 maxRadius2 0 fl_zero (replicate (dim t) fl_zero) (heap_reset H h))
       (\<lambda>r. Some (res_map (\<lambda>(h, touched).
          let h = (if sort_results then heap_sort H h else h)
          in (getData H h, h, if stats then touched else 0)) r))"

fun knn_columns ::
  "'h index_heap \<Rightarrow> scalar_ops \<Rightarrow> kd_tree \<Rightarrow> fl \<Rightarrow> bool \<Rightarrow> bool \<Rightarrow> bool \<Rightarrow> (fl list \<times> fl) list \<Rightarrow> 'h \<Rightarrow> (heap_entry list list \<times> nat) res option" where
  "knn_columns H ops t maxError2 self stats sort_results [] h = Some (Inr ([], 0))"
| "knn_columns H ops t maxError2 self stats sort_results ((query, maxRadius) # qs) h =
     Option.bind (onePointKnn H ops t query h maxError2 (n_mul ops maxRadius maxRadius) self stats sort_results) (\<lambda>r.
       case r of Inl e \<Rightarrow> Some (Inl e)
       | Inr (column, h, touched) \<Rightarrow>
           Option.bind (knn_columns H ops t maxError2 self stats sort_results qs h) (\<lambda>r.
             Some (res_map (\<lambda>(columns, more_touched). (column # columns, touched + more_touched)) r)))"

definition knn_radii ::
  "'h index_heap \<Rightarrow> scalar_ops \<Rightarrow> kd_tree \<Rightarrow> matrix \<Rightarrow> nat \<times> nat \<Rightarrow> nat \<times> nat \<Rightarrow> fl list \<Rightarrow> nat \<Rightarrow> fl \<Rightarrow> nat \<Rightarrow> (heap_entry list list \<times> nat) res option" where
  "knn_radii H ops t query indices dists2 maxRadii k epsilon optionFlags =
     (case checkSizesKnn t query indices dists2 k optionFlags (Some (length maxRadii)) of
        Inl e \<Rightarrow> Some (Inl e)
      | Inr _ \<Rightarrow>
          if nodes t = [] then Some (Inl Assert_failed)
          else let one = n_add ops fl_one epsilon
            in knn_columns H ops t (n_mul ops one one) (has_flag optionFlags ALLOW_SELF_MATCH) (TOUCH_STATISTICS t)
                 (has_flag optionFlags SORT_RESULTS) (zip (mat_cols query) maxRadii) (heap_new H k))"

definition knn ::
  "'h index_heap \<Rightarrow> scalar_ops \<Rightarrow> kd_tree \<Rightarrow> matrix \<Rightarrow> nat \<times> nat \<Rightarrow> nat \<times> nat \<Rightarrow> nat \<Rightarrow> fl \<Rightarrow> nat \<Rightarrow> fl \<Rightarrow> (heap_entry list list \<times> nat) res option" where
  "knn H ops t query indices dists2 k epsilon optionFlags maxRadius =
     (case checkSizesKnn t query indices dists2 k optionFlags None of
        Inl e \<Rightarrow> Some (Inl e)
      | Inr _ \<Rightarrow>
          if nodes t = [] then Some (Inl Assert_failed)
          else let one = n_add ops fl_one epsilon
            in knn_columns H ops t (n_mul ops one one) (has_flag optionFlags ALLOW_SELF_MATCH) (TOUCH_STATISTICS t)
                 (has_flag optionFlags SORT_RESULTS) (map (\<lambda>q. (q, maxRadius)) (mat_cols query)) (heap_new H k))"

text \<open>
  The search for one vector reads the first \<open>dim\<close> elements of the query's memory, and hands
  matrices of the right size to the general search.
\<close>

definition knn_vector ::
  "'h index_heap \<Rightarrow> scalar_ops \<Rightarrow> kd_tree \<Rightarrow> fl list \<Rightarrow> nat \<Rightarrow> fl \<Rightarrow> nat \<Rightarrow> fl \<Rightarrow> (heap_entry list \<times> nat) res option" where
  "knn_vector H ops t query k epsilon optionFlags maxRadius =
     (if length query < dim t then Some (Inl Undefined)
      else Option.bind (knn H ops t \<lparr>mat_rows = dim t, mat_cols = [take (dim t) query]\<rparr> (k, 1) (k, 1) k epsilon optionFlags maxRadius)
        (\<lambda>r. Some (res_map (\<lambda>(columns, touched). (hd columns, touched)) r)))"

section \<open>The exhaustive search\<close>

definition row_bound :: "(fl \<Rightarrow> fl \<Rightarrow> fl) \<Rightarrow> matrix \<Rightarrow> nat \<Rightarrow> fl" where
  "row_bound f m d = foldl f (hd (mat_cols m) ! d) (map (\<lambda>c. c ! d) (tl (mat_cols m)))"

definition BruteForceSearch :: "matrix \<Rightarrow> int \<Rightarrow> nat \<Rightarrow> nn_search res" where
  "BruteForceSearch m d flags =
     res_map (\<lambda>s. s\<lparr>minBound := map (row_bound std_min m) [0..<dim s], maxBound := map (row_bound std_max m) [0..<dim s]\<rparr>)
       (NearestNeighbourSearch m d flags)"

text \<open>The squared norm of the matrix library is a parameter.\<close>

fun brute_force_scan ::
  "(fl list \<Rightarrow> fl) \<Rightarrow> scalar_ops \<Rightarrow> nn_search \<Rightarrow> bool \<Rightarrow> fl list \<Rightarrow> fl \<Rightarrow> nat list \<Rightarrow> index_heap_stl \<Rightarrow> index_heap_stl" where
  "brute_force_scan squaredNorm ops s self q maxRadius2 [] h = h"
| "brute_force_scan squaredNorm ops s self q maxRadius2 (i # is) h =
     (let distance = squaredNorm (map2 (n_sub ops) (take (dim s) (mat_cols (cloud s) ! i)) (take (dim s) q))
      in brute_force_scan squaredNorm ops s self q maxRadius2 is
           (if is_candidate self maxRadius2 distance \<and> fl_less distance (stl_headValue h) then stl_replaceHead i distance h else h))"

fun brute_force_columns ::
  "(fl list \<Rightarrow> fl) \<Rightarrow> scalar_ops \<Rightarrow> nn_search \<Rightarrow> bool \<Rightarrow> bool \<Rightarrow> (fl list \<times> fl) list \<Rightarrow> index_heap_stl \<Rightarrow> heap_entry list list" where
  "brute_force_columns squaredNorm ops s self sort_results [] h = []"
| "brute_force_columns squaredNorm ops s self sort_results ((q, maxRadius) # qs) h =
     (let h = brute_force_scan squaredNorm ops s self q (n_mul ops maxRadius maxRadius) [0..<length (mat_cols (cloud s))] (stl_reset h);
          h = (if sort_results then stl_sort h else h)
      in stl_getData h # brute_force_columns squaredNorm ops s self sort_results qs h)"

definition brute_force_knn_radii ::
  "(fl list \<Rightarrow> fl) \<Rightarrow> scalar_ops \<Rightarrow> nn_search \<Rightarrow> matrix \<Rightarrow> nat \<times> nat \<Rightarrow> nat \<times> nat \<Rightarrow> fl list \<Rightarrow> nat \<Rightarrow> nat \<Rightarrow> (heap_entry list list \<times> nat) res" where
  "brute_force_knn_radii squaredNorm ops s query indices dists2 maxRadii k optionFlags =
     res_bind (checkSizesKnn s query indices dists2 k optionFlags (Some (length maxRadii))) (\<lambda>_.
       Inr (brute_force_columns squaredNorm ops s (has_flag optionFlags ALLOW_SELF_MATCH) (has_flag optionFlags SORT_RESULTS)
              (zip (mat_cols query) maxRadii) (IndexHeapSTL k),
            if TOUCH_STATISTICS s then length (mat_cols query) * length (mat_cols (cloud s)) else 0))"

definition brute_force_knn ::
  "(fl list \<Rightarrow> fl) \<Rightarrow> scalar_ops \<Rightarrow> nn_search \<Rightarrow> matrix \<Rightarrow> nat \<times> nat \<Rightarrow> nat \<times> nat \<Rightarrow> nat \<Rightarrow> nat \<Rightarrow> fl \<Rightarrow> (heap_entry list list \<times> nat) res" where
  "brute_force_knn squaredNorm ops s query indices dists2 k optionFlags maxRadius =
     brute_force_knn_radii squaredNorm ops s query indices dists2 (replicate (length (mat_cols query)) maxRadius) k optionFlags"

section \<open>The factory\<close>

datatype search_type = Brute_force | Kdtree_linear_heap | Kdtree_tree_heap | Kdtree_cl_pt_in_nodes | Kdtree_cl_pt_in_leaves | Brute_force_cl

datatype search_object = Brute_force_search nn_search | Linear_heap_tree kd_tree | Tree_heap_tree kd_tree

definition createBruteForce :: "matrix \<Rightarrow> int \<Rightarrow> nat \<Rightarrow> search_object res" where
  "createBruteForce m d flags = (if d \<le> 0 then Inl Std_exception else res_map Brute_force_search (BruteForceSearch m d flags))"

definition createKDTreeLinearHeap :: "scalar_ops \<Rightarrow> matrix \<Rightarrow> int \<Rightarrow> nat \<Rightarrow> nat \<Rightarrow> search_object res" where
  "createKDTreeLinearHeap ops m d flags bucket_size =
     (if d \<le> 0 then Inl Std_exception else res_map Linear_heap_tree (create_kd_tree ops m d flags bucket_size))"

definition createKDTreeTreeHeap :: "scalar_ops \<Rightarrow> matrix \<Rightarrow> int \<Rightarrow> nat \<Rightarrow> nat \<Rightarrow> search_object res" where
  "createKDTreeTreeHeap ops m d flags bucket_size =
     (if d \<le> 0 then Inl Std_exception else res_map Tree_heap_tree (create_kd_tree ops m d flags bucket_size))"

text \<open>The program is compiled without OpenCL.\<close>

definition create_search :: "scalar_ops \<Rightarrow> matrix \<Rightarrow> int \<Rightarrow> search_type \<Rightarrow> nat \<Rightarrow> nat \<Rightarrow> search_object res" where
  "create_search ops m d preferedType flags bucket_size =
     (if d \<le> 0 then Inl Std_exception
      else case preferedType of
        Brute_force \<Rightarrow> res_map Brute_force_search (BruteForceSearch m d flags)
      | Kdtree_linear_heap \<Rightarrow> res_map Linear_heap_tree (create_kd_tree ops m d flags bucket_size)
      | Kdtree_tree_heap \<Rightarrow> res_map Tree_heap_tree (create_kd_tree ops m d flags bucket_size)
      | _ \<Rightarrow> Inl Std_exception)"

end
