(* ===== verification/Kd_Search.thy ===== *)
theory Kd_Search
  imports Kd_Tree
begin

text \<open>
  The correctness of the k-d tree: the partition, the tree that is built, and the search of it,
  for either heap. With exact arithmetic the search finds the same distances as the exhaustive
  search; in single precision it always ends and reports points of the cloud.
\<close>

section \<open>The partition\<close>

lemma skip_up_result:
  "l \<le> length pts \<Longrightarrow> skip_up up l pts \<le> length pts \<and> (\<forall>i. l \<le> i \<and> i < skip_up up l pts \<longrightarrow> up (pts ! i)) \<and>
    (skip_up up l pts < length pts \<longrightarrow> \<not> up (pts ! skip_up up l pts))"
proof (induction up l pts rule: skip_up.induct)
  case (1 up l pts)
  show ?case
  proof (cases "l < length pts \<and> up (pts ! l)")
    case True
    then have "skip_up up l pts = skip_up up (l + 1) pts" by (subst skip_up.simps) simp
    then show ?thesis using 1(1) [OF True] True by (metis Suc_eq_plus1 Suc_leI le_neq_implies_less)
  next
    case False
    then have "skip_up up l pts = l" by (subst skip_up.simps) auto
    then show ?thesis using False 1(2) by auto
  qed
qed

lemma skip_down_result:
  "int low - 1 \<le> r \<Longrightarrow> int low - 1 \<le> skip_down down low r pts \<and>
    (\<forall>i. skip_down down low r pts < int i \<and> int i \<le> r \<longrightarrow> down (pts ! i)) \<and>
    (int low \<le> skip_down down low r pts \<longrightarrow> \<not> down (pts ! nat (skip_down down low r pts)))"
proof (induction down low r pts rule: skip_down.induct)
  case (1 down low r pts)
  show ?case
  proof (cases "int low \<le> r \<and> down (pts ! nat r)")
    case True
    then have eq: "skip_down down low r pts = skip_down down low (r - 1) pts" by (subst skip_down.simps) simp
    have "int i \<le> r - 1 \<or> i = nat r" if "int i \<le> r" for i using that by linarith
    then show ?thesis using 1(1) [OF True] True unfolding eq by auto
  next
    case False
    then have "skip_down down low r pts = r" by (subst skip_down.simps) auto
    then show ?thesis using False 1(2) by auto
  qed
qed

text \<open>The result splits the points by \<open>up\<close> and leaves those before the left index in place.\<close>

definition split_at :: "(nat \<Rightarrow> bool) \<Rightarrow> nat list \<Rightarrow> nat \<Rightarrow> bool" where
  "split_at up pts b \<longleftrightarrow> b \<le> length pts \<and> (\<forall>i < b. up (pts ! i)) \<and> (\<forall>i. b \<le> i \<and> i < length pts \<longrightarrow> \<not> up (pts ! i))"

lemma partition_loop_result:
  assumes "partition_loop up down low l r pts = (b, qs)" and "low \<le> l" and "int l \<le> r + 1" and "r < int (length pts)"
    and "\<forall>x \<in> set pts. down x \<longleftrightarrow> \<not> up x" and "\<forall>i < l. up (pts ! i)"
    and "\<forall>i. r < int i \<and> i < length pts \<longrightarrow> \<not> up (pts ! i)"
  shows "mset qs = mset pts \<and> split_at up qs b \<and> take l qs = take l pts"
  using assms
proof (induction up down low l r pts rule: partition_loop.induct)
  case (1 up down low l r pts)
  let ?l = "skip_up up l pts" and ?r = "skip_down down low r pts"
  have len: "l \<le> length pts" using 1(4,5) by linarith
  note up = skip_up_result [OF len, of up] and dn = skip_down_result [of low r down pts]
  have l: "l \<le> ?l" "?r \<le> r" by (rule skip_up_le, rule skip_down_le)
  have below: "up (pts ! i)" if "i < ?l" for i using that 1(7) up by (cases "i < l") auto
  have above: "\<not> up (pts ! i)" if "?r < int i" "i < length pts" for i
  proof (cases "r < int i")
    case False
    then have "down (pts ! i)" using that dn 1(3,4) by auto
    then show ?thesis using 1(6) that(2) by auto
  qed (use 1(8) that in blast)
  show ?case
  proof (cases "int ?l > ?r")
    case True
    then have "b = ?l" "qs = pts" using 1(2) by (subst (asm) partition_loop.simps; simp add: Let_def)+
    then show ?thesis using True up below above by (auto simp: split_at_def)
  next
    case False
    let ?ps = "pts[?l := pts ! nat ?r, nat ?r := pts ! ?l]"
    have bounds: "?l < length pts" "nat ?r < length pts" "int low \<le> ?r" using False l 1(3,5) by linarith+
    have nl: "\<not> up (pts ! ?l)" and "\<not> down (pts ! nat ?r)" using up dn bounds 1(3,4) by auto
    then have ur: "up (pts ! nat ?r)" using 1(6) bounds(2) by auto
    then have less: "?l < nat ?r" using nl False by (cases "?l = nat ?r") auto
    have rec: "partition_loop up down low (?l + 1) (?r - 1) ?ps = (b, qs)"
      using 1(2) False by (subst (asm) partition_loop.simps) (simp add: Let_def)
    have swap: "mset ?ps = mset pts" using bounds by (intro mset_swap) simp_all
    have "mset qs = mset ?ps \<and> split_at up qs b \<and> take (?l + 1) qs = take (?l + 1) ?ps"
    proof (rule 1(1) [OF refl refl False rec])
      show "low \<le> ?l + 1" using 1(3) l by simp
      show "int (?l + 1) \<le> ?r - 1 + 1" "?r - 1 < int (length ?ps)" using less bounds by simp_all
      show "\<forall>x \<in> set ?ps. down x \<longleftrightarrow> \<not> up x" using 1(6) mset_eq_setD [OF swap] by simp
      show "\<forall>i < ?l + 1. up (?ps ! i)"
        using below ur less bounds by (auto simp: less_Suc_eq nth_list_update)
      show "\<forall>i. ?r - 1 < int i \<and> i < length ?ps \<longrightarrow> \<not> up (?ps ! i)"
      proof (intro allI impI)
        fix i assume i: "?r - 1 < int i \<and> i < length ?ps"
        then have "i = nat ?r \<or> ?r < int i" using bounds by linarith
        then show "\<not> up (?ps ! i)" using above [of i] nl less i bounds by (auto simp: nth_list_update)
      qed
    qed
    moreover have "take l (take (?l + 1) ?ps) = take l pts" using l less by (simp add: min_def)
    moreover have "take l (take (?l + 1) qs) = take l qs" using l by (simp add: min_def)
    ultimately show ?thesis using swap by metis
  qed
qed

section \<open>Choosing the cut\<close>

text \<open>Finite numbers of the format's range, and clouds of them.\<close>

definition in_range :: "fl \<Rightarrow> bool" where
  "in_range v \<longleftrightarrow> is_fin v \<and> fl_key (fl_neg flt_max) \<le> fl_key v \<and> fl_key v \<le> fl_key flt_max"

lemma in_range_not_NaN [simp]: "in_range v \<Longrightarrow> v \<noteq> NaN"
  by (auto simp: in_range_def)

lemma fl_le_key: "a \<noteq> NaN \<Longrightarrow> b \<noteq> NaN \<Longrightarrow> fl_le a b \<longleftrightarrow> fl_key a \<le> fl_key b"
  by (cases a; cases b) (auto simp: fl_le_def)

lemma is_fin_key: "v \<noteq> NaN \<Longrightarrow> is_fin v \<longleftrightarrow> fst (fl_key v) = 0"
  by (cases v) auto

lemma in_range_between:
  assumes "in_range a" and "in_range b" and "fl_key a \<le> fl_key v" and "fl_key v \<le> fl_key b" and "v \<noteq> NaN"
  shows "in_range v"
proof -
  have "fst (fl_key a) = 0" "fst (fl_key b) = 0" using assms(1,2) by (auto simp: in_range_def simp flip: is_fin_key)
  then have "fst (fl_key v) = 0" using assms(3,4) by (auto simp: less_eq_prod_def)
  then show ?thesis using assms by (auto simp: in_range_def is_fin_key intro: order_trans)
qed

lemma in_range_max [simp]: "in_range flt_max" "in_range (fl_neg flt_max)"
  by (simp_all add: in_range_def flt_max_def)

lemma partition_points_result:
  assumes "partition_points s d cv pts = (b1, b2, qs)" and "\<forall>i \<in> set pts. coeff s d i \<noteq> NaN" and "cv \<noteq> NaN"
  shows "mset qs = mset pts \<and> b1 \<le> b2 \<and> b2 \<le> length pts \<and>
    (\<forall>i < b1. fl_key (coeff s d (qs ! i)) < fl_key cv) \<and>
    (\<forall>i < b2. fl_key (coeff s d (qs ! i)) \<le> fl_key cv) \<and>
    (\<forall>i. b1 \<le> i \<and> i < length pts \<longrightarrow> fl_key cv \<le> fl_key (coeff s d (qs ! i))) \<and>
    (\<forall>i. b2 \<le> i \<and> i < length pts \<longrightarrow> fl_key cv < fl_key (coeff s d (qs ! i)))"
proof -
  let ?c = "\<lambda>i. fl_key (coeff s d i)"
  have less: "fl_less (coeff s d i) cv \<longleftrightarrow> ?c i < fl_key cv" "fl_less cv (coeff s d i) \<longleftrightarrow> fl_key cv < ?c i"
      "fl_le (coeff s d i) cv \<longleftrightarrow> ?c i \<le> fl_key cv" "fl_le cv (coeff s d i) \<longleftrightarrow> fl_key cv \<le> ?c i"
    if "i \<in> set pts" for i using assms(2,3) that by (simp_all add: fl_less_key fl_le_key)
  obtain ps where first: "partition_loop (\<lambda>i. fl_less (coeff s d i) cv) (\<lambda>i. fl_le cv (coeff s d i)) 0 0 (int (length pts) - 1) pts = (b1, ps)"
    and second: "partition_loop (\<lambda>i. fl_le (coeff s d i) cv) (\<lambda>i. fl_less cv (coeff s d i)) b1 b1 (int (length ps) - 1) ps = (b2, qs)"
    using assms(1) by (auto simp: partition_points_def split: prod.splits)
  have p: "mset ps = mset pts" "split_at (\<lambda>i. fl_less (coeff s d i) cv) ps b1"
    using partition_loop_result [OF first] less by (fastforce simp: not_less)+
  have ps: "set ps = set pts" "length ps = length pts" using p(1) by (auto dest: mset_eq_setD mset_eq_length)
  have mem: "ps ! i \<in> set pts" if "i < length pts" for i using that ps by (metis nth_mem)
  have lt: "\<forall>i < b1. ?c (ps ! i) < fl_key cv" and ge: "\<forall>i. b1 \<le> i \<and> i < length pts \<longrightarrow> fl_key cv \<le> ?c (ps ! i)"
    and b1: "b1 \<le> length pts"
    using p(2) less(1) [OF mem] ps(2) by (auto simp: split_at_def not_less)
  have q: "mset qs = mset ps" "split_at (\<lambda>i. fl_le (coeff s d i) cv) qs b2" "take b1 qs = take b1 ps"
  proof -
    have down: "\<forall>x \<in> set ps. fl_less cv (coeff s d x) \<longleftrightarrow> \<not> fl_le (coeff s d x) cv" using less ps by (simp add: not_le)
    have up: "\<forall>i < b1. fl_le (coeff s d (ps ! i)) cv" using lt less(3) [OF mem] b1 by (simp add: less_imp_le)
    have "mset qs = mset ps \<and> split_at (\<lambda>i. fl_le (coeff s d i) cv) qs b2 \<and> take b1 qs = take b1 ps"
      using b1 ps(2) by (intro partition_loop_result [OF second _ _ _ down up]) auto
    then show "mset qs = mset ps" "split_at (\<lambda>i. fl_le (coeff s d i) cv) qs b2" "take b1 qs = take b1 ps" by blast+
  qed
  have qs: "set qs = set pts" "length qs = length pts" using q(1) p(1) by (auto dest: mset_eq_setD mset_eq_length)
  have mem': "qs ! i \<in> set pts" if "i < length pts" for i using that qs by (metis nth_mem)
  have le: "\<forall>i < b2. ?c (qs ! i) \<le> fl_key cv" and gt: "\<forall>i. b2 \<le> i \<and> i < length pts \<longrightarrow> fl_key cv < ?c (qs ! i)"
    and b2: "b2 \<le> length pts"
    using q(2) less(3) [OF mem'] qs(2) by (auto simp: split_at_def not_le)
  have same: "qs ! i = ps ! i" if "i < b1" for i using that q(3) by (metis nth_take)
  then have lt': "\<forall>i < b1. ?c (qs ! i) < fl_key cv" using lt by simp
  have "mset (take b1 qs) + mset (drop b1 qs) = mset (take b1 ps) + mset (drop b1 ps)"
    using q(1) by (simp flip: mset_append)
  then have "set (drop b1 qs) = set (drop b1 ps)" using q(3) by (intro mset_eq_setD) simp
  moreover have "qs ! i \<in> set (drop b1 qs)" if "b1 \<le> i" "i < length pts" for i
    using that qs(2) by (auto simp: in_set_conv_nth intro!: exI [of _ "i - b1"])
  moreover have "fl_key cv \<le> ?c x" if "x \<in> set (drop b1 ps)" for x
    using that ge ps(2) by (auto simp: in_set_conv_nth)
  ultimately have ge': "\<forall>i. b1 \<le> i \<and> i < length pts \<longrightarrow> fl_key cv \<le> ?c (qs ! i)" by blast
  have "b1 \<le> b2"
  proof (rule ccontr)
    assume "\<not> b1 \<le> b2"
    then have "fl_key cv < ?c (qs ! b2)" "?c (qs ! b2) < fl_key cv" using gt lt' b1 by auto
    then show False by simp
  qed
  then show ?thesis using lt' le ge' gt b2 q(1) p(1) by simp
qed

lemma arg_max_from_less: "maxIdx < n \<Longrightarrow> i + length xs \<le> n \<Longrightarrow> arg_max_from maxIdx v i xs < n"
  by (induction maxIdx v i xs rule: arg_max_from.induct) auto

lemma argMax_less: "xs \<noteq> [] \<Longrightarrow> argMax xs < length xs"
  by (simp add: argMax_def arg_max_from_less)

lemma getBounds_result:
  "getBounds s d (mn, mx) pts = (a, b) \<Longrightarrow> mn \<noteq> NaN \<Longrightarrow> mx \<noteq> NaN \<Longrightarrow> \<forall>i \<in> set pts. coeff s d i \<noteq> NaN \<Longrightarrow>
   (a = mn \<or> (\<exists>i \<in> set pts. a = coeff s d i)) \<and> (b = mx \<or> (\<exists>i \<in> set pts. b = coeff s d i)) \<and>
   fl_key a \<le> fl_key mn \<and> fl_key mx \<le> fl_key b \<and>
   (\<forall>i \<in> set pts. fl_key a \<le> fl_key (coeff s d i) \<and> fl_key (coeff s d i) \<le> fl_key b)"
proof (induction pts arbitrary: mn mx)
  case (Cons i pts)
  let ?v = "coeff s d i"
  have v: "?v \<noteq> NaN" using Cons.prems(4) by simp
  have mn: "std_min ?v mn \<in> {mn, ?v}" "fl_key (std_min ?v mn) \<le> fl_key mn" "fl_key (std_min ?v mn) \<le> fl_key ?v"
    using Cons.prems(2) v by (auto simp: std_min_def fl_less_key)
  have mx: "std_max ?v mx \<in> {mx, ?v}" "fl_key mx \<le> fl_key (std_max ?v mx)" "fl_key ?v \<le> fl_key (std_max ?v mx)"
    using Cons.prems(3) v by (auto simp: std_max_def fl_less_key)
  have "std_min ?v mn \<noteq> NaN" "std_max ?v mx \<noteq> NaN" using mn(1) mx(1) v Cons.prems(2,3) by auto
  note IH = Cons.IH [OF _ this]
  have "getBounds s d (std_min ?v mn, std_max ?v mx) pts = (a, b)" using Cons.prems(1) by (simp add: Let_def)
  note IH = IH [OF this]
  have rest: "a = std_min ?v mn \<or> (\<exists>i \<in> set pts. a = coeff s d i)" "b = std_max ?v mx \<or> (\<exists>i \<in> set pts. b = coeff s d i)"
      "fl_key a \<le> fl_key (std_min ?v mn)" "fl_key (std_max ?v mx) \<le> fl_key b"
      "\<forall>i \<in> set pts. fl_key a \<le> fl_key (coeff s d i) \<and> fl_key (coeff s d i) \<le> fl_key b"
    using IH Cons.prems(4) by auto
  have "fl_key a \<le> fl_key mn" "fl_key a \<le> fl_key ?v" "fl_key mx \<le> fl_key b" "fl_key ?v \<le> fl_key b"
    using rest(3,4) mn(2,3) mx(2,3) by (blast intro: order_trans)+
  then show ?case using rest(1,2,5) mn(1) mx(1) by auto
qed simp

text \<open>The middle of two numbers in range is a number.\<close>

definition good_scalars :: "scalar_ops \<Rightarrow> bool" where
  "good_scalars ops \<longleftrightarrow> (\<forall>a b. in_range a \<longrightarrow> in_range b \<longrightarrow> n_half ops (n_add ops a b) \<noteq> NaN)"

lemma choose_split_result:
  assumes "choose_split ops s pts mn mx = (c, v, n, qs)" and "good_scalars ops" and "2 \<le> length pts"
    and "length mn = k" and "length mx = k" and "0 < k" and "\<forall>x \<in> set mn \<union> set mx. in_range x"
    and "\<forall>i \<in> set pts. \<forall>d < k. in_range (coeff s d i)"
  shows "c < k \<and> in_range v \<and> 0 < n \<and> n < length pts \<and> mset qs = mset pts \<and>
    (\<forall>i \<in> set (take n qs). fl_key (coeff s c i) \<le> fl_key v) \<and> (\<forall>i \<in> set (drop n qs). fl_key v \<le> fl_key (coeff s c i))"
proof -
  let ?k = "\<lambda>i. fl_key (coeff s c i)"
  let ?ideal = "n_half ops (n_add ops (mx ! c) (mn ! c))"
  obtain lo hi b1 b2 where c: "c = argMax (map2 (n_sub ops) mx mn)"
    and bounds: "getBounds s c (flt_max, fl_neg flt_max) pts = (lo, hi)"
    and v: "v = (if fl_less ?ideal lo then lo else if fl_less hi ?ideal then hi else ?ideal)"
    and part: "partition_points s c v pts = (b1, b2, qs)"
    and n: "n = (if fl_less ?ideal lo then 1 else if fl_less hi ?ideal then length pts - 1
      else if length pts div 2 < b1 then b1 else if b2 < length pts div 2 then b2 else length pts div 2)"
    using assms(1) by (auto simp: choose_split_def Let_def split: prod.splits)
  have ck: "c < k" using assms(4,5,6) argMax_less [of "map2 (n_sub ops) mx mn"] by (fastforce simp: c)
  then have in_r: "\<forall>i \<in> set pts. in_range (coeff s c i)" and ideal: "?ideal \<noteq> NaN"
    using assms(2,4,5,7,8) by (auto simp: good_scalars_def)
  obtain p where p: "p \<in> set pts" using assms(3) by (cases pts) auto
  have max: "flt_max \<noteq> NaN" "fl_neg flt_max \<noteq> NaN" by (simp_all add: flt_max_def)
  note gb = getBounds_result [OF bounds max]
  have p': "in_range (coeff s c p)" using in_r p by blast
  have low: "\<exists>i \<in> set pts. ?k i = fl_key lo" "\<forall>i \<in> set pts. fl_key lo \<le> ?k i" "in_range lo"
  proof -
    have "lo = flt_max \<or> (\<exists>i \<in> set pts. lo = coeff s c i)" and le: "\<forall>i \<in> set pts. fl_key lo \<le> ?k i" using gb in_r by auto
    then show "in_range lo" using in_r by auto
    show "\<exists>i \<in> set pts. ?k i = fl_key lo"
    proof (cases "lo = flt_max")
      case True
      then have "?k p = fl_key lo" using le p p' by (intro antisym) (auto simp: in_range_def)
      then show ?thesis using p by blast
    qed (use \<open>lo = flt_max \<or> _\<close> in auto)
  qed (use gb in_r in auto)
  have high: "\<exists>i \<in> set pts. ?k i = fl_key hi" "\<forall>i \<in> set pts. ?k i \<le> fl_key hi" "in_range hi"
  proof -
    have "hi = fl_neg flt_max \<or> (\<exists>i \<in> set pts. hi = coeff s c i)" and le: "\<forall>i \<in> set pts. ?k i \<le> fl_key hi" using gb in_r by auto
    then show "in_range hi" using in_r by auto
    show "\<exists>i \<in> set pts. ?k i = fl_key hi"
    proof (cases "hi = fl_neg flt_max")
      case True
      then have "?k p = fl_key hi" using le p p' by (intro antisym) (auto simp: in_range_def)
      then show ?thesis using p by blast
    qed (use \<open>hi = fl_neg flt_max \<or> _\<close> in auto)
  qed (use gb in_r in auto)
  have less: "fl_less ?ideal lo \<longleftrightarrow> fl_key ?ideal < fl_key lo" "fl_less hi ?ideal \<longleftrightarrow> fl_key hi < fl_key ?ideal"
    using ideal low(3) high(3) by (simp_all add: fl_less_key)
  have between: "fl_key lo \<le> fl_key v" "fl_key v \<le> fl_key hi" "v \<noteq> NaN"
    using less low high ideal p by (auto simp: v not_less intro: order_trans)
  have v_range: "in_range v"
  proof (cases "fl_less ?ideal lo \<or> fl_less hi ?ideal")
    case False
    then have "v = ?ideal" by (simp add: v)
    then show ?thesis using in_range_between [OF low(3) high(3) between] by simp
  qed (use low(3) high(3) in \<open>auto simp: v\<close>)
  have nan: "\<forall>i \<in> set pts. coeff s c i \<noteq> NaN" using in_r by auto
  note pp = partition_points_result [OF part nan between(3)]
  have qs: "mset qs = mset pts" "set qs = set pts" "length qs = length pts"
    using pp by (auto dest: mset_eq_setD mset_eq_length)
  obtain i where i: "i < length pts" "?k (qs ! i) = fl_key lo" using low(1) qs by (metis in_set_conv_nth)
  obtain j where j: "j < length pts" "?k (qs ! j) = fl_key hi" using high(1) qs by (metis in_set_conv_nth)
  have below: "\<And>i. i < b1 \<Longrightarrow> ?k (qs ! i) < fl_key v" "\<And>i. i < b2 \<Longrightarrow> ?k (qs ! i) \<le> fl_key v"
    and above: "\<And>i. b1 \<le> i \<Longrightarrow> i < length pts \<Longrightarrow> fl_key v \<le> ?k (qs ! i)"
      "\<And>i. b2 \<le> i \<Longrightarrow> i < length pts \<Longrightarrow> fl_key v < ?k (qs ! i)" and b12: "b1 \<le> b2" "b2 \<le> length pts"
    using pp by blast+
  have mem: "qs ! i \<in> set pts" if "i < length pts" for i using that qs by (metis nth_mem)
  have b2: "0 < b2" using above(2) [of i] i between(1) by force
  have b1: "b1 < length pts" using below(1) [of j] j between(2) by force
  have inside: "b1 \<le> n \<and> n \<le> b2 \<and> 0 < n \<and> n < length pts"
  proof (cases "fl_less ?ideal lo")
    case True
    then have "v = lo" "n = 1" by (simp_all add: v n)
    moreover from this have "b1 = 0" using below(1) [of 0] low(2) mem [of 0] b1 by force
    ultimately show ?thesis using b2 assms(3) by simp
  next
    case 1: False
    show ?thesis
    proof (cases "fl_less hi ?ideal")
      case True
      then have "v = hi" "n = length pts - 1" using 1 by (simp_all add: v n)
      moreover from this have "b2 = length pts"
        using above(2) [of b2] high(2) mem [of b2] b12 by force
      ultimately show ?thesis using b1 assms(3) by auto
    next
      case False
      then show ?thesis using 1 b12 b1 b2 assms(3) by (auto simp: n)
    qed
  qed
  have "\<forall>i \<in> set (take n qs). ?k i \<le> fl_key v" using below(2) inside by (auto simp: in_set_conv_nth)
  moreover have "\<forall>i \<in> set (drop n qs). fl_key v \<le> ?k i" using above(1) inside qs(3) by (auto simp: in_set_conv_nth)
  ultimately show ?thesis using ck v_range inside qs(1) by blast
qed

section \<open>The packed words\<close>

lemma storage_bits_result: "i \<le> 64 \<Longrightarrow> v < 2 ^ k \<Longrightarrow> i + k \<le> 64 \<Longrightarrow>
  v < 2 ^ (storage_bits i v - i) \<and> i \<le> storage_bits i v \<and> storage_bits i v \<le> i + k"
proof (induction i v arbitrary: k rule: storage_bits.induct)
  case (1 i v)
  show ?case
  proof (cases "i < 64 \<and> v \<noteq> 0")
    case True
    then obtain k' where k: "k = Suc k'" using 1(3) by (cases k) auto
    have eq: "storage_bits i v = storage_bits (i + 1) (v div 2)" using True by (subst storage_bits.simps) simp
    have "v div 2 < 2 ^ k'" using 1(3) k by (simp add: less_mult_imp_div_less mult.commute)
    then have IH: "v div 2 < 2 ^ (storage_bits (i + 1) (v div 2) - (i + 1)) \<and> i + 1 \<le> storage_bits (i + 1) (v div 2)
        \<and> storage_bits (i + 1) (v div 2) \<le> i + 1 + k'"
      using True 1(4) k by (intro 1(1)) auto
    define m where "m = storage_bits (i + 1) (v div 2) - (i + 1)"
    have "v div 2 < 2 ^ m" using IH by (simp add: m_def)
    then have "v < 2 ^ Suc m" by (simp add: div_less_iff_less_mult mult.commute)
    moreover have "storage_bits (i + 1) (v div 2) - i = Suc m" using IH unfolding m_def by linarith
    ultimately show ?thesis using IH k eq by simp
  next
    case False
    show ?thesis
    proof (cases "i < 64")
      case True
      then show ?thesis using False by (subst (1 2 3) storage_bits.simps) simp
    next
      case big: False
      then have "k = 0" "i = 64" using 1(2,4) by auto
      then show ?thesis using 1(3) by (subst (1 2 3) storage_bits.simps) simp
    qed
  qed
qed

lemma dim_bits: "d < 2 ^ 31 \<Longrightarrow> d < 2 ^ getStorageBitCount d \<and> getStorageBitCount d \<le> 31"
  using storage_bits_result [of 0 d 31] by (simp add: getStorageBitCount_def)

definition packable :: "kd_tree \<Rightarrow> bool" where
  "packable t \<longleftrightarrow> dimBitCount t \<le> 31 \<and> dimMask t = push_bit (dimBitCount t) 1 - 1 \<and> dim t < 2 ^ dimBitCount t"

lemma unpack:
  assumes "packable t" and "d \<le> dim t" and "child < 2 ^ (32 - dimBitCount t)"
  shows "getDim t (createDimChildBucketSize (dimBitCount t) d child) = d"
    and "getChildBucketSize t (createDimChildBucketSize (dimBitCount t) d child) = child"
proof -
  let ?b = "dimBitCount t"
  have d: "d < 2 ^ ?b" "?b \<le> 31" using assms(1,2) by (auto simp: packable_def)
  have "(2::nat) ^ ?b \<le> 2 ^ 32" using d(2) by (intro power_increasing) auto
  moreover have "(2::nat) ^ (32 - ?b) \<le> 2 ^ 32" by (intro power_increasing) auto
  ultimately have small: "d < 2 ^ 32" "child < 2 ^ 32" using d(1) assms(3) by auto
  have "child * 2 ^ ?b < 2 ^ (32 - ?b) * 2 ^ ?b" using assms(3) by simp
  also have "\<dots> = 2 ^ 32" using d(2) by (simp flip: power_add)
  finally have prod: "push_bit ?b child < 2 ^ 32" by (simp add: push_bit_eq_mult)
  let ?w = "createDimChildBucketSize ?b d child"
  have u: "unat ?w = (d OR push_bit ?b child)"
    using small prod
    by (simp add: createDimChildBucketSize_def unsigned_or_eq unsigned_push_bit_eq unsigned_of_nat take_bit_nat_eq_self)
  have mask: "dimMask t = mask ?b" using assms(1) by (simp add: packable_def mask_eq_exp_minus_1)
  show "getDim t ?w = d"
    using d(1) by (simp add: getDim_def mask unsigned_take_bit_eq u take_bit_push_bit take_bit_nat_eq_self flip: take_bit_eq_mask)
  show "getChildBucketSize t ?w = child"
  proof -
    have "drop_bit ?b d = 0" using d(1) by (simp add: drop_bit_eq_div)
    then show ?thesis
      using small prod by (simp add: getChildBucketSize_def unsigned_drop_bit_eq u take_bit_nat_eq_self drop_bit_push_bit)
  qed
qed

section \<open>The tree that the nodes represent\<close>

datatype kd = Bucket "nat list" | Split nat fl kd kd

fun tree_points :: "kd \<Rightarrow> nat list" where
  "tree_points (Bucket is) = is"
| "tree_points (Split d c l r) = tree_points l @ tree_points r"

fun represents :: "kd_tree \<Rightarrow> nat \<Rightarrow> kd \<Rightarrow> bool" where
  "represents t n (Bucket is) \<longleftrightarrow> n < length (nodes t) \<and> getDim t (dimChildBucketSize (nodes t ! n)) = dim t \<and>
     getChildBucketSize t (dimChildBucketSize (nodes t ! n)) = length is \<and>
     (\<exists>b. node_union (nodes t ! n) = Bucket_index b \<and> b + length is \<le> length (buckets t) \<and>
       take (length is) (drop b (buckets t)) = map (\<lambda>i. \<lparr>pt = i, bucket_point = i\<rparr>) is)"
| "represents t n (Split d c l r) \<longleftrightarrow> n < length (nodes t) \<and> d < dim t \<and> getDim t (dimChildBucketSize (nodes t ! n)) = d \<and>
     node_union (nodes t ! n) = Cut_val c \<and> n < getChildBucketSize t (dimChildBucketSize (nodes t ! n)) \<and>
     represents t (n + 1) l \<and> represents t (getChildBucketSize t (dimChildBucketSize (nodes t ! n))) r"

fun separated :: "'a nn_search_scheme \<Rightarrow> kd \<Rightarrow> bool" where
  "separated s (Bucket is) = True"
| "separated s (Split d c l r) \<longleftrightarrow> in_range c \<and> (\<forall>i \<in> set (tree_points l). fl_key (coeff s d i) \<le> fl_key c) \<and>
     (\<forall>i \<in> set (tree_points r). fl_key c \<le> fl_key (coeff s d i)) \<and> separated s l \<and> separated s r"

text \<open>Later nodes and buckets, and changes of earlier nodes, do not matter.\<close>

definition grows :: "nat \<Rightarrow> kd_tree \<Rightarrow> kd_tree \<Rightarrow> bool" where
  "grows n t t' \<longleftrightarrow> dim t' = dim t \<and> dimBitCount t' = dimBitCount t \<and> dimMask t' = dimMask t \<and>
     (\<exists>bs. buckets t' = buckets t @ bs) \<and> length (nodes t) \<le> length (nodes t') \<and>
     (\<forall>i. n \<le> i \<and> i < length (nodes t) \<longrightarrow> nodes t' ! i = nodes t ! i)"

lemma represents_grows: "represents t m tr \<Longrightarrow> grows n t t' \<Longrightarrow> n \<le> m \<Longrightarrow> represents t' m tr"
proof (induction tr arbitrary: m)
  case (Bucket pts)
  have same: "nodes t' ! m = nodes t ! m" "m < length (nodes t')" "dim t' = dim t"
      "\<And>w. getDim t' w = getDim t w" "\<And>w. getChildBucketSize t' w = getChildBucketSize t w"
    using Bucket by (auto simp: grows_def getDim_def getChildBucketSize_def)
  obtain b bs where b: "node_union (nodes t ! m) = Bucket_index b" "b + length pts \<le> length (buckets t)"
      "take (length pts) (drop b (buckets t)) = map (\<lambda>i. \<lparr>pt = i, bucket_point = i\<rparr>) pts" "buckets t' = buckets t @ bs"
    using Bucket by (auto simp: grows_def)
  then show ?case using Bucket.prems(1) by (auto simp: same)
next
  case (Split d c l r)
  have same: "nodes t' ! m = nodes t ! m" "m < length (nodes t')" "dim t' = dim t"
      "\<And>w. getDim t' w = getDim t w" "\<And>w. getChildBucketSize t' w = getChildBucketSize t w"
    using Split.prems by (auto simp: grows_def getDim_def getChildBucketSize_def)
  then show ?case using Split by auto
qed

section \<open>What is built\<close>

definition ranged :: "'a nn_search_scheme \<Rightarrow> nat list \<Rightarrow> bool" where
  "ranged s pts \<longleftrightarrow> (\<forall>i \<in> set pts. i < length (mat_cols (cloud s)) \<and> (\<forall>d < dim s. in_range (coeff s d i)))"

definition add_nodes :: "kd_node list \<Rightarrow> bucket_entry list \<Rightarrow> kd_tree \<Rightarrow> kd_tree" where
  "add_nodes ns bs t = t\<lparr>nodes := nodes t @ ns, buckets := buckets t @ bs\<rparr>"

lemma add_nodes_simps [simp]:
  "nodes (add_nodes ns bs t) = nodes t @ ns" "buckets (add_nodes ns bs t) = buckets t @ bs"
  "cloud (add_nodes ns bs t) = cloud t" "dim (add_nodes ns bs t) = dim t" "bucketSize (add_nodes ns bs t) = bucketSize t"
  "dimBitCount (add_nodes ns bs t) = dimBitCount t" "dimMask (add_nodes ns bs t) = dimMask t"
  "ranged (add_nodes ns bs t) pts = ranged t pts" "packable (add_nodes ns bs t) = packable t"
  "coeff (add_nodes ns bs t) d i = coeff t d i" "getDim (add_nodes ns bs t) w = getDim t w"
  "getChildBucketSize (add_nodes ns bs t) w = getChildBucketSize t w"
  "add_nodes ns' bs' (add_nodes ns bs t) = add_nodes (ns @ ns') (bs @ bs') t"
  by (simp_all add: add_nodes_def ranged_def packable_def coeff_def getDim_def getChildBucketSize_def)

lemma separated_cong: "(\<And>d i. coeff s d i = coeff s' d i) \<Longrightarrow> separated s tr = separated s' tr"
  by (induction tr) auto

lemma separated_add_nodes [simp]: "separated (add_nodes ns bs t) tr = separated t tr"
  by (rule separated_cong) simp

lemma grows_add_nodes: "grows n t (add_nodes ns bs t)"
  by (auto simp: grows_def nth_append)

lemma mset_partition_loop:
  "r < int (length pts) \<Longrightarrow> mset (snd (partition_loop up down low l r pts)) = mset pts"
proof (induction up down low l r pts rule: partition_loop.induct)
  case (1 up down low l r pts)
  let ?l = "skip_up up l pts" and ?r = "skip_down down low r pts"
  show ?case
  proof (cases "int ?l > ?r")
    case True
    then show ?thesis by (subst partition_loop.simps) (simp add: Let_def)
  next
    case False
    let ?ps = "pts[?l := pts ! nat ?r, nat ?r := pts ! ?l]"
    have l: "l \<le> ?l" "?r \<le> r" by (rule skip_up_le, rule skip_down_le)
    then have bounds: "?l < length pts" "nat ?r < length pts" using False 1(2) by linarith+
    have "mset (snd (partition_loop up down low (?l + 1) (?r - 1) ?ps)) = mset ?ps"
      using l bounds 1(2) False by (intro 1(1) [OF refl refl False]) auto
    also have "\<dots> = mset pts" using bounds by (intro mset_swap) simp_all
    finally show ?thesis using False by (subst partition_loop.simps) (simp add: Let_def)
  qed
qed


lemma choose_split_mset: "choose_split ops s pts mn mx = (c, v, n, qs) \<Longrightarrow> mset qs = mset pts"
proof -
  assume "choose_split ops s pts mn mx = (c, v, n, qs)"
  then obtain b1 b2 where "partition_points s c v pts = (b1, b2, qs)"
    by (auto simp: choose_split_def Let_def split: prod.splits)
  then obtain l ps where "partition_loop (\<lambda>i. fl_less (coeff s c i) v) (\<lambda>i. fl_le v (coeff s c i)) 0 0 (int (length pts) - 1) pts = (l, ps)"
    and "partition_loop (\<lambda>i. fl_le (coeff s c i) v) (\<lambda>i. fl_less v (coeff s c i)) l l (int (length ps) - 1) ps = (b2, qs)"
    by (auto simp: partition_points_def split: prod.splits)
  then have "ps = snd (partition_loop (\<lambda>i. fl_less (coeff s c i) v) (\<lambda>i. fl_le v (coeff s c i)) 0 0 (int (length pts) - 1) pts)"
    "qs = snd (partition_loop (\<lambda>i. fl_le (coeff s c i) v) (\<lambda>i. fl_less v (coeff s c i)) l l (int (length ps) - 1) ps)" by simp_all
  then show "mset qs = mset pts" by (simp add: mset_partition_loop del: snd_conv)
qed

lemma choose_split_dim:
  "choose_split ops s pts mn mx = (c, v, n, qs) \<Longrightarrow> length mn = k \<Longrightarrow> length mx = k \<Longrightarrow> 0 < k \<Longrightarrow> c < k"
  using argMax_less [of "map2 (n_sub ops) mx mn"] by (fastforce simp: choose_split_def Let_def split: prod.splits)

text \<open>When a tree is built, and what it represents whenever it is.\<close>

definition buildable :: "scalar_ops \<Rightarrow> kd_tree \<Rightarrow> nat list \<Rightarrow> fl list \<Rightarrow> fl list \<Rightarrow> bool" where
  "buildable ops t pts mn mx \<longleftrightarrow> good_scalars ops \<and> ranged t pts \<and> (\<forall>x \<in> set mn \<union> set mx. in_range x)"

definition built :: "scalar_ops \<Rightarrow> kd_tree \<Rightarrow> nat list \<Rightarrow> fl list \<Rightarrow> fl list \<Rightarrow> (kd_tree \<times> nat) res \<Rightarrow> bool" where
  "built ops t pts mn mx r = (case r of Inl e \<Rightarrow> \<not> buildable ops t pts mn mx | Inr (t', pos) \<Rightarrow> pos = length (nodes t) \<and>
     (\<exists>ns bs tr. t' = add_nodes ns bs t \<and> length ns < 2 * length pts \<and> represents t' (length (nodes t)) tr \<and>
       mset (tree_points tr) = mset pts \<and> (buildable ops t pts mn mx \<longrightarrow> separated t tr)))"

lemma builtI:
  "r = Inr (add_nodes ns bs t, length (nodes t)) \<Longrightarrow> length ns < 2 * length pts \<Longrightarrow>
   represents (add_nodes ns bs t) (length (nodes t)) tr \<Longrightarrow> mset (tree_points tr) = mset pts \<Longrightarrow>
   (buildable ops t pts mn mx \<Longrightarrow> separated t tr) \<Longrightarrow> built ops t pts mn mx r"
  by (auto simp: built_def)

lemma builtD:
  "built ops t pts mn mx (Inr r) \<Longrightarrow> \<exists>ns bs tr. r = (add_nodes ns bs t, length (nodes t)) \<and> length ns < 2 * length pts \<and>
   represents (add_nodes ns bs t) (length (nodes t)) tr \<and> mset (tree_points tr) = mset pts \<and>
   (buildable ops t pts mn mx \<longrightarrow> separated t tr)"
  by (cases r) (auto simp: built_def)

lemma buildNodes_result:
  assumes "packable t" and "2 \<le> bucketSize t" and "0 < dim t" and "pts \<noteq> []"
    and "length (nodes t) + 2 * length pts \<le> 2 ^ (32 - dimBitCount t)" and "length mn = dim t" and "length mx = dim t"
  shows "built ops t pts mn mx (buildNodes ops t pts mn mx)"
  using assms
proof (induction "length pts" arbitrary: t pts mn mx rule: less_induct)
  case less
  note pack = less(2) and bsize = less(3) and dim = less(4) and ne = less(5) and room = less(6) and mnmx = less(7,8)
  let ?pos = "length (nodes t)"
  show ?case
  proof (cases "length pts \<le> bucketSize t")
    case True
    let ?w = "createDimChildBucketSize (dimBitCount t) (dim t) (length pts)"
    let ?ns = "[\<lparr>dimChildBucketSize = ?w, node_union = Bucket_index (length (buckets t))\<rparr>]"
    let ?bs = "map (\<lambda>i. \<lparr>pt = i, bucket_point = i\<rparr>) pts"
    show ?thesis
    proof (cases "\<exists>i \<in> set pts. length (mat_cols (cloud t)) \<le> i")
      case out: True
      then have "buildNodes ops t pts mn mx = Inl Assert_failed"
        using True ne by (subst buildNodes.simps) (simp add: Let_def Suc_le_eq)
      moreover have "\<not> buildable ops t pts mn mx" using out by (auto simp: buildable_def ranged_def not_less)
      ultimately show ?thesis by (simp add: built_def)
    next
      case False
      then have "buildNodes ops t pts mn mx = Inr (add_nodes ?ns ?bs t, ?pos)"
        using True ne by (subst buildNodes.simps) (simp add: Let_def add_nodes_def Suc_le_eq)
      moreover have "length pts < 2 ^ (32 - dimBitCount t)" using room ne by (cases pts) auto
      then have "represents (add_nodes ?ns ?bs t) ?pos (Bucket pts)"
        using unpack [OF pack order_refl] by simp
      moreover have "length ?ns < 2 * length pts" using ne by (cases pts) auto
      moreover have "mset (tree_points (Bucket pts)) = mset pts" "separated t (Bucket pts)" by simp_all
      ultimately show ?thesis by (intro builtI)
    qed
  next
    case False
    obtain c v n qs where split: "choose_split ops t pts mn mx = (c, v, n, qs)" by (metis prod_cases4)
    have two: "2 \<le> length pts" using False bsize by simp
    have c: "c < dim t" by (rule choose_split_dim [OF split mnmx dim])
    have qs: "mset qs = mset pts" by (rule choose_split_mset [OF split])
    then have qs': "set qs = set pts" "length qs = length pts" by (auto dest: mset_eq_setD mset_eq_length)
    have good: "in_range v \<and> 0 < n \<and> n < length pts \<and> (\<forall>i \<in> set (take n qs). fl_key (coeff t c i) \<le> fl_key v) \<and>
        (\<forall>i \<in> set (drop n qs). fl_key v \<le> fl_key (coeff t c i))" if "buildable ops t pts mn mx"
      using choose_split_result [OF split _ two mnmx dim] that by (simp add: buildable_def ranged_def)
    let ?node = "\<lparr>dimChildBucketSize = 0, node_union = Cut_val v\<rparr>"
    let ?t0 = "add_nodes [?node] [] t"
    let ?left = "buildNodes ops ?t0 (take n qs) mn (mx[c := v])"
    have t0: "t\<lparr>nodes := nodes t @ [?node]\<rparr> = ?t0" by (simp add: add_nodes_def)
    show ?thesis
    proof (cases "0 < n \<and> n < length pts")
      case bad: False
      then have "buildNodes ops t pts mn mx = Inl Assert_failed"
        using False ne by (subst buildNodes.simps) (simp add: Let_def split Suc_le_eq)
      then show ?thesis using good bad by (auto simp: built_def)
    next
      case n: True
      have sub: "buildable ops t pts mn mx \<Longrightarrow> buildable ops (add_nodes ns bs t) (take n qs) mn (mx[c := v])"
          "buildable ops t pts mn mx \<Longrightarrow> buildable ops (add_nodes ns bs t) (drop n qs) (mn[c := v]) mx" for ns bs
        using good qs'(1) unfolding buildable_def ranged_def
        by (auto dest: in_set_takeD in_set_dropD set_update_subset_insert [THEN subsetD])
      have left: "built ops ?t0 (take n qs) mn (mx[c := v]) ?left"
        by (rule less(1)) (use pack bsize dim n mnmx qs'(2) room in auto)
      show ?thesis
      proof (cases ?left)
        case (Inl e)
        then have "buildNodes ops t pts mn mx = Inl e"
          using False ne n by (subst buildNodes.simps) (simp add: Let_def split t0 Suc_le_eq)
        moreover have "\<not> buildable ops t pts mn mx" using left sub(1) Inl by (auto simp: built_def)
        ultimately show ?thesis by (simp add: built_def)
      next
        case (Inr r1)
        obtain ns1 bs1 tr1 where b1: "r1 = (add_nodes ns1 bs1 ?t0, length (nodes ?t0))" and n1: "length ns1 < 2 * n"
          and r1: "represents (add_nodes ns1 bs1 ?t0) (length (nodes ?t0)) tr1" and m1: "mset (tree_points tr1) = mset (take n qs)"
          and s1: "buildable ops t pts mn mx \<Longrightarrow> separated t tr1"
        proof -
          have "length (take n qs) = n" using n qs'(2) by simp
          then show ?thesis using builtD [OF left [unfolded Inr]] sub(1) that by (metis separated_add_nodes)
        qed
        let ?t1 = "add_nodes ns1 bs1 ?t0"
        let ?right = "buildNodes ops ?t1 (drop n qs) (mn[c := v]) mx"
        have right: "built ops ?t1 (drop n qs) (mn[c := v]) mx ?right"
          by (rule less(1)) (use pack bsize dim n mnmx qs'(2) room n1 in auto)
        have pos1: "length (nodes ?t0) = ?pos + 1" by simp
        show ?thesis
        proof (cases ?right)
          case (Inl e)
          then have "buildNodes ops t pts mn mx = Inl e"
            using False ne n Inr b1 pos1 by (subst buildNodes.simps) (simp add: Let_def split t0 Suc_le_eq)
          moreover have "\<not> buildable ops t pts mn mx" using right sub(2) Inl by (auto simp: built_def)
          ultimately show ?thesis by (simp add: built_def)
        next
          case (Inr r2)
          obtain ns2 bs2 tr2 where b2: "r2 = (add_nodes ns2 bs2 ?t1, length (nodes ?t1))" and n2: "length ns2 < 2 * (length pts - n)"
            and r2: "represents (add_nodes ns2 bs2 ?t1) (length (nodes ?t1)) tr2" and m2: "mset (tree_points tr2) = mset (drop n qs)"
            and s2: "buildable ops t pts mn mx \<Longrightarrow> separated t tr2"
          proof -
            have "length (drop n qs) = length pts - n" using qs'(2) by simp
            moreover have "buildable ops t pts mn mx \<Longrightarrow> buildable ops ?t1 (drop n qs) (mn[c := v]) mx"
              using sub(2) [of "?node # ns1" bs1] by simp
            moreover have "separated ?t1 = separated t" by (intro ext) simp
            ultimately show ?thesis using builtD [OF right [unfolded Inr]] that by metis
          qed
          let ?t2 = "add_nodes ns2 bs2 ?t1" and ?rc = "length (nodes ?t1)"
          let ?w = "createDimChildBucketSize (dimBitCount t) c ?rc"
          let ?ns = "?node\<lparr>dimChildBucketSize := ?w\<rparr> # ns1 @ ns2"
          let ?r = "add_nodes ?ns (bs1 @ bs2) t"
          have "buildNodes ops t pts mn mx = Inr (?r, ?pos)"
            using False ne n \<open>?left = Inr r1\<close> b1 Inr b2 pos1
            by (subst buildNodes.simps) (simp add: Let_def split t0 Suc_le_eq, simp add: add_nodes_def)
          moreover have grow: "grows (Suc ?pos) ?t2 ?r"
            by (auto simp: grows_def nth_append nth_Cons split: nat.splits)
          have "?rc < 2 ^ (32 - dimBitCount t)" using room n1 n by simp
          then have child: "getChildBucketSize t ?w = ?rc" "getDim t ?w = c" using unpack [OF pack] c by auto
          have "represents ?t2 (Suc ?pos) tr1" using represents_grows [OF r1 grows_add_nodes order_refl, of ns2 bs2] by simp
          then have "represents ?r (Suc ?pos) tr1" "represents ?r ?rc tr2"
            using r2 represents_grows [OF _ grow] by auto
          then have "represents ?r ?pos (Split c v tr1 tr2)" using c child by simp
          moreover have "mset (tree_points (Split c v tr1 tr2)) = mset pts"
            using m1 m2 qs by (metis append_take_drop_id mset_append tree_points.simps(2))
          moreover have "separated t (Split c v tr1 tr2)" if "buildable ops t pts mn mx"
            using s1 s2 good that mset_eq_setD [OF m1] mset_eq_setD [OF m2] by simp
          moreover have "length ?ns < 2 * length pts" using n1 n2 n by simp
          ultimately show ?thesis by (intro builtI)
        qed
      qed
    qed
  qed
qed

text \<open>
  The cloud: every column has the matrix's rows, every coefficient is a finite number, and the
  nodes' numbers fit beside the dimensions.
\<close>

definition fits_cloud :: "matrix \<Rightarrow> int \<Rightarrow> bool" where
  "fits_cloud m d \<longleftrightarrow> mat_wf m \<and> mat_cols m \<noteq> [] \<and> 0 < mat_rows m \<and> mat_rows m < 2 ^ 31 \<and> 0 < d \<and>
     2 * length (mat_cols m) \<le> 2 ^ (32 - getStorageBitCount (nat (min d (int (mat_rows m)))))"

definition good_cloud :: "matrix \<Rightarrow> int \<Rightarrow> bool" where
  "good_cloud m d \<longleftrightarrow> fits_cloud m d \<and> (\<forall>c \<in> set (mat_cols m). \<forall>x \<in> set c. in_range x)"

text \<open>A tree over a cloud: the points in its buckets are the columns, each once.\<close>

definition tree_of :: "kd_tree \<Rightarrow> matrix \<Rightarrow> int \<Rightarrow> kd \<Rightarrow> bool" where
  "tree_of t m d tr \<longleftrightarrow> cloud t = m \<and> dim t = nat (min d (int (mat_rows m))) \<and> nodes t \<noteq> [] \<and> represents t 0 tr \<and>
     mset (tree_points tr) = mset [0..<length (mat_cols m)]"

lemma fold_length:
  "length b = k \<Longrightarrow> \<forall>i \<in> set pts. k \<le> length (cols ! i) \<Longrightarrow> length (foldl (\<lambda>b i. map2 f b (take k (cols ! i))) b pts) = k"
  by (induction pts arbitrary: b) simp_all

lemma fold_bounds:
  assumes "\<And>a b. f a b \<in> {a, b}"
  shows "length b = k \<Longrightarrow> \<forall>x \<in> set b. in_range x \<Longrightarrow>
    \<forall>i \<in> set pts. k \<le> length (cols ! i) \<and> (\<forall>x \<in> set (cols ! i). in_range x) \<Longrightarrow>
    length (foldl (\<lambda>b i. map2 f b (take k (cols ! i))) b pts) = k \<and>
    (\<forall>x \<in> set (foldl (\<lambda>b i. map2 f b (take k (cols ! i))) b pts). in_range x)"
proof (induction pts arbitrary: b)
  case (Cons i pts)
  have "in_range x" if x: "x \<in> set (map2 f b (take k (cols ! i)))" for x
  proof -
    obtain u v where uv: "x = f u v" "(u, v) \<in> set (zip b (take k (cols ! i)))" using x by auto
    then have "u \<in> set b" "v \<in> set (cols ! i)" by (auto dest: set_zip_leftD set_zip_rightD in_set_takeD)
    then show ?thesis using uv(1) assms [of u v] Cons.prems by auto
  qed
  then have r: "\<forall>x \<in> set (map2 f b (take k (cols ! i))). in_range x" by blast
  have l: "length (map2 f b (take k (cols ! i))) = k" using Cons.prems(1,3) by simp
  have "\<forall>i \<in> set pts. k \<le> length (cols ! i) \<and> (\<forall>x \<in> set (cols ! i). in_range x)" using Cons.prems(3) by simp
  from Cons.IH [OF l r this] show ?case by simp
qed simp

lemma create_cases:
  assumes "fits_cloud m d" and "2 \<le> bucket_size"
  shows "case create_kd_tree ops m d flags bucket_size of Inl e \<Rightarrow> \<not> (good_scalars ops \<and> good_cloud m d)
    | Inr t \<Rightarrow> \<exists>tr. tree_of t m d tr \<and> creationOptionFlags t = flags \<and> (good_scalars ops \<and> good_cloud m d \<longrightarrow> separated t tr)"
proof -
  let ?k = "nat (min d (int (mat_rows m)))" and ?n = "length (mat_cols m)"
  let ?b = "getStorageBitCount ?k"
  have m: "mat_wf m" "mat_cols m \<noteq> []" "0 < mat_rows m" "0 < ?k" "?k \<le> mat_rows m" "?k < 2 ^ 31" and cap: "2 * ?n \<le> 2 ^ (32 - ?b)"
    using assms(1) by (auto simp: fits_cloud_def)
  let ?s = "\<lparr>cloud = m, dim = ?k, creationOptionFlags = flags, minBound = replicate ?k flt_max, maxBound = replicate ?k flt_min\<rparr>"
  have s: "NearestNeighbourSearch m d flags = Inr ?s" using m by (simp add: NearestNeighbourSearch_def Let_def)
  let ?t = "nn_search.extend ?s (kd_tree.fields bucket_size ?b (push_bit ?b 1 - 1) [] [])"
  have cols: "length c = mat_rows m" if "c \<in> set (mat_cols m)" for c using m(1) that by (auto simp: mat_wf_def)
  have n: "0 < ?n" using m(2) by simp
  show ?thesis
  proof (cases "?n \<le> bucket_size")
    case True
    let ?bs = "map (\<lambda>i. \<lparr>pt = i, bucket_point = i\<rparr>) [0..<?n]"
    let ?w = "createDimChildBucketSize ?b ?k ?n"
    define r where "r = ?t\<lparr>buckets := ?bs, nodes := [\<lparr>dimChildBucketSize = ?w, node_union = Bucket_index 0\<rparr>]\<rparr>"
    have create: "create_kd_tree ops m d flags bucket_size = Inr r"
      using True assms(2) by (simp add: create_kd_tree_def s Let_def r_def)
    have r: "nodes r = [\<lparr>dimChildBucketSize = ?w, node_union = Bucket_index 0\<rparr>]" "buckets r = ?bs" "dim r = ?k"
        "dimBitCount r = ?b" "packable r" "cloud r = m" "creationOptionFlags r = flags"
      using dim_bits [OF m(6)] by (simp_all add: r_def packable_def nn_search.defs kd_tree.defs)
    have "getDim r ?w = ?k" "getChildBucketSize r ?w = ?n"
      using unpack [OF r(5), of ?k ?n] cap n by (simp_all add: r(3,4))
    then have "represents r 0 (Bucket [0..<?n])" by (simp add: r)
    then have "tree_of r m d (Bucket [0..<?n])" "separated r (Bucket [0..<?n])" by (simp_all add: tree_of_def r)
    then show ?thesis unfolding create sum.case using r(7) by blast
  next
    case False
    define mn where "mn = foldl (\<lambda>b i. map2 std_min b (take ?k (mat_cols m ! i))) (replicate ?k flt_max) [0..<?n]"
    define mx where "mx = foldl (\<lambda>b i. map2 std_max b (take ?k (mat_cols m ! i))) (replicate ?k flt_min) [0..<?n]"
    define t' where "t' = ?t\<lparr>minBound := mn, maxBound := mx\<rparr>"
    have long: "\<forall>i \<in> set [0..<?n]. ?k \<le> length (mat_cols m ! i)"
      using m(5) cols by (metis atLeastLessThan_iff atLeastLessThan_upt nth_mem)
    have len: "length mn = ?k" "length mx = ?k" using long by (simp_all add: mn_def mx_def fold_length del: set_upt)
    have "?n div (bucket_size div 2) \<le> ?n" by simp
    then have "\<not> 2 ^ (32 - ?b) - 1 < ?n div (bucket_size div 2)" using cap n by linarith
    then have create: "create_kd_tree ops m d flags bucket_size = res_map fst (buildNodes ops t' [0..<?n] mn mx)"
      using False assms(2) by (simp add: create_kd_tree_def s Let_def mn_def mx_def t'_def)
    have t': "packable t'" "bucketSize t' = bucket_size" "dim t' = ?k" "cloud t' = m" "nodes t' = []"
        "dimBitCount t' = ?b" "creationOptionFlags t' = flags"
      using dim_bits [OF m(6)] by (simp_all add: t'_def packable_def nn_search.defs kd_tree.defs)
    have good: "buildable ops t' [0..<?n] mn mx" if g: "good_scalars ops" "good_cloud m d"
    proof -
      have min_r: "in_range flt_min" by (simp add: in_range_def flt_min_def flt_max_def)
      have points: "\<forall>i \<in> set [0..<?n]. ?k \<le> length (mat_cols m ! i) \<and> (\<forall>x \<in> set (mat_cols m ! i). in_range x)"
        using long g(2) by (auto simp: good_cloud_def)
      have "\<forall>x \<in> set mn. in_range x"
        using fold_bounds [of std_min "replicate ?k flt_max" ?k "[0..<?n]" "mat_cols m"] points by (auto simp: mn_def std_min_def)
      moreover have "\<forall>x \<in> set mx. in_range x"
        using fold_bounds [of std_max "replicate ?k flt_min" ?k "[0..<?n]" "mat_cols m"] points min_r by (auto simp: mx_def std_max_def)
      moreover have "ranged t' [0..<?n]" using points by (auto simp: ranged_def t' coeff_def)
      ultimately show ?thesis using g(1) by (auto simp: buildable_def)
    qed
    have b: "built ops t' [0..<?n] mn mx (buildNodes ops t' [0..<?n] mn mx)"
      by (rule buildNodes_result [OF t'(1)]) (use assms(2) m(4) n cap len t' in simp_all)
    show ?thesis
    proof (cases "buildNodes ops t' [0..<?n] mn mx")
      case (Inl e)
      then show ?thesis using b good by (auto simp: built_def create)
    next
      case (Inr r)
      obtain ns bs tr where r: "r = (add_nodes ns bs t', 0)" "represents (add_nodes ns bs t') 0 tr" "mset (tree_points tr) = mset [0..<?n]"
          "buildable ops t' [0..<?n] mn mx \<longrightarrow> separated t' tr"
        using builtD [OF b [unfolded Inr]] unfolding t'(5) list.size by blast
      have "nodes (add_nodes ns bs t') \<noteq> []" using r(2) by (cases tr) auto
      then have "tree_of (add_nodes ns bs t') m d tr" using r by (simp add: tree_of_def t')
      moreover have "creationOptionFlags (add_nodes ns bs t') = flags" by (simp add: add_nodes_def t'(7))
      moreover have "good_scalars ops \<and> good_cloud m d \<longrightarrow> separated (add_nodes ns bs t') tr" using r(4) good by simp
      moreover have c: "create_kd_tree ops m d flags bucket_size = Inr (add_nodes ns bs t')" by (simp add: create Inr r(1))
      ultimately show ?thesis unfolding c sum.case by blast
    qed
  qed
qed

lemma create_result:
  assumes "good_scalars ops" and "good_cloud m d" and "2 \<le> bucket_size"
  shows "\<exists>t tr. create_kd_tree ops m d flags bucket_size = Inr t \<and> tree_of t m d tr \<and> separated t tr"
  using create_cases [of m d bucket_size ops flags] assms
  by (cases "create_kd_tree ops m d flags bucket_size") (auto simp: good_cloud_def)

lemma create_structure:
  assumes "create_kd_tree ops m d flags bucket_size = Inr t" and "fits_cloud m d" and "2 \<le> bucket_size"
  shows "\<exists>tr. tree_of t m d tr"
  using create_cases [OF assms(2,3), of ops flags] assms(1) by auto

section \<open>Exact arithmetic\<close>

lemma exact_of_simps [simp]: "is_fin (exact_of v)" "fl_val (exact_of v) = v" "exact_of v \<noteq> NaN" "fl_key (exact_of v) = (0, v)"
  by (auto simp: exact_of_def)

lemma exact_ops [simp]:
  "is_fin a \<Longrightarrow> is_fin b \<Longrightarrow> n_add exact_scalars a b = exact_of (fl_val a + fl_val b)"
  "is_fin a \<Longrightarrow> is_fin b \<Longrightarrow> n_sub exact_scalars a b = exact_of (fl_val a - fl_val b)"
  "is_fin a \<Longrightarrow> is_fin b \<Longrightarrow> n_mul exact_scalars a b = exact_of (fl_val a * fl_val b)"
  "is_fin a \<Longrightarrow> n_half exact_scalars a = exact_of (fl_val a / 2)"
  by (simp_all add: exact_scalars_def exactly_def)

lemma exact_of_zero: "fl_zero = exact_of 0" and exact_of_one: "fl_one = exact_of 1"
  by (simp_all add: exact_of_def)

lemma fl_neg_val [simp]: "fl_val (fl_neg a) = - fl_val a" "is_fin (fl_neg a) = is_fin a"
  by (cases a; simp)+

lemma good_exact_scalars: "good_scalars exact_scalars"
  by (auto simp: good_scalars_def in_range_def)

lemma fl_round_number [simp]: "fl_round fmt t q \<noteq> NaN" "fl_of_rat fmt t q \<noteq> NaN"
  by (simp_all add: fl_round_def fl_of_rat_def Let_def)

lemma good_float_scalars: "good_scalars float_scalars"
proof -
  have add: "fl_add binary32 a b \<noteq> NaN" if "is_fin a" "is_fin b" for a b
    using that by (cases a; cases b) simp_all
  have half: "fl_div binary32 x (Fin False 2) \<noteq> NaN" if "x \<noteq> NaN" for x
    using that by (cases x) simp_all
  show ?thesis using add half by (simp add: good_scalars_def float_scalars_def in_range_def)
qed

text \<open>The squared distance of two points in the first \<open>k\<close> dimensions.\<close>

definition sq_dist :: "nat \<Rightarrow> fl list \<Rightarrow> fl list \<Rightarrow> rat" where
  "sq_dist k q p = (\<Sum>d<k. (fl_val (q ! d) - fl_val (p ! d))\<^sup>2)"

lemma dist_from_exact:
  "length qs = length ps \<Longrightarrow> \<forall>x \<in> set qs \<union> set ps. is_fin x \<Longrightarrow>
   dist_from exact_scalars (exact_of a) qs ps = exact_of (a + sq_dist (length qs) qs ps)"
proof (induction qs ps arbitrary: a rule: list_induct2')
  case (4 q qs p ps)
  have "sq_dist (length (q # qs)) (q # qs) (p # ps) = (fl_val q - fl_val p)\<^sup>2 + sq_dist (length qs) qs ps"
    by (simp add: sq_dist_def sum.lessThan_Suc_shift del: sum.lessThan_Suc)
  then show ?case using 4 by (simp add: Let_def power2_eq_square add.assoc)
qed (simp_all add: sq_dist_def)

lemma point_dist_exact:
  assumes "dim s \<le> length q" and "dim s \<le> length (mat_cols (cloud s) ! i)"
    and "\<forall>d < dim s. is_fin (q ! d) \<and> is_fin (coeff s d i)"
  shows "point_dist exact_scalars s q i = exact_of (sq_dist (dim s) q (mat_cols (cloud s) ! i))"
proof -
  let ?p = "mat_cols (cloud s) ! i"
  have "\<forall>x \<in> set (take (dim s) q) \<union> set (take (dim s) ?p). is_fin x"
    using assms by (auto simp: in_set_conv_nth coeff_def)
  moreover have "sq_dist (dim s) (take (dim s) q) (take (dim s) ?p) = sq_dist (dim s) q ?p" by (simp add: sq_dist_def)
  ultimately show ?thesis
    using dist_from_exact [of "take (dim s) q" "take (dim s) ?p" 0] assms(1,2)
    by (simp add: point_dist_def exact_of_zero min.absorb2)
qed

lemma sum_update:
  assumes "c < length off"
  shows "(\<Sum>d<length off. (fl_val (off[c := x] ! d))\<^sup>2) = (\<Sum>d<length off. (fl_val (off ! d))\<^sup>2) - (fl_val (off ! c))\<^sup>2 + (fl_val x)\<^sup>2"
proof -
  have split: "(\<Sum>d<length off. f d) = f c + (\<Sum>d \<in> {..<length off} - {c}. f d)" for f :: "nat \<Rightarrow> rat"
    using assms by (intro sum.remove) auto
  have "(\<Sum>d \<in> {..<length off} - {c}. (fl_val (off[c := x] ! d))\<^sup>2) = (\<Sum>d \<in> {..<length off} - {c}. (fl_val (off ! d))\<^sup>2)"
    by (intro sum.cong) auto
  then show ?thesis using assms by (simp add: split [of "\<lambda>d. (fl_val (off[c := x] ! d))\<^sup>2"] split [of "\<lambda>d. (fl_val (off ! d))\<^sup>2"])
qed

section \<open>Searching a bucket\<close>

text \<open>The neighbours among some points, with their distances.\<close>

definition candidates :: "scalar_ops \<Rightarrow> 'a nn_search_scheme \<Rightarrow> bool \<Rightarrow> fl \<Rightarrow> fl list \<Rightarrow> nat list \<Rightarrow> heap_entry multiset" where
  "candidates ops s self r2 q pts =
     image_mset (\<lambda>i. entry i (point_dist ops s q i)) (filter_mset (\<lambda>i. is_candidate self r2 (point_dist ops s q i)) (mset pts))"

lemma candidates_simps [simp]:
  "candidates ops s self r2 q [] = {#}"
  "candidates ops s self r2 q (i # is) = (if is_candidate self r2 (point_dist ops s q i)
     then add_mset (entry i (point_dist ops s q i)) (candidates ops s self r2 q is) else candidates ops s self r2 q is)"
  "candidates ops s self r2 q (is @ js) = candidates ops s self r2 q is + candidates ops s self r2 q js"
  by (simp_all add: candidates_def)

lemma is_candidate_number: "is_candidate self r2 v \<Longrightarrow> v \<noteq> NaN"
  by (auto simp: is_candidate_def fl_le_def)

context neighbour_heap
begin

lemma scan_bucket_result:
  assumes "heap_inv k h" and "nearest P (contents h)"
  shows "heap_inv k (scan_bucket H ops s self q r2 (map (\<lambda>i. \<lparr>pt = i, bucket_point = i\<rparr>) pts) h) \<and>
    nearest (P + candidates ops s self r2 q pts) (contents (scan_bucket H ops s self q r2 (map (\<lambda>i. \<lparr>pt = i, bucket_point = i\<rparr>) pts) h))"
  using assms
proof (induction pts arbitrary: h P)
  case (Cons i pts)
  let ?v = "point_dist ops s q i"
  show ?case
  proof (cases "is_candidate self r2 ?v")
    case True
    let ?h = "if fl_less ?v (headValue H h) then replaceHead H i ?v h else h"
    have "heap_inv k ?h" "nearest (P + {#entry i ?v#}) (contents ?h)"
      using nearest_offer [OF Cons.prems is_candidate_number [OF True]] by (simp_all add: Let_def)
    from Cons.IH [OF this] show ?thesis using True by (cases "fl_less ?v (headValue H h)") (simp_all add: Let_def)
  next
    case False
    then show ?thesis using Cons.IH [OF Cons.prems] by (simp add: Let_def)
  qed
qed simp

lemma scan_bucket_indices:
  assumes "heap_inv k h"
  shows "entry_index ` set_mset (contents (scan_bucket H ops s self q r2 (map (\<lambda>i. \<lparr>pt = i, bucket_point = i\<rparr>) pts) h))
    \<subseteq> entry_index ` set_mset (contents h) \<union> set pts"
proof -
  have "nearest (contents h + candidates ops s self r2 q pts) (contents (scan_bucket H ops s self q r2 (map (\<lambda>i. \<lparr>pt = i, bucket_point = i\<rparr>) pts) h))"
    using scan_bucket_result [OF assms nearest_refl] by blast
  then have "set_mset (contents (scan_bucket H ops s self q r2 (map (\<lambda>i. \<lparr>pt = i, bucket_point = i\<rparr>) pts) h))
      \<subseteq> set_mset (contents h) \<union> set_mset (candidates ops s self r2 q pts)"
    by (auto simp: nearest_def dest: mset_subset_eqD)
  then show ?thesis by (force simp: candidates_def)
qed

end

section \<open>Searching the tree\<close>

context neighbour_heap
begin

lemma recurse_bucket:
  assumes "represents t n (Bucket pts)"
  shows "recurseKnn H ops t self stats q e2 r2 n rd off h =
    Some (Inr (scan_bucket H ops t self q r2 (map (\<lambda>i. \<lparr>pt = i, bucket_point = i\<rparr>) pts) h, length pts))"
  using assms by (subst recurseKnn.simps) (auto simp: Let_def)

text \<open>One step of the recursion at a cut.\<close>

lemma recurse_split:
  assumes "represents t n (Split c v l r)" and "new_off = n_sub ops (query ! c) v"
    and "child = getChildBucketSize t (dimChildBucketSize (nodes t ! n))"
    and "here = (if fl_less fl_zero new_off then child else n + 1)" and "there = (if fl_less fl_zero new_off then n + 1 else child)"
    and "rd' = n_add ops rd (n_add ops (n_mul ops (fl_neg (off ! c)) (off ! c)) (n_mul ops new_off new_off))"
    and "recurseKnn H ops t self stats query e2 r2 here rd off h = Some (Inr (h1, c1))"
  shows "recurseKnn H ops t self stats query e2 r2 n rd off h =
    (if fl_le rd' r2 \<and> fl_less (n_mul ops rd' e2) (headValue H h1)
     then Option.bind (recurseKnn H ops t self stats query e2 r2 there rd' (off[c := new_off]) h1) (\<lambda>r.
       case r of Inl e \<Rightarrow> Some (Inl e) | Inr (h2, c2) \<Rightarrow> Some (Inr (h2, if stats then c1 + c2 else 0)))
     else Some (Inr (h1, if stats then c1 else 0)))"
proof -
  have n: "\<not> length (nodes t) \<le> n" "getDim t (dimChildBucketSize (nodes t ! n)) = c" "c \<noteq> dim t" "node_union (nodes t ! n) = Cut_val v"
    using assms(1) by auto
  show ?thesis
    using assms(7) unfolding assms(2-6)
    by (subst recurseKnn.simps [of H ops t self stats query e2 r2 n]) (auto simp: Let_def n)
qed

text \<open>Whatever the arithmetic, the search ends and only adds points of the tree.\<close>

lemma recurse_ends:
  "represents t n tr \<Longrightarrow> heap_inv k h \<Longrightarrow> \<exists>h' c. recurseKnn H ops t self stats q e2 r2 n rd off h = Some (Inr (h', c)) \<and>
    heap_inv k h' \<and> entry_index ` set_mset (contents h') \<subseteq> entry_index ` set_mset (contents h) \<union> set (tree_points tr)"
proof (induction tr arbitrary: n rd off h)
  case (Bucket pts)
  then show ?case
    using recurse_bucket scan_bucket_result [OF Bucket.prems(2) nearest_refl] scan_bucket_indices [OF Bucket.prems(2)] by fastforce
next
  case (Split c v l r)
  define new_off where "new_off = n_sub ops (q ! c) v"
  define child where "child = getChildBucketSize t (dimChildBucketSize (nodes t ! n))"
  define rd' where "rd' = n_add ops rd (n_add ops (n_mul ops (fl_neg (off ! c)) (off ! c)) (n_mul ops new_off new_off))"
  define here where "here = (if fl_less fl_zero new_off then child else n + 1)"
  define there where "there = (if fl_less fl_zero new_off then n + 1 else child)"
  let ?near = "if fl_less fl_zero new_off then r else l" and ?far = "if fl_less fl_zero new_off then l else r"
  have rep: "represents t (n + 1) l" "represents t child r" using Split.prems(1) by (simp_all add: child_def)
  have "\<exists>h' c. recurseKnn H ops t self stats q e2 r2 here rd off h = Some (Inr (h', c)) \<and>
      heap_inv k h' \<and> entry_index ` set_mset (contents h') \<subseteq> entry_index ` set_mset (contents h) \<union> set (tree_points ?near)"
    using Split.IH(1) [OF rep(1) Split.prems(2)] Split.IH(2) [OF rep(2) Split.prems(2)] by (simp add: here_def)
  then obtain h1 c1 where near: "recurseKnn H ops t self stats q e2 r2 here rd off h = Some (Inr (h1, c1))" "heap_inv k h1"
      "entry_index ` set_mset (contents h1) \<subseteq> entry_index ` set_mset (contents h) \<union> set (tree_points ?near)" by blast
  have "\<exists>h' c. recurseKnn H ops t self stats q e2 r2 there rd' off' h1 = Some (Inr (h', c)) \<and>
      heap_inv k h' \<and> entry_index ` set_mset (contents h') \<subseteq> entry_index ` set_mset (contents h1) \<union> set (tree_points ?far)" for off'
    using Split.IH(1) [OF rep(1) near(2)] Split.IH(2) [OF rep(2) near(2)] by (simp add: there_def)
  then obtain h2 c2 where far: "recurseKnn H ops t self stats q e2 r2 there rd' (off[c := new_off]) h1 = Some (Inr (h2, c2))" "heap_inv k h2"
      "entry_index ` set_mset (contents h2) \<subseteq> entry_index ` set_mset (contents h1) \<union> set (tree_points ?far)" by blast
  have pts: "set (tree_points ?near) \<union> set (tree_points ?far) = set (tree_points (Split c v l r))" by auto
  note step = recurse_split [OF Split.prems(1) new_off_def child_def here_def there_def rd'_def near(1)]
  show ?case
  proof (cases "fl_le rd' r2 \<and> fl_less (n_mul ops rd' e2) (headValue H h1)")
    case True
    then show ?thesis using near far pts by (simp add: step) blast
  next
    case False
    then show ?thesis using near pts by (auto simp: step)
  qed
qed

text \<open>With exact arithmetic nothing that is skipped could have been a neighbour.\<close>

lemma recurse_exact:
  "represents t n tr \<Longrightarrow> separated t tr \<Longrightarrow> heap_inv k h \<Longrightarrow> nearest P (contents h) \<Longrightarrow>
   length off = dim t \<Longrightarrow> \<forall>x \<in> set off. is_fin x \<Longrightarrow> dim t \<le> length q \<Longrightarrow> \<forall>d < dim t. is_fin (q ! d) \<Longrightarrow> r2 \<noteq> NaN \<Longrightarrow>
   \<forall>i \<in> set (tree_points tr). dim t \<le> length (mat_cols (cloud t) ! i) \<and> (\<forall>d < dim t. is_fin (coeff t d i) \<and>
     \<bar>fl_val (off ! d)\<bar> \<le> \<bar>fl_val (q ! d) - fl_val (coeff t d i)\<bar>) \<Longrightarrow>
   rd = exact_of (\<Sum>d<length off. (fl_val (off ! d))\<^sup>2) \<Longrightarrow>
   \<exists>h' c. recurseKnn H exact_scalars t self stats q fl_one r2 n rd off h = Some (Inr (h', c)) \<and> heap_inv k h' \<and>
     nearest (P + candidates exact_scalars t self r2 q (tree_points tr)) (contents h')"
proof (induction tr arbitrary: n rd off h P)
  case (Bucket pts)
  then show ?case using recurse_bucket [OF Bucket.prems(1)] scan_bucket_result [OF Bucket.prems(3,4)] by simp
next
  case (Split c v l r)
  note sep = Split.prems(2) and len = Split.prems(5) and fin = Split.prems(6) and q = Split.prems(7,8) and r2 = Split.prems(9)
    and pts = Split.prems(10) and rd = Split.prems(11)
  have c: "c < dim t" "is_fin v" using Split.prems(1) sep by (auto simp: in_range_def)
  let ?g = "fl_val (q ! c) - fl_val v"
  define new_off where "new_off = n_sub exact_scalars (q ! c) v"
  define child where "child = getChildBucketSize t (dimChildBucketSize (nodes t ! n))"
  define rd' where "rd' = n_add exact_scalars rd (n_add exact_scalars (n_mul exact_scalars (fl_neg (off ! c)) (off ! c)) (n_mul exact_scalars new_off new_off))"
  define here where "here = (if fl_less fl_zero new_off then child else n + 1)"
  define there where "there = (if fl_less fl_zero new_off then n + 1 else child)"
  let ?near = "if fl_less fl_zero new_off then r else l" and ?far = "if fl_less fl_zero new_off then l else r"
  let ?off = "off[c := new_off]"
  have new: "new_off = exact_of ?g" using q c by (simp add: new_off_def)
  have pos: "fl_less fl_zero new_off \<longleftrightarrow> 0 < ?g" by (simp add: new fl_less_key)
  have offc: "is_fin (off ! c)" using fin len c by simp
  have rd': "rd' = exact_of (\<Sum>d<length ?off. (fl_val (?off ! d))\<^sup>2)"
  proof -
    have "rd' = exact_of ((\<Sum>d<length off. (fl_val (off ! d))\<^sup>2) - (fl_val (off ! c))\<^sup>2 + ?g\<^sup>2)"
      using offc by (simp add: rd'_def rd new power2_eq_square add_diff_eq diff_add_eq)
    then show ?thesis using sum_update [of c off new_off] len c by (simp add: new)
  qed
  have rep: "represents t (n + 1) l" "represents t child r" using Split.prems(1) by (simp_all add: child_def)
  have subs: "set (tree_points ?near) \<subseteq> set (tree_points (Split c v l r))" "set (tree_points ?far) \<subseteq> set (tree_points (Split c v l r))" by auto
  have sep': "separated t l" "separated t r" using sep by auto
  have pts_of: "\<forall>i \<in> set (tree_points tr). dim t \<le> length (mat_cols (cloud t) ! i) \<and> (\<forall>d < dim t. is_fin (coeff t d i) \<and>
      \<bar>fl_val (off ! d)\<bar> \<le> \<bar>fl_val (q ! d) - fl_val (coeff t d i)\<bar>)" if "tr = l \<or> tr = r" for tr using pts that by auto
  have "\<exists>h' c. recurseKnn H exact_scalars t self stats q fl_one r2 here rd off h = Some (Inr (h', c)) \<and> heap_inv k h' \<and>
      nearest (P + candidates exact_scalars t self r2 q (tree_points ?near)) (contents h')"
    using Split.IH(1) [OF rep(1) sep'(1) Split.prems(3,4) len fin q r2 pts_of rd]
      Split.IH(2) [OF rep(2) sep'(2) Split.prems(3,4) len fin q r2 pts_of rd] by (simp add: here_def)
  then obtain h1 c1 where near: "recurseKnn H exact_scalars t self stats q fl_one r2 here rd off h = Some (Inr (h1, c1))" "heap_inv k h1"
      "nearest (P + candidates exact_scalars t self r2 q (tree_points ?near)) (contents h1)" by blast
  note step = recurse_split [OF Split.prems(1) new_off_def child_def here_def there_def rd'_def near(1)]
  let ?P = "P + candidates exact_scalars t self r2 q (tree_points ?near)"
  have all: "P + candidates exact_scalars t self r2 q (tree_points (Split c v l r)) = ?P + candidates exact_scalars t self r2 q (tree_points ?far)"
    by simp
  have side: "\<bar>?g\<bar> \<le> \<bar>fl_val (q ! c) - fl_val (coeff t c i)\<bar>" if "i \<in> set (tree_points ?far)" for i
  proof -
    have fi: "is_fin (coeff t c i)" using that subs(2) pts c(1) by blast
    show ?thesis
    proof (cases "0 < ?g")
      case True
      then have "fl_key (coeff t c i) \<le> fl_key v" using that sep pos by simp
      then show ?thesis using True fi c(2) by (cases "coeff t c i"; cases v) auto
    next
      case False
      then have "fl_key v \<le> fl_key (coeff t c i)" using that sep pos by simp
      then show ?thesis using False fi c(2) by (cases "coeff t c i"; cases v) auto
    qed
  qed
  have far_pts: "\<forall>i \<in> set (tree_points ?far). dim t \<le> length (mat_cols (cloud t) ! i) \<and> (\<forall>d < dim t. is_fin (coeff t d i) \<and>
      \<bar>fl_val (?off ! d)\<bar> \<le> \<bar>fl_val (q ! d) - fl_val (coeff t d i)\<bar>)"
    using subs(2) pts side len c(1) by (auto simp: nth_list_update new)
  show ?case
  proof (cases "fl_le rd' r2 \<and> fl_less (n_mul exact_scalars rd' fl_one) (headValue H h1)")
    case True
    have fin': "\<forall>x \<in> set ?off. is_fin x" using fin by (auto simp: new dest: set_update_subset_insert [THEN subsetD])
    have len': "length ?off = dim t" using len by simp
    have "\<exists>h' c. recurseKnn H exact_scalars t self stats q fl_one r2 there rd' ?off h1 = Some (Inr (h', c)) \<and> heap_inv k h' \<and>
        nearest (?P + candidates exact_scalars t self r2 q (tree_points ?far)) (contents h')"
    proof (cases "fl_less fl_zero new_off")
      case True
      then show ?thesis using Split.IH(1) [OF rep(1) sep'(1) near(2,3) len' fin' q r2 _ rd'] far_pts by (simp add: there_def)
    next
      case False
      then show ?thesis using Split.IH(2) [OF rep(2) sep'(2) near(2,3) len' fin' q r2 _ rd'] far_pts by (simp add: there_def)
    qed
    then show ?thesis using True unfolding all by (auto simp: step)
  next
    case False
    have "fl_key (headValue H h1) \<le> entry_key f" if f: "f \<in># candidates exact_scalars t self r2 q (tree_points ?far)" for f
    proof -
      obtain i where i: "i \<in> set (tree_points ?far)" "f = entry i (point_dist exact_scalars t q i)"
          "is_candidate self r2 (point_dist exact_scalars t q i)" using f by (auto simp: candidates_def)
      let ?p = "mat_cols (cloud t) ! i"
      have ip: "dim t \<le> length ?p" "\<forall>d < dim t. is_fin (coeff t d i)" using far_pts i(1) by auto
      have d: "point_dist exact_scalars t q i = exact_of (sq_dist (dim t) q ?p)"
        using point_dist_exact [of t q i] q ip by simp
      have "(\<Sum>d<length ?off. (fl_val (?off ! d))\<^sup>2) \<le> sq_dist (dim t) q ?p"
        using far_pts i(1) len unfolding sq_dist_def by (auto intro!: sum_mono simp: abs_le_square_iff coeff_def)
      then have le: "fl_key rd' \<le> entry_key f" by (simp add: rd' i(2) d)
      moreover have "entry_key f \<le> fl_key r2" using i(2,3) r2 d by (simp add: is_candidate_def fl_le_key)
      ultimately have "fl_le rd' r2" using r2 by (auto simp: rd' fl_le_key)
      then have "fl_key (headValue H h1) \<le> fl_key rd'"
        using False head_number [OF near(2)] by (simp add: rd' exact_of_one fl_less_key)
      then show ?thesis using le by (rule order_trans)
    qed
    then have "nearest (?P + candidates exact_scalars t self r2 q (tree_points ?far)) (contents h1)"
      by (intro nearest_prune [OF near(2,3)])
    then show ?thesis using False near(2) unfolding all by (auto simp: step)
  qed
qed

end

section \<open>Whole searches\<close>

lemma candidates_mset: "mset a = mset b \<Longrightarrow> candidates ops s self r2 q a = candidates ops s self r2 q b"
  by (simp add: candidates_def)

lemma candidates_cong:
  "cloud s = cloud s' \<Longrightarrow> dim s = dim s' \<Longrightarrow> candidates ops s self r2 q pts = candidates ops s' self r2 q pts"
  by (simp add: candidates_def point_dist_def)

lemma tree_of_points: "tree_of t m d tr \<Longrightarrow> set (tree_points tr) = {..<length (mat_cols m)}"
  unfolding tree_of_def by (elim conjE, drule mset_eq_setD) (simp add: lessThan_atLeast0)

text \<open>A query whose first coordinates are finite, and the column of its neighbours.\<close>

definition good_query :: "'a nn_search_scheme \<Rightarrow> fl list \<Rightarrow> bool" where
  "good_query s q \<longleftrightarrow> dim s \<le> length q \<and> (\<forall>d < dim s. is_fin (q ! d))"

definition neighbours :: "'a nn_search_scheme \<Rightarrow> bool \<Rightarrow> bool \<Rightarrow> nat \<Rightarrow> fl list \<times> fl \<Rightarrow> heap_entry list \<Rightarrow> bool" where
  "neighbours s self sorting k query col \<longleftrightarrow>
     nearest (pads k + candidates exact_scalars s self (n_mul exact_scalars (snd query) (snd query)) (fst query)
       [0..<length (mat_cols (cloud s))]) (mset col) \<and>
     size (mset col) = k \<and> (sorting \<longrightarrow> sorted_wrt (\<lambda>a b. entry_key a \<le> entry_key b) col)"

lemma neighbours_same_distances:
  assumes "neighbours s self so k query a" and "neighbours s' self so' k query b" and "cloud s = cloud s'" and "dim s = dim s'"
  shows "sort (map entry_key a) = sort (map entry_key b)"
proof -
  let ?P = "pads k + candidates exact_scalars s self (n_mul exact_scalars (snd query) (snd query)) (fst query) [0..<length (mat_cols (cloud s))]"
  have "nearest ?P (mset a)" "nearest ?P (mset b)" "size (mset a) = size (mset b)"
    using assms candidates_cong [OF assms(3,4)] by (simp_all add: neighbours_def)
  then have "sorted_list_of_multiset (image_mset entry_key (mset a)) = sorted_list_of_multiset (image_mset entry_key (mset b))"
    using nearest_values by metis
  then show ?thesis by (metis mset_map sorted_list_of_multiset_mset)
qed

context neighbour_heap
begin

text \<open>A heap that can be used again: every search resets it.\<close>

definition usable :: "nat \<Rightarrow> 'h \<Rightarrow> bool" where
  "usable k h \<longleftrightarrow> heap_inv k (heap_reset H h) \<and> contents (heap_reset H h) = pads k"

lemma usable_intros: "heap_inv k h \<Longrightarrow> usable k h" "heap_inv k h \<Longrightarrow> usable k (heap_sort H h)"
  using reset_heap by (simp_all add: usable_def reset_sorted)

lemma one_point_ends:
  assumes "tree_of t m d tr" and "usable k h"
  shows "\<exists>col h' c. onePointKnn H ops t q h e2 r2 self stats sorting = Some (Inr (col, h', c)) \<and> usable k h' \<and> length col = k \<and>
    entry_index ` set col \<subseteq> insert 0 {..<length (mat_cols m)}"
proof -
  have u: "heap_inv k (heap_reset H h)" "contents (heap_reset H h) = pads k" using assms(2) by (auto simp: usable_def)
  have tr: "represents t 0 tr" "set (tree_points tr) = {..<length (mat_cols m)}"
    using assms(1) tree_of_points [OF assms(1)] by (simp_all add: tree_of_def)
  obtain h' c where r: "recurseKnn H ops t self stats q e2 r2 0 fl_zero (replicate (dim t) fl_zero) (heap_reset H h) = Some (Inr (h', c))"
      and inv: "heap_inv k h'" and ix: "entry_index ` set_mset (contents h') \<subseteq> entry_index ` set_mset (pads k) \<union> {..<length (mat_cols m)}"
    using recurse_ends [OF tr(1) u(1)] unfolding u(2) tr(2) by blast
  let ?h = "if sorting then heap_sort H h' else h'"
  have "mset (getData H ?h) = contents h'" using data_contents [OF inv] sorted_data [OF inv] by simp
  then have "set (getData H ?h) = set_mset (contents h')" "length (getData H ?h) = k"
    using size_contents [OF inv] by (metis set_mset_mset, metis size_mset)
  moreover have "entry_index ` set_mset (pads k) \<subseteq> {0}" by (auto simp: pads_def)
  moreover have "usable k ?h" using usable_intros [OF inv] by simp
  ultimately show ?thesis using ix by (fastforce simp: onePointKnn_def r Let_def)
qed

lemma one_point_exact:
  assumes "tree_of t m d tr" and "usable k h" and "good_query t q" and "r2 \<noteq> NaN"
    and "\<forall>i < length (mat_cols m). dim t \<le> length (mat_cols m ! i) \<and> (\<forall>d < dim t. is_fin (coeff t d i))"
    and "separated t tr"
  shows "\<exists>col h' c. onePointKnn H exact_scalars t q h fl_one r2 self stats sorting = Some (Inr (col, h', c)) \<and> usable k h' \<and>
    nearest (pads k + candidates exact_scalars t self r2 q [0..<length (mat_cols m)]) (mset col) \<and> size (mset col) = k \<and>
    (sorting \<longrightarrow> sorted_wrt (\<lambda>a b. entry_key a \<le> entry_key b) col)"
proof -
  have u: "heap_inv k (heap_reset H h)" "contents (heap_reset H h) = pads k" using assms(2) by (auto simp: usable_def)
  have tr: "represents t 0 tr" "separated t tr" "mset (tree_points tr) = mset [0..<length (mat_cols m)]" "cloud t = m"
    using assms(1,6) by (simp_all add: tree_of_def)
  have pts: "set (tree_points tr) = {..<length (mat_cols m)}" by (rule tree_of_points [OF assms(1)])
  let ?off = "replicate (dim t) fl_zero"
  have "\<exists>h' c. recurseKnn H exact_scalars t self stats q fl_one r2 0 fl_zero ?off (heap_reset H h) = Some (Inr (h', c)) \<and> heap_inv k h' \<and>
      nearest (pads k + candidates exact_scalars t self r2 q (tree_points tr)) (contents h')"
  proof (rule recurse_exact [OF tr(1,2) u(1) _ _ _ _ _ assms(4)])
    show "nearest (pads k) (contents (heap_reset H h))" by (simp add: u(2))
    show "fl_zero = exact_of (\<Sum>d<length ?off. (fl_val (?off ! d))\<^sup>2)" by (simp add: exact_of_zero)
    show "\<forall>i \<in> set (tree_points tr). dim t \<le> length (mat_cols (cloud t) ! i) \<and> (\<forall>d < dim t. is_fin (coeff t d i) \<and>
        \<bar>fl_val (?off ! d)\<bar> \<le> \<bar>fl_val (q ! d) - fl_val (coeff t d i)\<bar>)"
      using assms(5) by (simp add: pts tr(4))
  qed (use assms(3) in \<open>auto simp: good_query_def\<close>)
  then obtain h' c where r: "recurseKnn H exact_scalars t self stats q fl_one r2 0 fl_zero ?off (heap_reset H h) = Some (Inr (h', c))"
    and inv: "heap_inv k h'" and near: "nearest (pads k + candidates exact_scalars t self r2 q [0..<length (mat_cols m)]) (contents h')"
    using candidates_mset [OF tr(3)] by metis
  show ?thesis
    using near size_contents [OF inv] data_contents [OF inv] sorted_data [OF inv] usable_intros [OF inv]
    by (auto simp: onePointKnn_def r Let_def simp flip: size_mset)
qed

lemma knn_columns_ends:
  assumes "tree_of t m d tr"
  shows "usable k h \<Longrightarrow> \<exists>cols c. knn_columns H ops t e2 self stats sorting queries h = Some (Inr (cols, c)) \<and>
    length cols = length queries \<and> (\<forall>col \<in> set cols. length col = k \<and> entry_index ` set col \<subseteq> insert 0 {..<length (mat_cols m)})"
proof (induction queries arbitrary: h)
  case (Cons q qs)
  obtain query r where q: "q = (query, r)" by (cases q)
  obtain col h' c where one: "onePointKnn H ops t query h e2 (n_mul ops r r) self stats sorting = Some (Inr (col, h', c))"
      "usable k h'" "length col = k" "entry_index ` set col \<subseteq> insert 0 {..<length (mat_cols m)}"
    using one_point_ends [OF assms Cons.prems] by blast
  show ?case using Cons.IH [OF one(2)] one by (auto simp: q)
qed simp

lemma knn_columns_exact:
  assumes "tree_of t m d tr"
    and "\<forall>i < length (mat_cols m). dim t \<le> length (mat_cols m ! i) \<and> (\<forall>d < dim t. is_fin (coeff t d i))"
    and "separated t tr"
  shows "usable k h \<Longrightarrow> \<forall>(q, r) \<in> set queries. good_query t q \<and> n_mul exact_scalars r r \<noteq> NaN \<Longrightarrow>
    \<exists>cols c. knn_columns H exact_scalars t fl_one self stats sorting queries h = Some (Inr (cols, c)) \<and>
      list_all2 (neighbours t self sorting k) queries cols"
proof (induction queries arbitrary: h)
  case (Cons q qs)
  obtain query r where q: "q = (query, r)" by (cases q)
  have ok: "good_query t query" "n_mul exact_scalars r r \<noteq> NaN" using Cons.prems(2) q by auto
  obtain col h' c where one: "onePointKnn H exact_scalars t query h fl_one (n_mul exact_scalars r r) self stats sorting = Some (Inr (col, h', c))"
      "usable k h'" "nearest (pads k + candidates exact_scalars t self (n_mul exact_scalars r r) query [0..<length (mat_cols m)]) (mset col)"
      "size (mset col) = k" "sorting \<longrightarrow> sorted_wrt (\<lambda>a b. entry_key a \<le> entry_key b) col"
    using one_point_exact [OF assms(1) Cons.prems(1) ok assms(2,3)] by blast
  have "neighbours t self sorting k q col" using one(3-5) assms(1) by (simp add: neighbours_def q tree_of_def)
  then show ?case using Cons.IH [OF one(2)] Cons.prems(2) one(1) by (auto simp: q)
qed simp

end

section \<open>The search and the exhaustive search\<close>

lemma exact_square_number: "r \<noteq> NaN \<Longrightarrow> n_mul exact_scalars r r \<noteq> NaN"
  by (cases r) (simp_all add: exact_scalars_def exactly_def)

text \<open>
  Queries that the search accepts: finite coordinates, a radius each, and no more neighbours than
  there are points, without the query itself.
\<close>

definition good_queries :: "matrix \<Rightarrow> int \<Rightarrow> matrix \<Rightarrow> fl list \<Rightarrow> nat \<Rightarrow> nat \<Rightarrow> bool" where
  "good_queries m d query radii k optionFlags \<longleftrightarrow> 0 < k \<and> optionFlags \<le> 3 \<and>
     k \<le> (if has_flag optionFlags ALLOW_SELF_MATCH then length (mat_cols m) else length (mat_cols m) - 1) \<and>
     mat_wf query \<and> nat (min d (int (mat_rows m))) \<le> mat_rows query \<and> (\<forall>q \<in> set (mat_cols query). \<forall>x \<in> set q. is_fin x) \<and>
     length radii = length (mat_cols query) \<and> NaN \<notin> set radii"

abbreviation result_sizes :: "matrix \<Rightarrow> nat \<Rightarrow> nat \<times> nat" where
  "result_sizes query k \<equiv> (k, length (mat_cols query))"

lemma good_queries_checked:
  assumes "good_queries m d query radii k optionFlags" and "cloud s = m" and "dim s = nat (min d (int (mat_rows m)))"
    and "r = None \<or> r = Some (length radii)" and "mat_cols m \<noteq> []"
  shows "checkSizesKnn s query (result_sizes query k) (result_sizes query k) k optionFlags r = Inr ()"
proof -
  have "(ALLOW_SELF_MATCH OR SORT_RESULTS) = 3" by (simp add: ALLOW_SELF_MATCH_def SORT_RESULTS_def)
  moreover have "0 < length (mat_cols m)" using assms(5) by simp
  ultimately show ?thesis
    using assms(1,4) by (auto simp: checkSizesKnn_def good_queries_def assms(2,3) Let_def of_nat_diff split: if_splits)
qed

lemma good_queries_good:
  assumes "good_queries m d query radii k optionFlags" and "dim s = nat (min d (int (mat_rows m)))"
  shows "\<forall>(q, r) \<in> set (zip (mat_cols query) radii). good_query s q \<and> n_mul exact_scalars r r \<noteq> NaN"
proof clarify
  fix q r assume "(q, r) \<in> set (zip (mat_cols query) radii)"
  then have m: "q \<in> set (mat_cols query)" "r \<in> set radii" by (auto dest: set_zip_leftD set_zip_rightD)
  then have "length q = mat_rows query" "\<forall>x \<in> set q. is_fin x" "r \<noteq> NaN"
    using assms(1) by (auto simp: good_queries_def mat_wf_def)
  then show "good_query s q \<and> n_mul exact_scalars r r \<noteq> NaN"
    using assms exact_square_number by (auto simp: good_query_def good_queries_def)
qed

lemma exact_cloud:
  assumes "good_cloud m d" and "cloud s = m" and "dim s = nat (min d (int (mat_rows m)))"
  shows "\<forall>i < length (mat_cols m). dim s \<le> length (mat_cols m ! i) \<and> (\<forall>e < dim s. is_fin (coeff s e i))"
proof (intro allI impI)
  fix i assume i: "i < length (mat_cols m)"
  then have "length (mat_cols m ! i) = mat_rows m" "\<forall>x \<in> set (mat_cols m ! i). is_fin x"
    using assms(1) by (auto simp: good_cloud_def fits_cloud_def mat_wf_def in_range_def)
  moreover have "dim s \<le> mat_rows m" using assms(1,3) by (auto simp: good_cloud_def fits_cloud_def)
  ultimately show "dim s \<le> length (mat_cols m ! i) \<and> (\<forall>e < dim s. is_fin (coeff s e i))"
    by (simp add: coeff_def assms(2))
qed

context neighbour_heap
begin

lemma knn_radii_exact:
  assumes "good_cloud m d" and "good_queries m d query radii k optionFlags" and "tree_of t m d tr" and "separated t tr"
  shows "\<exists>cols c. knn_radii H exact_scalars t query (result_sizes query k) (result_sizes query k) radii k fl_zero optionFlags =
      Some (Inr (cols, c)) \<and>
    list_all2 (neighbours t (has_flag optionFlags ALLOW_SELF_MATCH) (has_flag optionFlags SORT_RESULTS) k)
      (zip (mat_cols query) radii) cols"
proof -
  have t: "cloud t = m" "dim t = nat (min d (int (mat_rows m)))" "nodes t \<noteq> []" and ne: "mat_cols m \<noteq> []"
    using assms(1,3) by (auto simp: tree_of_def good_cloud_def fits_cloud_def)
  have k: "0 < k" using assms(2) by (simp add: good_queries_def)
  have "usable k (heap_new H k)" using new_heap [OF k] usable_intros(1) by blast
  note cols = knn_columns_exact [OF assms(3) exact_cloud [OF assms(1) t(1,2)] assms(4) this good_queries_good [OF assms(2) t(2)]]
  show ?thesis
    using cols t(3) good_queries_checked [OF assms(2) t(1,2) _ ne, of "Some (length radii)"]
    by (simp add: knn_radii_def Let_def flip: exact_of_one)
qed

end

text \<open>The exhaustive search is a search of one bucket with all points.\<close>

definition norm_is_exact :: "(fl list \<Rightarrow> fl) \<Rightarrow> bool" where
  "norm_is_exact squaredNorm \<longleftrightarrow> (\<forall>v. (\<forall>x \<in> set v. is_fin x) \<longrightarrow> squaredNorm v = exact_of (\<Sum>x\<leftarrow>v. (fl_val x)\<^sup>2))"

lemma norm_point_dist:
  assumes "norm_is_exact squaredNorm" and "good_query s q" and "dim s \<le> length (mat_cols (cloud s) ! i)"
    and "\<forall>e < dim s. is_fin (coeff s e i)"
  shows "squaredNorm (map2 (n_sub exact_scalars) (take (dim s) (mat_cols (cloud s) ! i)) (take (dim s) q)) = point_dist exact_scalars s q i"
proof -
  let ?p = "take (dim s) (mat_cols (cloud s) ! i)" and ?q = "take (dim s) q"
  have len: "length ?p = dim s" "length ?q = dim s" using assms(2,3) by (simp_all add: good_query_def)
  have fin: "is_fin (?p ! e)" "is_fin (?q ! e)" if "e < dim s" for e
    using that assms(2,4) by (auto simp: good_query_def coeff_def)
  let ?v = "map2 (n_sub exact_scalars) ?p ?q"
  have v: "?v = map (\<lambda>e. exact_of (fl_val (?p ! e) - fl_val (?q ! e))) [0..<dim s]"
    using len fin by (intro nth_equalityI) (auto simp del: nth_take)
  have "(\<Sum>x\<leftarrow>?v. (fl_val x)\<^sup>2) = (\<Sum>e<dim s. (fl_val (?p ! e) - fl_val (?q ! e))\<^sup>2)"
    unfolding v by (simp add: comp_def interv_sum_list_conv_sum_set_nat lessThan_atLeast0)
  also have "\<dots> = sq_dist (dim s) q (mat_cols (cloud s) ! i)"
    unfolding sq_dist_def by (intro sum.cong) (simp_all add: power2_commute)
  finally have "squaredNorm ?v = exact_of (sq_dist (dim s) q (mat_cols (cloud s) ! i))"
    using assms(1) by (simp add: norm_is_exact_def v)
  then show ?thesis using point_dist_exact [of s q i] assms(2-4) by (simp add: good_query_def)
qed

lemma brute_force_scan_bucket:
  assumes "norm_is_exact squaredNorm" and "good_query s q"
  shows "\<forall>i \<in> set pts. dim s \<le> length (mat_cols (cloud s) ! i) \<and> (\<forall>e < dim s. is_fin (coeff s e i)) \<Longrightarrow>
    brute_force_scan squaredNorm exact_scalars s self q r2 pts h =
    scan_bucket stl_heap exact_scalars s self q r2 (map (\<lambda>i. \<lparr>pt = i, bucket_point = i\<rparr>) pts) h"
proof (induction pts arbitrary: h)
  case (Cons i pts)
  then show ?case using norm_point_dist [OF assms, of i] by (simp add: Let_def stl_heap_def)
qed simp

lemma brute_force_columns_exact:
  assumes "norm_is_exact squaredNorm"
    and "\<forall>i < length (mat_cols (cloud s)). dim s \<le> length (mat_cols (cloud s) ! i) \<and> (\<forall>e < dim s. is_fin (coeff s e i))"
  shows "stl.usable k h \<Longrightarrow> \<forall>(q, r) \<in> set queries. good_query s q \<and> n_mul exact_scalars r r \<noteq> NaN \<Longrightarrow>
    list_all2 (neighbours s self sorting k) queries (brute_force_columns squaredNorm exact_scalars s self sorting queries h)"
proof (induction queries arbitrary: h)
  case (Cons x qs)
  obtain q r where x: "x = (q, r)" by (cases x)
  have q: "good_query s q" using Cons.prems(2) x by auto
  let ?n = "length (mat_cols (cloud s))" and ?r2 = "n_mul exact_scalars r r"
  let ?h = "brute_force_scan squaredNorm exact_scalars s self q ?r2 [0..<?n] (stl_reset h)"
  have ops: "heap_reset stl_heap = stl_reset" "getData stl_heap = stl_getData" "heap_sort stl_heap = stl_sort"
    by (simp_all add: stl_heap_def)
  have u: "stl_inv k (stl_reset h)" "stl_contents (stl_reset h) = pads k"
    using Cons.prems(1) by (simp_all add: stl.usable_def ops)
  have "?h = scan_bucket stl_heap exact_scalars s self q ?r2 (map (\<lambda>i. \<lparr>pt = i, bucket_point = i\<rparr>) [0..<?n]) (stl_reset h)"
    using assms(2) by (intro brute_force_scan_bucket [OF assms(1) q]) simp
  then have inv: "stl_inv k ?h" and near: "nearest (pads k + candidates exact_scalars s self ?r2 q [0..<?n]) (stl_contents ?h)"
    using stl.scan_bucket_result [OF u(1), where s = s and P = "pads k" and ops = exact_scalars and self = self and q = q
        and ?r2.0 = ?r2 and pts = "[0..<?n]"] u(2) by simp_all
  let ?g = "if sorting then stl_sort ?h else ?h"
  have "mset (stl_getData ?g) = stl_contents ?h" "sorting \<longrightarrow> sorted_wrt (\<lambda>a b. entry_key a \<le> entry_key b) (stl_getData ?g)"
    using stl.data_contents [OF inv] stl.sorted_data [OF inv] by (simp_all add: ops)
  then have "neighbours s self sorting k x (stl_getData ?g)"
    using near stl.size_contents [OF inv] by (simp add: neighbours_def x flip: size_mset)
  moreover have "stl.usable k ?g" using stl.usable_intros [OF inv] by (simp add: ops)
  ultimately show ?case using Cons.IH [of ?g] Cons.prems(2) by (simp add: x Let_def)
qed simp

lemma neighbours_columns_same:
  assumes "list_all2 (neighbours t self so k) queries a" and "list_all2 (neighbours s self so' k) queries b"
    and "cloud t = cloud s" and "dim t = dim s"
  shows "list_all2 (\<lambda>x y. sort (map entry_key x) = sort (map entry_key y)) a b"
proof (rule list_all2_all_nthI)
  show "length a = length b" using assms(1,2) by (auto dest!: list_all2_lengthD)
next
  fix i assume "i < length a"
  then have "neighbours t self so k (queries ! i) (a ! i)" "neighbours s self so' k (queries ! i) (b ! i)"
    using assms(1,2) by (auto simp: list_all2_conv_all_nth)
  then show "sort (map entry_key (a ! i)) = sort (map entry_key (b ! i))" by (rule neighbours_same_distances [OF _ _ assms(3,4)])
qed

text \<open>
  C33: with exact arithmetic the k-d tree finds, for every query, neighbours at the same distances
  as the exhaustive search, with either heap: what the recursion leaves out is never closer.
\<close>

theorem kd_search_is_exact:
  assumes "good_cloud m d" and "2 \<le> bucket_size" and "good_queries m d query radii k optionFlags" and "norm_is_exact squaredNorm"
  shows "\<exists>t s a a' b c c' c''. create_kd_tree exact_scalars m d flags bucket_size = Inr t \<and> BruteForceSearch m d flags = Inr s \<and>
    brute_force_knn_radii squaredNorm exact_scalars s query (result_sizes query k) (result_sizes query k) radii k optionFlags = Inr (b, c) \<and>
    knn_radii stl_heap exact_scalars t query (result_sizes query k) (result_sizes query k) radii k fl_zero optionFlags = Some (Inr (a, c')) \<and>
    knn_radii vector_heap exact_scalars t query (result_sizes query k) (result_sizes query k) radii k fl_zero optionFlags = Some (Inr (a', c'')) \<and>
    list_all2 (\<lambda>x y. sort (map entry_key x) = sort (map entry_key y)) a b \<and>
    list_all2 (\<lambda>x y. sort (map entry_key x) = sort (map entry_key y)) a' b"
proof -
  let ?self = "has_flag optionFlags ALLOW_SELF_MATCH" and ?so = "has_flag optionFlags SORT_RESULTS" and ?qs = "zip (mat_cols query) radii"
  obtain t tr where t: "create_kd_tree exact_scalars m d flags bucket_size = Inr t" "tree_of t m d tr" "separated t tr"
    using create_result [OF good_exact_scalars assms(1,2)] by blast
  obtain s where s: "BruteForceSearch m d flags = Inr s" "cloud s = m" "dim s = nat (min d (int (mat_rows m)))"
    using assms(1) by (auto simp: good_cloud_def fits_cloud_def BruteForceSearch_def NearestNeighbourSearch_def Let_def)
  have ne: "mat_cols m \<noteq> []" and k: "0 < k" using assms(1,3) by (auto simp: good_cloud_def fits_cloud_def good_queries_def)
  obtain a c' where a: "knn_radii stl_heap exact_scalars t query (result_sizes query k) (result_sizes query k) radii k fl_zero optionFlags = Some (Inr (a, c'))"
      "list_all2 (neighbours t ?self ?so k) ?qs a" using stl.knn_radii_exact [OF assms(1,3) t(2,3)] by blast
  obtain a' c'' where a': "knn_radii vector_heap exact_scalars t query (result_sizes query k) (result_sizes query k) radii k fl_zero optionFlags = Some (Inr (a', c''))"
      "list_all2 (neighbours t ?self ?so k) ?qs a'" using vec.knn_radii_exact [OF assms(1,3) t(2,3)] by blast
  let ?b = "brute_force_columns squaredNorm exact_scalars s ?self ?so ?qs (IndexHeapSTL k)"
  have "stl.usable k (IndexHeapSTL k)" using stl.new_heap [OF k] stl.usable_intros(1) by (auto simp: stl_heap_def)
  then have b: "list_all2 (neighbours s ?self ?so k) ?qs ?b"
    using exact_cloud [OF assms(1) s(2,3)] good_queries_good [OF assms(3) s(3)] s(2) by (intro brute_force_columns_exact [OF assms(4)]) simp_all
  have brute: "\<exists>c. brute_force_knn_radii squaredNorm exact_scalars s query (result_sizes query k) (result_sizes query k) radii k optionFlags = Inr (?b, c)"
    using good_queries_checked [OF assms(3) s(2,3) _ ne, of "Some (length radii)"] by (simp add: brute_force_knn_radii_def)
  have same: "cloud t = cloud s" "dim t = dim s" using t(2) s by (simp_all add: tree_of_def)
  show ?thesis
    using t(1) s(1) a(1) a'(1) brute neighbours_columns_same [OF a(2) b same] neighbours_columns_same [OF a'(2) b same] by blast
qed

definition three_points :: matrix where
  "three_points = \<lparr>mat_rows = 1, mat_cols = [[fl_one], [Fin True 2], [Fin False 5]]\<rparr>"

lemma three_points_good: "good_cloud three_points 1"
proof -
  have "getStorageBitCount 1 \<le> 2" using storage_bits_result [of 0 1 2] by (simp add: getStorageBitCount_def)
  then have "(2::nat) ^ 30 \<le> 2 ^ (32 - getStorageBitCount 1)" by (intro power_increasing) auto
  then have "6 \<le> (2::nat) ^ (32 - getStorageBitCount 1)" by simp
  then show ?thesis by (simp add: good_cloud_def fits_cloud_def three_points_def mat_wf_def in_range_def flt_max_def)
qed

theorem kd_search_is_exact_witness:
  "\<exists>t s a a' b c c' c''. create_kd_tree exact_scalars three_points 1 0 2 = Inr t \<and> BruteForceSearch three_points 1 0 = Inr s \<and>
    brute_force_knn_radii (\<lambda>v. exact_of (\<Sum>x\<leftarrow>v. (fl_val x)\<^sup>2)) exact_scalars s \<lparr>mat_rows = 1, mat_cols = [[fl_zero]]\<rparr> (2, 1) (2, 1) [Inf False] 2 2 = Inr (b, c) \<and>
    knn_radii stl_heap exact_scalars t \<lparr>mat_rows = 1, mat_cols = [[fl_zero]]\<rparr> (2, 1) (2, 1) [Inf False] 2 fl_zero 2 = Some (Inr (a, c')) \<and>
    knn_radii vector_heap exact_scalars t \<lparr>mat_rows = 1, mat_cols = [[fl_zero]]\<rparr> (2, 1) (2, 1) [Inf False] 2 fl_zero 2 = Some (Inr (a', c'')) \<and>
    list_all2 (\<lambda>x y. sort (map entry_key x) = sort (map entry_key y)) a b \<and>
    list_all2 (\<lambda>x y. sort (map entry_key x) = sort (map entry_key y)) a' b"
proof -
  have "good_queries three_points 1 \<lparr>mat_rows = 1, mat_cols = [[fl_zero]]\<rparr> [Inf False] 2 2"
    by (simp add: good_queries_def three_points_def has_flag_def ALLOW_SELF_MATCH_def mat_wf_def)
  moreover have "norm_is_exact (\<lambda>v. exact_of (\<Sum>x\<leftarrow>v. (fl_val x)\<^sup>2))" by (simp add: norm_is_exact_def)
  ultimately show ?thesis using kd_search_is_exact [OF three_points_good order_refl] by fastforce
qed

context neighbour_heap
begin

lemma knn_vector_ends:
  assumes "tree_of t m d tr" and "mat_cols m \<noteq> []" and "0 < k" and "k < length (mat_cols m)" and "dim t \<le> length query"
  shows "\<exists>col c. knn_vector H ops t query k epsilon 0 maxRadius = Some (Inr (col, c)) \<and> length col = k \<and>
    entry_index ` set col \<subseteq> {..<length (mat_cols m)}"
proof -
  let ?Q = "\<lparr>mat_rows = dim t, mat_cols = [take (dim t) query]\<rparr>"
  have t: "cloud t = m" "nodes t \<noteq> []" using assms(1) by (auto simp: tree_of_def)
  have "checkSizesKnn t ?Q (k, 1) (k, 1) k 0 None = Inr ()"
    using assms(4) by (simp add: checkSizesKnn_def Let_def t has_flag_def)
  moreover have "usable k (heap_new H k)" using new_heap [OF assms(3)] usable_intros(1) by blast
  note cols = knn_columns_ends [OF assms(1) this]
  obtain cols c where "knn_columns H ops t (n_mul ops (n_add ops fl_one epsilon) (n_add ops fl_one epsilon)) (has_flag 0 ALLOW_SELF_MATCH)
      (TOUCH_STATISTICS t) (has_flag 0 SORT_RESULTS) [(take (dim t) query, maxRadius)] (heap_new H k) = Some (Inr (cols, c))"
      "length cols = 1" "\<forall>col \<in> set cols. length col = k \<and> entry_index ` set col \<subseteq> insert 0 {..<length (mat_cols m)}"
    using cols [of ops _ _ _ _ "[(take (dim t) query, maxRadius)]"] by force
  moreover from this obtain col where "cols = [col]" by (cases cols) auto
  ultimately show ?thesis using assms(2,5) t(2) by (auto simp: knn_vector_def knn_def Let_def)
qed

end



end
