(* ===== verification/Data_Classifier.thy ===== *)
theory Data_Classifier
  imports Feature_Extractor Kd_Search
begin

text \<open>
  The data classifier (\<^verbatim>\<open>data_analyzer/src/DataClassifier.h\<close>): the labelled events as a normalised
  matrix with a search tree over it, the classification of an event by its five nearest neighbours,
  and the thread that classifies the events pushed to it. Every operation holds \<^verbatim>\<open>events_mutex\<close>, so
  an interleaving of the threads is a sequence of operations. Eigen's assertions are taken to be
  checked; what its \<^verbatim>\<open>resize\<close> leaves in a matrix is a parameter. An exception that leaves the thread's
  function and an assignment to a running \<^verbatim>\<open>std::thread\<close> abort the program like a failed assertion.

  The lemmas show that the tree always belongs to the matrix and its points are labelled events,
  when a classification is undefined, that its result is the first of the most frequent labels
  among the neighbours, and what becomes of it.
\<close>

section \<open>State\<close>

text \<open>
  The pointer to the search: \<open>Dangling\<close> is a tree whose matrix was replaced or resized beneath it.
\<close>

datatype search_pointer = Null | Search kd_tree | Dangling

datatype runner = Not_started | Running | Returned

record 'a data_classifier =
  event_label_manager :: label_manager
  classification_config :: classification_config
  the_extractor :: feature_extractor
  the_runner :: runner
  continue_analyzing :: bool
  event_stack :: "'a event list"
  labeled_matrix :: matrix
  normalization_mul_vector :: "f32 list"
  normalization_add_vector :: "f32 list"
  nns :: search_pointer
  event_classified :: "event_features list"

definition DataClassifier :: "'a data_classifier" where
  "DataClassifier =
     \<lparr>event_label_manager = EventLabelManager, classification_config = ClassificationConfig, the_extractor = FeatureExtractor,
      the_runner = Not_started, continue_analyzing = True, event_stack = [], labeled_matrix = \<lparr>mat_rows = 0, mat_cols = []\<rparr>,
      normalization_mul_vector = [], normalization_add_vector = [], nns = Null, event_classified = []\<rparr>"

record 'a surroundings =
  env_libm :: libm
  env_ampere :: "'a \<Rightarrow> f32"
  env_volt :: "'a \<Rightarrow> f32"
  env_resized :: "matrix \<Rightarrow> nat \<Rightarrow> nat \<Rightarrow> f32"

text \<open>
  An operation returns the new state and its result or the error it ends with, which keeps what was
  changed before; \<open>None\<close> is an operation that does not return.
\<close>

type_synonym ('a, 'r) operation = "'a data_classifier \<Rightarrow> ('a data_classifier \<times> 'r res) option"

definition op_bind :: "('a, 'r) operation \<Rightarrow> ('r \<Rightarrow> ('a, 's) operation) \<Rightarrow> ('a, 's) operation" where
  "op_bind m f s =
     (case m s of
        None \<Rightarrow> None
      | Some (s', Inl e) \<Rightarrow> Some (s', Inl e)
      | Some (s', Inr x) \<Rightarrow> f x s')"

definition op_return :: "'r \<Rightarrow> ('a, 'r) operation" where
  "op_return x s = Some (s, Inr x)"

definition op_lift :: "('a data_classifier \<Rightarrow> 'r res) \<Rightarrow> ('a, 'r) operation" where
  "op_lift f s = Some (s, f s)"

definition op_modify :: "('a data_classifier \<Rightarrow> 'a data_classifier) \<Rightarrow> ('a, unit) operation" where
  "op_modify f s = Some (f s, Inr ())"

abbreviation labeled :: "'a data_classifier \<Rightarrow> event_features list" where
  "labeled s \<equiv> labeled_events (event_label_manager s)"

section \<open>Normalisation\<close>

fun copy_from :: "nat \<Rightarrow> 'x list \<Rightarrow> 'x list \<Rightarrow> 'x list" where
  "copy_from i [] v = v"
| "copy_from i (f # fs) v = copy_from (i + 1) fs (v[i := f])"

definition convertToEigenVector :: "event_features \<Rightarrow> f32 list" where
  "convertToEigenVector ev = copy_from 0 (feature_vector ev) (replicate (length (feature_vector ev)) fl_zero)"

definition normalizeEvent :: "f32 list \<Rightarrow> 'a data_classifier \<Rightarrow> f32 list res" where
  "normalizeEvent vec s =
     (if length (normalization_mul_vector s) < length vec \<or> length (normalization_add_vector s) < length vec then Inl Assert_failed
      else Inr (map2 (\<lambda>x (factor, summand). f_add (f_mul x factor) summand) vec
                  (zip (normalization_mul_vector s) (normalization_add_vector s))))"

fun normalize_columns :: "f32 list list \<Rightarrow> 'a data_classifier \<Rightarrow> f32 list list res" where
  "normalize_columns [] s = Inr []"
| "normalize_columns (c # cs) s =
     res_bind (normalizeEvent c s) (\<lambda>c'. res_map (\<lambda>cs'. c' # cs') (normalize_columns cs s))"

text \<open>An assertion that fails in the middle ends the program, so what the columns before it hold does not matter.\<close>

definition normalizeMatrix :: "('a, unit) operation" where
  "normalizeMatrix s =
     (case normalize_columns (mat_cols (labeled_matrix s)) s of
        Inl e \<Rightarrow> Some (s, Inl e)
      | Inr cs \<Rightarrow> Some (s\<lparr>labeled_matrix := (labeled_matrix s)\<lparr>mat_cols := cs\<rparr>\<rparr>, Inr ()))"

definition featureVectorIsInRange :: "f32 list \<Rightarrow> 'a data_classifier \<Rightarrow> bool res" where
  "featureVectorIsInRange vec s =
     (if normalization_add_vector s = [] then Inr False
      else res_map (\<lambda>v. \<forall>x \<in> set v. \<not> (fl_less x (Fin True 1) \<or> fl_less fl_one x)) (normalizeEvent vec s))"

definition needToRegenerateMatrixForVector :: "f32 list \<Rightarrow> 'a data_classifier \<Rightarrow> bool res" where
  "needToRegenerateMatrixForVector vec s =
     (if normalization_mode (classification_config s) \<noteq> Rescale then Inr True
      else res_map (\<lambda>in_range. \<not> in_range \<or> length (labeled s) \<le> 1) (featureVectorIsInRange vec s))"

definition generateMaxVector :: "matrix \<Rightarrow> f32 list res" where
  "generateMaxVector m =
     (case mat_cols m of [] \<Rightarrow> Inl Assert_failed
      | c # cs \<Rightarrow> Inr (foldl (map2 (\<lambda>best x. if fl_less best x then x else best)) c cs))"

definition generateMinVector :: "matrix \<Rightarrow> f32 list res" where
  "generateMinVector m =
     (case mat_cols m of [] \<Rightarrow> Inl Assert_failed
      | c # cs \<Rightarrow> Inr (foldl (map2 (\<lambda>best x. if fl_less x best then x else best)) c cs))"

text \<open>\<^verbatim>\<open>1.0\<close> for every row of the only column, and the column negated.\<close>

definition generateFirstNormalizationVectors :: "matrix \<Rightarrow> ('a, unit) operation" where
  "generateFirstNormalizationVectors m s =
     (case mat_cols m of [] \<Rightarrow> Some (s, Inl Assert_failed)
      | c # _ \<Rightarrow> Some (s\<lparr>normalization_mul_vector := replicate (length c) fl_one,
                          normalization_add_vector := map fl_neg c\<rparr>, Inr ()))"

text \<open>The vectors keep their size; the second loop runs over the size of the first vector.\<close>

definition generateRescaleNormalizationVectors :: "matrix \<Rightarrow> ('a, unit) operation" where
  "generateRescaleNormalizationVectors m =
     op_bind (op_lift (\<lambda>_. generateMinVector m)) (\<lambda>min_vector.
     op_bind (op_lift (\<lambda>_. generateMaxVector m)) (\<lambda>max_vector s.
       let n = length (normalization_mul_vector s);
           mul_vector = map2 (\<lambda>mx mn. f_div (Fin False 2) (f_sub mx mn)) (take n max_vector) (take n min_vector);
           add_vector = map2 (\<lambda>mn f. f_sub (f_mul (f_mul (Fin True 1) mn) f) fl_one) (take n min_vector) mul_vector
       in if length max_vector < n \<or> length min_vector < n \<or> length (normalization_add_vector s) < n then Some (s, Inl Assert_failed)
          else Some (s\<lparr>normalization_mul_vector := mul_vector,
                       normalization_add_vector := add_vector @ drop n (normalization_add_vector s)\<rparr>, Inr ())))"

definition min_deviation :: f32 where
  "min_deviation = fl_round binary32 False (1 / 1000)"

definition row_of :: "matrix \<Rightarrow> nat \<Rightarrow> f32 list" where
  "row_of m i = map (\<lambda>c. c ! i) (mat_cols m)"

definition deviation_of :: "f32 list \<Rightarrow> f32" where
  "deviation_of row_vector = std_max min_deviation (fl_sqrt binary32 (variance row_vector))"

definition generateStandardizeNormalizationVectors :: "matrix \<Rightarrow> ('a, unit) operation" where
  "generateStandardizeNormalizationVectors m s =
     (if length (mat_cols m) < 2 then Some (s, Inr ())
      else if mat_rows m = 0 then Some (s, Inl Assert_failed)
      else Some (s\<lparr>normalization_mul_vector := map (\<lambda>i. f_div fl_one (deviation_of (row_of m i))) [0..<mat_rows m],
                   normalization_add_vector := map (\<lambda>i. f_div (fl_neg (mean (row_of m i))) (deviation_of (row_of m i))) [0..<mat_rows m]\<rparr>,
                 Inr ()))"

definition generateNormalizationVectors :: "matrix \<Rightarrow> ('a, unit) operation" where
  "generateNormalizationVectors m s =
     (if length (labeled s) = 1 then generateFirstNormalizationVectors m s
      else if normalization_mode (classification_config s) = Rescale then generateRescaleNormalizationVectors m s
      else generateStandardizeNormalizationVectors m s)"

section \<open>The matrix and its search tree\<close>

definition generateMatrixFromLabeledEvents :: "'a data_classifier \<Rightarrow> matrix res" where
  "generateMatrixFromLabeledEvents s =
     (if labeled s = [] then Inl Undefined
      else let rows = length (feature_vector (last (labeled s)))
           in if \<exists>ev \<in> set (labeled s). length (feature_vector ev) \<noteq> rows then Inl Assert_failed
              else Inr \<lparr>mat_rows = rows, mat_cols = map convertToEigenVector (labeled s)\<rparr>)"

fun dangle :: "search_pointer \<Rightarrow> search_pointer" where
  "dangle Null = Null"
| "dangle _ = Dangling"

definition set_matrix :: "matrix \<Rightarrow> ('a, unit) operation" where
  "set_matrix m = op_modify (\<lambda>s. s\<lparr>labeled_matrix := m, nns := dangle (nns s)\<rparr>)"

text \<open>The default arguments: every dimension, no options, buckets of eight points.\<close>

definition create_search_tree :: "('a, unit) operation" where
  "create_search_tree s =
     (case createKDTreeTreeHeap float_scalars (labeled_matrix s) (2 ^ 31 - 1) 0 8 of
        Inr (Tree_heap_tree t) \<Rightarrow> Some (s\<lparr>nns := Search t\<rparr>, Inr ())
      | Inr _ \<Rightarrow> Some (s, Inl Undefined)
      | Inl e \<Rightarrow> Some (s, Inl e))"

definition regenerateMatrix :: "('a, unit) operation" where
  "regenerateMatrix s =
     (if labeled s = [] then Some (s, Inr ())
      else op_bind (op_lift generateMatrixFromLabeledEvents) (\<lambda>m.
           op_bind (set_matrix m) (\<lambda>_.
           op_bind (generateNormalizationVectors m) (\<lambda>_.
           op_bind normalizeMatrix (\<lambda>_. create_search_tree)))) s)"

definition pushToMatrix :: "'a surroundings \<Rightarrow> f32 list \<Rightarrow> ('a, unit) operation" where
  "pushToMatrix env vec =
     op_modify (\<lambda>s. let n = length (mat_cols (labeled_matrix s)) in
       s\<lparr>labeled_matrix := \<lparr>mat_rows = length vec,
            mat_cols = map (\<lambda>c. map (env_resized env (labeled_matrix s) c) [0..<length vec]) [0..<n] @ [vec]\<rparr>,
          nns := dangle (nns s)\<rparr>)"

definition addEventToNormalizedMatrix :: "'a surroundings \<Rightarrow> event_features \<Rightarrow> ('a, unit) operation" where
  "addEventToNormalizedMatrix env ev =
     (let feature_vec = convertToEigenVector ev in
      op_bind (op_lift (needToRegenerateMatrixForVector feature_vec)) (\<lambda>need.
        if need then regenerateMatrix
        else op_bind (op_lift (normalizeEvent feature_vec)) (pushToMatrix env)))"

definition getUnnormalizedLabeledMatrix :: "('a, matrix) operation" where
  "getUnnormalizedLabeledMatrix = op_lift generateMatrixFromLabeledEvents"

definition getNormalizedLabeledMatrix :: "('a, matrix) operation" where
  "getNormalizedLabeledMatrix = op_lift (\<lambda>s. Inr (labeled_matrix s))"

section \<open>Classification\<close>

text \<open>The map from labels to counts in the order of its iteration; a label that is no number has no place in it.\<close>

fun count_label :: "f64 \<Rightarrow> (f64 \<times> nat) list \<Rightarrow> (f64 \<times> nat) list" where
  "count_label l [] = [(l, 1)]"
| "count_label l ((x, n) # xs) =
     (if fl_less x l then (x, n) # count_label l xs
      else if fl_less l x then (l, 1) # (x, n) # xs
      else (x, n + 1) # xs)"

fun count_labels :: "event_features list \<Rightarrow> nat list \<Rightarrow> (f64 \<times> nat) list \<Rightarrow> (f64 \<times> nat) list res" where
  "count_labels evs [] counts = Inr counts"
| "count_labels evs (i # is) counts =
     (if length evs \<le> i then Inl Undefined
      else case event_label (event_meta_data (evs ! i)) of
        None \<Rightarrow> Inl Undefined
      | Some l \<Rightarrow> if l = NaN then Inl Undefined else count_labels evs is (count_label l counts))"

fun best_label :: "f64 option \<Rightarrow> int \<Rightarrow> (f64 \<times> nat) list \<Rightarrow> f64 option \<times> int" where
  "best_label max_label most [] = (max_label, most)"
| "best_label max_label most ((l, n) # xs) =
     (if most < int n then best_label (Some l) (int n) xs else best_label max_label most xs)"

definition neighbours_considered :: nat where
  "neighbours_considered = 5"

definition classified_as :: "f64 \<times> int \<Rightarrow> event_features \<Rightarrow> event_features" where
  "classified_as r ev = ev\<lparr>event_meta_data := (event_meta_data ev)
     \<lparr>event_label := Some (fst r), classification_certainty := f_div (f_of_int (snd r)) (f_of_int (int neighbours_considered))\<rparr>\<rparr>"

definition vote :: "event_features list \<Rightarrow> nat list \<Rightarrow> event_features \<Rightarrow> event_features res" where
  "vote evs indices ev =
     res_bind (count_labels evs indices []) (\<lambda>counts.
       case best_label None (- 1) counts of
         (None, most) \<Rightarrow> Inl Undefined
       | (Some l, most) \<Rightarrow> Inr (classified_as (l, most) ev))"

definition classifyOneEvent :: "event_features \<Rightarrow> 'a data_classifier \<Rightarrow> event_features res option" where
  "classifyOneEvent ev s =
     (if length (labeled s) \<le> neighbours_considered then Some (Inl (Int_thrown (- 1)))
      else case normalizeEvent (convertToEigenVector ev) s of
        Inl e \<Rightarrow> Some (Inl e)
      | Inr query \<Rightarrow>
          (case nns s of
             Search t \<Rightarrow>
               Option.bind (knn_vector stl_heap float_scalars t query neighbours_considered fl_zero 0 (Inf False)) (\<lambda>r.
                 Some (res_bind r (\<lambda>(col, touched). vote (labeled s) (map entry_index col) ev)))
           | _ \<Rightarrow> Some (Inl Undefined)))"

text \<open>The classified event is a variable of the block, so it is dropped.\<close>

definition classifyOneEventAndPushToLabelManager :: "event_features \<Rightarrow> ('a, unit) operation" where
  "classifyOneEventAndPushToLabelManager ev s =
     Option.bind (classifyOneEvent ev s) (\<lambda>r.
       let finish = (\<lambda>ev s. Some (s\<lparr>event_classified := event_classified s @ [ev],
             event_label_manager := addClassifiedEvent ev (event_label_manager s)\<rparr>, Inr ()))
       in case r of
         Inr labeled_event \<Rightarrow> finish ev s
       | Inl e \<Rightarrow>
           if is_exception e
           then let ev = set_label fl_zero ev
                in finish ev (s\<lparr>event_label_manager := addUnLabeledEvent ev (event_label_manager s)\<rparr>)
           else Some (s, Inl e))"

definition processOneEvent :: "'a surroundings \<Rightarrow> 'a event \<Rightarrow> ('a, unit) operation" where
  "processOneEvent env ev s =
     (case extractFeatures (env_libm env) (env_ampere env) (env_volt env) ev (the_extractor s) of
        Inl e \<Rightarrow> Some (s, Inl e)
      | Inr (features, fe) \<Rightarrow>
          let s = s\<lparr>the_extractor := fe\<rparr>; (found, lm) = findLabelAndAddEvent features (event_label_manager s)
          in if found then addEventToNormalizedMatrix env features (s\<lparr>event_label_manager := lm\<rparr>)
             else classifyOneEventAndPushToLabelManager features s)"

definition reclassify :: "nat \<Rightarrow> ('a, unit) operation" where
  "reclassify eid s =
     (case getEvent eid (event_label_manager s) of
        None \<Rightarrow> Some (s, Inr ())
      | Some ev \<Rightarrow>
          Option.bind (classifyOneEvent ev s) (\<lambda>r.
            case r of
              Inl e \<Rightarrow> Some (s, Inl e)
            | Inr classified \<Rightarrow>
                Some (s\<lparr>event_label_manager := setEvent eid classified (event_label_manager s)\<rparr>, Inr ())))"

section \<open>Labels and events from other threads\<close>

definition pushEvent :: "'a event \<Rightarrow> ('a, unit) operation" where
  "pushEvent ev = op_modify (\<lambda>s. s\<lparr>event_stack := event_stack s @ [ev]\<rparr>)"

definition addLabel :: "label_time_pair \<Rightarrow> ('a, unit) operation" where
  "addLabel l = op_modify (\<lambda>s. s\<lparr>event_label_manager := snd (addLabel_time l (event_label_manager s))\<rparr>)"

definition addLabelById :: "nat \<Rightarrow> f64 \<Rightarrow> ('a, bool) operation" where
  "addLabelById eid l s =
     (case addLabel_id eid l (event_label_manager s) of
        (True, lm) \<Rightarrow> op_bind regenerateMatrix (\<lambda>_. op_return True) (s\<lparr>event_label_manager := lm\<rparr>)
      | (False, lm) \<Rightarrow> Some (s\<lparr>event_label_manager := lm\<rparr>, Inr False))"

definition getEventLabelManager :: "('a, label_manager) operation" where
  "getEventLabelManager = op_lift (\<lambda>s. Inr (event_label_manager s))"

definition setEventLabelManager :: "label_manager \<Rightarrow> ('a, unit) operation" where
  "setEventLabelManager lm = op_bind (op_modify (\<lambda>s. s\<lparr>event_label_manager := lm\<rparr>)) (\<lambda>_. regenerateMatrix)"

definition getNumberOfElementsOnStack :: "('a, nat) operation" where
  "getNumberOfElementsOnStack = op_lift (\<lambda>s. Inr (length (event_stack s)))"

section \<open>The thread\<close>

definition startClassification :: "classification_config \<Rightarrow> ('a, unit) operation" where
  "startClassification config s =
     (let s = s\<lparr>continue_analyzing := True, the_extractor := setConfig config (the_extractor s)\<rparr>
      in if the_runner s = Not_started then Some (s\<lparr>the_runner := Running\<rparr>, Inr ()) else Some (s, Inl Assert_failed))"

text \<open>Joining a running thread waits until it has returned; it has not here if there is no result.\<close>

definition join_runner :: "('a, unit) operation" where
  "join_runner s = (if the_runner s = Running then None else Some (s\<lparr>the_runner := Not_started\<rparr>, Inr ()))"

definition startClassification_labels :: "string option \<Rightarrow> classification_config \<Rightarrow> ('a, unit) operation" where
  "startClassification_labels content config =
     op_bind join_runner (\<lambda>_.
     op_bind (op_modify (\<lambda>s. s\<lparr>event_label_manager := loadLabelsFromFile content (event_label_manager s)\<rparr>)) (\<lambda>_.
       startClassification config))"

definition stop_flag :: "('a, unit) operation" where
  "stop_flag = op_modify (\<lambda>s. s\<lparr>continue_analyzing := False\<rparr>)"

text \<open>A round of the loop, once the thread is woken with an event or told to stop.\<close>

definition run_round :: "'a surroundings \<Rightarrow> ('a, unit) operation" where
  "run_round env s =
     (if the_runner s \<noteq> Running \<or> (event_stack s = [] \<and> continue_analyzing s) then None
      else if \<not> continue_analyzing s then Some (s\<lparr>the_runner := Returned\<rparr>, Inr ())
      else case processOneEvent env (last (event_stack s)) s of
        None \<Rightarrow> None
      | Some (s', Inl e) \<Rightarrow> Some (s', Inl (if e = Undefined then Undefined else Assert_failed))
      | Some (s', Inr _) \<Rightarrow> Some (s'\<lparr>event_stack := butlast (event_stack s')\<rparr>, Inr ()))"

definition stopAnalyzingWhenDone_may_return :: "'a data_classifier \<Rightarrow> bool" where
  "stopAnalyzingWhenDone_may_return s \<longleftrightarrow> event_stack s = []"

section \<open>The matrix and the tree belong together\<close>

lemma op_simps [simp]:
  "op_modify f s = Some (f s, Inr ())" "op_return x s = Some (s, Inr x)" "op_lift g s = Some (s, g s)"
  by (simp_all add: op_modify_def op_return_def op_lift_def)

lemma op_bind_simps [simp]:
  "m s = None \<Longrightarrow> op_bind m f s = None"
  "m s = Some (s', Inl e) \<Longrightarrow> op_bind m f s = Some (s', Inl e)"
  "m s = Some (s', Inr x) \<Longrightarrow> op_bind m f s = f x s'"
  by (simp_all add: op_bind_def)

lemma copy_from_append:
  "length v = length fs \<Longrightarrow> copy_from (length front) fs (front @ v) = front @ fs"
proof (induction fs arbitrary: front v)
  case (Cons f fs)
  then obtain y v' where v: "v = y # v'" by (cases v) auto
  have "copy_from (length (front @ [f])) fs ((front @ [f]) @ v') = (front @ [f]) @ fs"
    using Cons v by (intro Cons.IH) simp
  then show ?case by (simp add: v)
qed simp

lemma convert_features [simp]: "convertToEigenVector ev = feature_vector ev"
  using copy_from_append [of "replicate (length (feature_vector ev)) fl_zero" "feature_vector ev" "[]"]
  by (simp add: convertToEigenVector_def)

lemma normalizeEvent_length: "normalizeEvent v s = Inr w \<Longrightarrow> length w = length v"
  by (auto simp: normalizeEvent_def split: if_splits)

lemma res_map_eq_iff:
  "res_map f r = Inr y \<longleftrightarrow> (\<exists>x. r = Inr x \<and> y = f x)" "res_map f r = Inl e \<longleftrightarrow> r = Inl e"
  by (cases r; auto)+

lemma normalize_columns_lengths: "normalize_columns cs s = Inr cs' \<Longrightarrow> map length cs' = map length cs"
proof (induction cs arbitrary: cs')
  case (Cons c cs)
  then obtain d ds where "normalizeEvent c s = Inr d" "normalize_columns cs s = Inr ds" "cs' = d # ds"
    by (auto simp: res_bind_eq_Inr_iff res_map_eq_iff)
  then show ?case using Cons.IH normalizeEvent_length by auto
qed simp

lemma normalize_columns_error: "normalize_columns cs s = Inl e \<Longrightarrow> e = Assert_failed"
proof (induction cs)
  case (Cons c cs)
  then show ?case
    by (auto simp: normalizeEvent_def res_bind_def res_map_def split: if_splits sum.splits)
qed simp

definition classifier_fits :: "'a data_classifier \<Rightarrow> bool" where
  "classifier_fits s \<longleftrightarrow> (\<forall>ev \<in> set (labeled s). 0 < length (feature_vector ev) \<and> length (feature_vector ev) < 2 ^ 31 \<and>
     2 * length (labeled s) \<le> 2 ^ (32 - getStorageBitCount (length (feature_vector ev))))"

definition searchable :: "kd_tree \<Rightarrow> 'a data_classifier \<Rightarrow> bool" where
  "searchable t s \<longleftrightarrow> (\<exists>tr. tree_of t (labeled_matrix s) (2 ^ 31 - 1) tr) \<and> mat_cols (labeled_matrix s) \<noteq> [] \<and>
     length (mat_cols (labeled_matrix s)) \<le> length (labeled s) \<and>
     length (normalization_mul_vector s) = mat_rows (labeled_matrix s) \<and>
     length (normalization_add_vector s) = mat_rows (labeled_matrix s) \<and>
     0 < mat_rows (labeled_matrix s)"

text \<open>Before the first labelled event the normalisation vectors are empty.\<close>

definition classifier_inv :: "'a data_classifier \<Rightarrow> bool" where
  "classifier_inv s \<longleftrightarrow> classification_config s = ClassificationConfig \<and>
     (\<forall>ev \<in> set (labeled s). event_label (event_meta_data ev) \<noteq> None) \<and>
     (case nns s of
        Null \<Rightarrow> True
      | Search t \<Rightarrow> searchable t s
      | Dangling \<Rightarrow> False)"

lemma buildNodes_error: "buildNodes ops t pts mn mx = Inl e \<Longrightarrow> e = Assert_failed"
proof (induction ops t pts mn mx arbitrary: e rule: buildNodes.induct)
  case (1 ops t pts mn mx)
  obtain cd cv n qs where cs: "choose_split ops t pts mn mx = (cd, cv, n, qs)" by (cases "choose_split ops t pts mn mx") auto
  show ?case
  proof (cases "length pts < 1 \<or> length pts \<le> bucketSize t \<or> \<not> (0 < n \<and> n < length pts)")
    case True
    then show ?thesis using "1.prems" by (subst (asm) buildNodes.simps) (auto simp: cs Let_def split: if_splits)
  next
    case False
    then have c: "\<not> length pts < 1" "\<not> length pts \<le> bucketSize t" "0 < n \<and> n < length pts" by auto
    have n: "\<not> \<not> (0 < n \<and> n < length pts)" using c(3) by simp
    note IH1 = "1.IH"(1) [OF refl refl c(1,2) cs [symmetric] refl refl n]
    note IH2 = "1.IH"(2) [OF refl refl c(1,2) cs [symmetric] refl refl n]
    let ?l = "buildNodes ops (t\<lparr>nodes := nodes t @ [\<lparr>dimChildBucketSize = 0, node_union = Cut_val cv\<rparr>]\<rparr>) (take n qs) mn (mx[cd := cv])"
    show ?thesis
    proof (cases ?l)
      case (Inl a)
      then show ?thesis using "1.prems" c IH1 by (subst (asm) buildNodes.simps) (simp add: cs Let_def)
    next
      case (Inr b)
      obtain t1 lc where b: "b = (t1, lc)" by (cases b)
      show ?thesis
        using "1.prems" c IH2 Inr b
        by (subst (asm) buildNodes.simps) (auto simp: cs Let_def split: if_splits sum.splits)
    qed
  qed
qed


lemma create_error:
  assumes "create_kd_tree ops m d flags bucket_size = Inl e" and "fits_cloud m d" and "2 \<le> bucket_size"
  shows "e = Assert_failed"
proof -
  let ?k = "nat (min d (int (mat_rows m)))" and ?n = "length (mat_cols m)"
  let ?b = "getStorageBitCount ?k"
  have m: "mat_cols m \<noteq> []" "0 < mat_rows m" and cap: "2 * ?n \<le> 2 ^ (32 - ?b)"
    using assms(2) by (auto simp: fits_cloud_def)
  have "?n div (bucket_size div 2) \<le> ?n" by (rule div_le_dividend)
  moreover have "0 < ?n" using m(1) by simp
  ultimately have small: "\<not> 2 ^ (32 - ?b) - 1 < ?n div (bucket_size div 2)" using cap by linarith
  show ?thesis using assms(1) m small assms(3)
    by (auto simp: create_kd_tree_def NearestNeighbourSearch_def Let_def res_map_eq_iff split: if_splits dest: buildNodes_error)
qed

text \<open>With the configuration the classifier always has, the vectors fit a matrix that is not empty.\<close>

lemma generate_vectors:
  assumes "classification_config s = ClassificationConfig" and "length (labeled s) = length (mat_cols m)"
    and "mat_cols m \<noteq> []" and "mat_wf m" and "0 < mat_rows m"
  shows "\<exists>mv av. generateNormalizationVectors m s = Some (s\<lparr>normalization_mul_vector := mv, normalization_add_vector := av\<rparr>, Inr ()) \<and>
    length mv = mat_rows m \<and> length av = mat_rows m"
proof (cases "length (mat_cols m) = 1")
  case True
  then obtain c where "mat_cols m = [c]" by (auto simp: length_Suc_conv)
  then show ?thesis using assms
    by (intro exI [of _ "replicate (mat_rows m) fl_one"] exI [of _ "map fl_neg c"])
      (auto simp: generateNormalizationVectors_def generateFirstNormalizationVectors_def mat_wf_def)
next
  case False
  then have "\<not> length (mat_cols m) < 2" using assms(3) by (cases "mat_cols m") auto
  then show ?thesis using assms False
    by (auto intro!: exI simp: generateNormalizationVectors_def generateStandardizeNormalizationVectors_def ClassificationConfig_def)
qed

definition same_labels :: "'a data_classifier \<Rightarrow> 'a data_classifier \<Rightarrow> bool" where
  "same_labels s s' \<longleftrightarrow> event_label_manager s' = event_label_manager s \<and> classification_config s' = classification_config s \<and>
     event_classified s' = event_classified s \<and> event_stack s' = event_stack s"

lemma generated_matrix:
  assumes "labeled s \<noteq> []"
  shows "generateMatrixFromLabeledEvents s = Inl e \<Longrightarrow> e = Assert_failed"
    and "generateMatrixFromLabeledEvents s = Inr m \<Longrightarrow> mat_cols m = map feature_vector (labeled s) \<and> mat_wf m \<and>
      mat_rows m = length (feature_vector (last (labeled s)))"
proof -
  obtain rows where rows: "length (feature_vector (last (labeled s))) = rows" by blast
  show "generateMatrixFromLabeledEvents s = Inl e \<Longrightarrow> e = Assert_failed"
    using assms by (simp add: generateMatrixFromLabeledEvents_def rows split: if_splits)
  show "generateMatrixFromLabeledEvents s = Inr m \<Longrightarrow> mat_cols m = map feature_vector (labeled s) \<and> mat_wf m \<and>
      mat_rows m = length (feature_vector (last (labeled s)))"
    using assms by (auto simp: generateMatrixFromLabeledEvents_def rows mat_wf_def split: if_splits)
qed

lemma regenerate_result:
  assumes "regenerateMatrix s = Some (s', r)" and "classification_config s = ClassificationConfig" and "classifier_fits s" and "labeled s \<noteq> []"
  shows "same_labels s s' \<and> (case r of Inl e \<Rightarrow> \<not> is_exception e | Inr _ \<Rightarrow> \<exists>t. nns s' = Search t \<and> searchable t s')"
proof (cases "generateMatrixFromLabeledEvents s")
  case (Inl e)
  then have "e = Assert_failed" using generated_matrix(1) [OF assms(4)] by simp
  moreover have "regenerateMatrix s = Some (s, Inl e)" using Inl assms(4) by (simp add: regenerateMatrix_def)
  with assms(1) have "s' = s" "r = Inl e" by simp_all
  ultimately show ?thesis by (simp add: same_labels_def is_exception_def)
next
  case (Inr m)
  have m: "mat_cols m = map feature_vector (labeled s)" "mat_wf m" "mat_rows m = length (feature_vector (last (labeled s)))"
    using generated_matrix(2) [OF assms(4) Inr] by blast+
  have "last (labeled s) \<in> set (labeled s)" using assms(4) by simp
  then have rows: "0 < mat_rows m" "mat_rows m < 2 ^ 31" "2 * length (labeled s) \<le> 2 ^ (32 - getStorageBitCount (mat_rows m))"
    using assms(3) unfolding classifier_fits_def m(3) by blast+
  define s1 where "s1 = s\<lparr>labeled_matrix := m, nns := dangle (nns s)\<rparr>"
  obtain mv av where gen: "generateNormalizationVectors m s1 = Some (s1\<lparr>normalization_mul_vector := mv, normalization_add_vector := av\<rparr>, Inr ())"
    and len: "length mv = mat_rows m" "length av = mat_rows m"
    using generate_vectors [of s1 m] assms(2,4) m rows by (auto simp: s1_def)
  define s2 where "s2 = s1\<lparr>normalization_mul_vector := mv, normalization_add_vector := av\<rparr>"
  have run: "regenerateMatrix s = op_bind normalizeMatrix (\<lambda>_. create_search_tree) s2"
    using assms(4) Inr gen by (simp add: regenerateMatrix_def set_matrix_def s1_def s2_def)
  have same: "same_labels s s2" by (simp add: same_labels_def s1_def s2_def)
  show ?thesis
  proof (cases "normalize_columns (mat_cols m) s2")
    case Inl': (Inl e)
    then have "normalizeMatrix s2 = Some (s2, Inl e)" "e = Assert_failed"
      using normalize_columns_error by (auto simp: normalizeMatrix_def s1_def s2_def)
    then show ?thesis using run assms(1) same by (simp add: is_exception_def)
  next
    case Inr': (Inr cs)
    define s3 where "s3 = s2\<lparr>labeled_matrix := m\<lparr>mat_cols := cs\<rparr>\<rparr>"
    have norm: "normalizeMatrix s2 = Some (s3, Inr ())"
      using Inr' by (simp add: normalizeMatrix_def s1_def s2_def s3_def)
    have lengths: "map length cs = map length (mat_cols m)" using normalize_columns_lengths [OF Inr'] .
    then have cs: "length cs = length (labeled s)" using m(1) map_eq_imp_length_eq by fastforce
    have "length ` set cs = length ` set (mat_cols m)" using lengths by (metis list.set_map)
    then have "mat_wf (m\<lparr>mat_cols := cs\<rparr>)" using m(2) by (auto simp: mat_wf_def image_iff set_eq_iff)
    moreover have "nat (min (2 ^ 31 - 1) (int (mat_rows m))) = mat_rows m" using rows(2) by simp
    ultimately have fits: "fits_cloud (labeled_matrix s3) (2 ^ 31 - 1)"
      using rows assms(4) cs by (auto simp: fits_cloud_def s3_def)
    have run: "regenerateMatrix s = create_search_tree s3" using run norm by simp
    have same: "same_labels s s3" using same by (simp add: same_labels_def s3_def)
    show ?thesis
    proof (cases "create_kd_tree float_scalars (labeled_matrix s3) (2 ^ 31 - 1) 0 8")
      case Inl'': (Inl e)
      then have "create_search_tree s3 = Some (s3, Inl e)"
        by (simp add: create_search_tree_def createKDTreeTreeHeap_def)
      then show ?thesis using run assms(1) same create_error [OF Inl'' fits] by (simp add: is_exception_def)
    next
      case Inr'': (Inr t)
      then have new: "create_search_tree s3 = Some (s3\<lparr>nns := Search t\<rparr>, Inr ())"
        by (simp add: create_search_tree_def createKDTreeTreeHeap_def)
      have "searchable t (s3\<lparr>nns := Search t\<rparr>)"
        using create_structure [OF Inr'' fits] same len rows cs assms(4)
        by (auto simp: searchable_def s3_def s2_def same_labels_def)
      then show ?thesis using run assms(1) same new by (simp add: same_labels_def)
    qed
  qed
qed

section \<open>The vote\<close>

lemma fl_eq_key: "a \<noteq> NaN \<Longrightarrow> b \<noteq> NaN \<Longrightarrow> fl_eq a b \<longleftrightarrow> fl_key a = fl_key b"
  by (cases a; cases b) auto

definition tally :: "f64 \<Rightarrow> (f64 \<times> nat) list \<Rightarrow> nat" where
  "tally l counts = sum_list (map snd (filter (\<lambda>p. fl_key (fst p) = fl_key l) counts))"

definition counts_inv :: "(f64 \<times> nat) list \<Rightarrow> bool" where
  "counts_inv counts \<longleftrightarrow> sorted_wrt (\<lambda>p q. fl_key (fst p) < fl_key (fst q)) counts \<and> (\<forall>(x, n) \<in> set counts. x \<noteq> NaN \<and> 0 < n)"

lemma count_label_keys: "fl_key ` fst ` set (count_label l counts) = insert (fl_key l) (fl_key ` fst ` set counts)"
  if "l \<noteq> NaN" "\<forall>(x, n) \<in> set counts. x \<noteq> NaN"
  using that by (induction l counts rule: count_label.induct) (auto simp: fl_less_key)

lemma count_label_inv: "counts_inv counts \<Longrightarrow> l \<noteq> NaN \<Longrightarrow> counts_inv (count_label l counts)"
proof (induction l counts rule: count_label.induct)
  case (2 l x n xs)
  then have x: "x \<noteq> NaN" "0 < n" "counts_inv xs" "\<forall>q \<in> set xs. fl_key x < fl_key (fst q)"
    by (auto simp: counts_inv_def)
  have num: "\<forall>(y, m) \<in> set xs. y \<noteq> NaN" using x(3) by (auto simp: counts_inv_def)
  consider "fl_key x < fl_key l" | "fl_key l < fl_key x" | "fl_key x = fl_key l" by (rule linorder_cases)
  then show ?case
  proof cases
    case 1
    then have "counts_inv (count_label l xs)" using 2 x by (auto simp: fl_less_key)
    moreover have "fl_key x < fl_key (fst q)" if "q \<in> set (count_label l xs)" for q
    proof -
      have "fl_key (fst q) \<in> insert (fl_key l) (fl_key ` fst ` set xs)"
        using that count_label_keys [OF "2.prems"(2) num] by blast
      then show ?thesis using 1 x(4) by auto
    qed
    ultimately show ?thesis using 1 x "2.prems"(2) by (auto simp: counts_inv_def fl_less_key)
  next
    case c: 2
    then show ?thesis using x c "2.prems" by (auto simp: counts_inv_def fl_less_key intro: less_trans)
  next
    case 3
    then show ?thesis using x 3 "2.prems"(2) by (auto simp: counts_inv_def fl_less_key)
  qed
qed (auto simp: counts_inv_def)

lemma tally_count_label:
  "counts_inv counts \<Longrightarrow> l \<noteq> NaN \<Longrightarrow> tally l' (count_label l counts) = tally l' counts + (if fl_key l = fl_key l' then 1 else 0)"
proof (induction l counts rule: count_label.induct)
  case (2 l x n xs)
  then have "counts_inv xs" "x \<noteq> NaN" by (auto simp: counts_inv_def)
  then show ?case using 2 by (auto simp: tally_def fl_less_key not_less)
qed (auto simp: tally_def)

lemma tally_at: "counts_inv counts \<Longrightarrow> (l, n) \<in> set counts \<Longrightarrow> tally l counts = n"
proof (induction counts)
  case (Cons p ps)
  then have ps: "counts_inv ps" "\<forall>q \<in> set ps. fl_key (fst p) < fl_key (fst q)" by (auto simp: counts_inv_def)
  show ?case
  proof (cases "(l, n) = p")
    case True
    then have "filter (\<lambda>q. fl_key (fst q) = fl_key l) ps = []" using ps(2) by (force simp: filter_empty_conv)
    then show ?thesis using True by (auto simp: tally_def)
  next
    case False
    then have "(l, n) \<in> set ps" using Cons.prems(2) by simp
    then show ?thesis using Cons.IH ps by (force simp: tally_def)
  qed
qed simp

lemma tally_not_zero: "0 < tally l counts \<Longrightarrow> \<exists>(x, n) \<in> set counts. fl_key x = fl_key l"
  by (induction counts) (auto simp: tally_def split: if_splits)

lemma best_label_result:
  "counts_inv counts \<Longrightarrow> case best_label b most counts of (l, n) \<Rightarrow>
     most \<le> n \<and> (\<forall>(x, m) \<in> set counts. int m \<le> n) \<and>
     ((l, n) = (b, most) \<and> (\<forall>(x, m) \<in> set counts. int m \<le> most) \<or>
      (\<exists>l' n'. l = Some l' \<and> n = int n' \<and> most < n \<and> (l', n') \<in> set counts \<and> (\<forall>(x, m) \<in> set counts. m = n' \<longrightarrow> fl_key l' \<le> fl_key x)))"
proof (induction b most counts rule: best_label.induct)
  case (2 b most l n xs)
  then have xs: "counts_inv xs" "\<forall>q \<in> set xs. fl_key l < fl_key (fst q)" by (auto simp: counts_inv_def)
  show ?case
  proof (cases "most < int n")
    case True
    obtain l1 n1 where r: "best_label (Some l) (int n) xs = (l1, n1)" by (cases "best_label (Some l) (int n) xs")
    have IH: "int n \<le> n1 \<and> (\<forall>(x, m) \<in> set xs. int m \<le> n1) \<and>
     ((l1, n1) = (Some l, int n) \<and> (\<forall>(x, m) \<in> set xs. int m \<le> int n) \<or>
      (\<exists>l' n'. l1 = Some l' \<and> n1 = int n' \<and> int n < n1 \<and> (l', n') \<in> set xs \<and> (\<forall>(x, m) \<in> set xs. m = n' \<longrightarrow> fl_key l' \<le> fl_key x)))"
      using "2.IH"(1) [OF True xs(1)] r by simp
    have "\<exists>l' n'. l1 = Some l' \<and> n1 = int n' \<and> (l', n') \<in> set ((l, n) # xs) \<and> (\<forall>(x, m) \<in> set ((l, n) # xs). m = n' \<longrightarrow> fl_key l' \<le> fl_key x)"
    proof (cases "(l1, n1) = (Some l, int n)")
      case True
      then show ?thesis using xs(2) by (auto simp: less_imp_le)
    next
      case False
      then obtain l' n' where "l1 = Some l'" "n1 = int n'" "int n < n1" "(l', n') \<in> set xs"
        "\<forall>(x, m) \<in> set xs. m = n' \<longrightarrow> fl_key l' \<le> fl_key x" using IH by blast
      then show ?thesis by (intro exI [of _ l'] exI [of _ n']) auto
    qed
    moreover have "most < n1" "most \<le> n1" "\<forall>(x, m) \<in> set ((l, n) # xs). int m \<le> n1" using IH True by auto
    ultimately show ?thesis using True r by auto
  next
    case False
    obtain l1 n1 where r: "best_label b most xs = (l1, n1)" by (cases "best_label b most xs")
    then show ?thesis using "2.IH"(2) [OF False xs(1)] False by fastforce
  qed
qed simp

definition label_is :: "event_features \<Rightarrow> f64 \<Rightarrow> bool" where
  "label_is ev l \<longleftrightarrow> (\<exists>x. event_label (event_meta_data ev) = Some x \<and> fl_eq x l)"

definition votes :: "event_features list \<Rightarrow> nat list \<Rightarrow> f64 \<Rightarrow> nat" where
  "votes evs indices l = length (filter (\<lambda>i. label_is (evs ! i) l) indices)"

definition numbered :: "event_features list \<Rightarrow> bool" where
  "numbered evs \<longleftrightarrow> (\<forall>ev \<in> set evs. \<exists>l. event_label (event_meta_data ev) = Some l \<and> l \<noteq> NaN)"

lemma numberedD: "numbered evs \<Longrightarrow> i < length evs \<Longrightarrow> \<exists>x. event_label (event_meta_data (evs ! i)) = Some x \<and> x \<noteq> NaN"
  by (simp add: numbered_def)

lemma count_labels_result:
  assumes "numbered evs"
  shows "set is \<subseteq> {..<length evs} \<Longrightarrow> counts_inv counts \<Longrightarrow>
    \<exists>counts'. count_labels evs is counts = Inr counts' \<and> counts_inv counts' \<and>
      (\<forall>l. l \<noteq> NaN \<longrightarrow> tally l counts' = tally l counts + votes evs is l)"
proof (induction "is" arbitrary: counts)
  case Nil
  then show ?case by (simp add: votes_def)
next
  case (Cons i "is")
  have i: "i < length evs" using Cons.prems(1) by simp
  then obtain x where x: "event_label (event_meta_data (evs ! i)) = Some x" "x \<noteq> NaN"
    using numberedD [OF assms] by blast
  obtain counts' where IH: "count_labels evs is (count_label x counts) = Inr counts'" "counts_inv counts'"
    "\<forall>l. l \<noteq> NaN \<longrightarrow> tally l counts' = tally l (count_label x counts) + votes evs is l"
    using Cons.IH [of "count_label x counts"] Cons.prems count_label_inv [OF Cons.prems(2) x(2)] by auto
  have "tally l counts' = tally l counts + votes evs (i # is) l" if "l \<noteq> NaN" for l
    using IH(3) that tally_count_label [OF Cons.prems(2) x(2)] x
    by (auto simp: votes_def label_is_def fl_eq_key)
  then show ?case using IH(1,2) i x by auto
qed

lemma vote_result:
  assumes "numbered evs" and "set is \<subseteq> {..<length evs}" and "is \<noteq> []"
  shows "\<exists>l. l \<noteq> NaN \<and> vote evs is ev = Inr (classified_as (l, int (votes evs is l)) ev) \<and> 0 < votes evs is l \<and>
    (\<forall>l'. l' \<noteq> NaN \<longrightarrow> votes evs is l' < votes evs is l \<or> votes evs is l' = votes evs is l \<and> \<not> fl_less l' l)"
proof -
  obtain counts where counts: "count_labels evs is [] = Inr counts" "counts_inv counts"
    and tally: "\<And>l. l \<noteq> NaN \<Longrightarrow> tally l counts = votes evs is l"
    using count_labels_result [OF assms(1,2), of "[]"] by (auto simp: counts_inv_def tally_def)
  obtain b most where r: "best_label None (- 1) counts = (b, most)" by (cases "best_label None (- 1) counts")
  have "hd is < length evs" using assms(2,3) by (cases "is") auto
  then obtain x where x: "event_label (event_meta_data (evs ! hd is)) = Some x" "x \<noteq> NaN"
    using numberedD [OF assms(1)] by blast
  then have "0 < votes evs is x" using assms(3) by (cases "is") (auto simp: votes_def label_is_def fl_eq_key)
  then obtain y m where "(y, m) \<in> set counts" using tally_not_zero [of x counts] tally x(2) by auto
  then obtain l n where l: "b = Some l" "most = int n" "(l, n) \<in> set counts"
      "\<forall>(x, m) \<in> set counts. int m \<le> most" "\<forall>(x, m) \<in> set counts. m = n \<longrightarrow> fl_key l \<le> fl_key x"
    using best_label_result [OF counts(2), of "- 1" None] by (auto simp: r)
  have num: "l \<noteq> NaN" "0 < n" using l(3) counts(2) by (auto simp: counts_inv_def)
  have n: "votes evs is l = n" using tally [OF num(1)] tally_at [OF counts(2) l(3)] by simp
  have "votes evs is l' < n \<or> votes evs is l' = n \<and> \<not> fl_less l' l" if l': "l' \<noteq> NaN" for l'
  proof (cases "votes evs is l' = 0")
    case True
    then show ?thesis using num(2) by simp
  next
    case False
    then have "0 < tally l' counts" using tally [OF l'] by simp
    then obtain z k where z: "(z, k) \<in> set counts" "fl_key z = fl_key l'" using tally_not_zero by blast
    then have "tally l' counts = k" using tally_at [OF counts(2) z(1)] by (simp add: tally_def)
    moreover have "k \<le> n" "k = n \<longrightarrow> fl_key l \<le> fl_key z" using z(1) l(2,4,5) by auto
    ultimately show ?thesis using z(2) num(1) tally [OF l'] l' by (auto simp: fl_less_key)
  qed
  then show ?thesis using num n counts(1) r l(1,2) by (intro exI [of _ l]) (simp add: vote_def)
qed

section \<open>When a classification is defined\<close>

lemma normalize_fits:
  "length v = length (normalization_mul_vector s) \<Longrightarrow> length v = length (normalization_add_vector s) \<Longrightarrow>
    \<exists>w. normalizeEvent v s = Inr w \<and> length w = length v"
  by (simp add: normalizeEvent_def)

lemma search_query:
  assumes "nns s = Search t" and "searchable t s" and "length (feature_vector ev) = mat_rows (labeled_matrix s)"
    and "neighbours_considered < length (labeled s)"
  obtains tr query where "tree_of t (labeled_matrix s) (2 ^ 31 - 1) tr" and "mat_cols (labeled_matrix s) \<noteq> []"
    and "length (mat_cols (labeled_matrix s)) \<le> length (labeled s)" and "normalizeEvent (feature_vector ev) s = Inr query"
    and "dim t \<le> length query" and "cloud t = labeled_matrix s"
proof -
  obtain tr where tr: "tree_of t (labeled_matrix s) (2 ^ 31 - 1) tr" using assms(2) by (auto simp: searchable_def)
  have m: "mat_cols (labeled_matrix s) \<noteq> []" "length (mat_cols (labeled_matrix s)) \<le> length (labeled s)"
    using assms(2) by (auto simp: searchable_def)
  obtain query where q: "normalizeEvent (feature_vector ev) s = Inr query" "length query = mat_rows (labeled_matrix s)"
    using normalize_fits [of "feature_vector ev" s] assms(2,3) by (auto simp: searchable_def)
  have dim: "dim t \<le> length query" "cloud t = labeled_matrix s" using tr q(2) by (auto simp: tree_of_def)
  show ?thesis by (rule that) (fact tr m q(1) dim)+
qed

lemma search_too_few:
  assumes "nns s = Search t" and "searchable t s" and "length (feature_vector ev) = mat_rows (labeled_matrix s)"
    and "neighbours_considered < length (labeled s)"
    and "length (mat_cols (labeled_matrix s)) \<le> neighbours_considered"
  shows "classifyOneEvent ev s = Some (Inl Std_exception)"
proof (rule search_query [OF assms(1-4)])
  fix tr query
  assume m: "mat_cols (labeled_matrix s) \<noteq> []" and q: "normalizeEvent (feature_vector ev) s = Inr query"
    and dim: "dim t \<le> length query" "cloud t = labeled_matrix s"
  have "knn_vector stl_heap float_scalars t query neighbours_considered fl_zero 0 (Inf False) = Some (Inl Std_exception)"
    using assms(5) dim m by (simp add: knn_vector_def knn_def checkSizesKnn_def Let_def has_flag_def)
  then show ?thesis using q assms(1,4) by (simp add: classifyOneEvent_def)
qed

lemma search_found:
  assumes "nns s = Search t" and "searchable t s" and "length (feature_vector ev) = mat_rows (labeled_matrix s)"
    and "neighbours_considered < length (labeled s)"
    and "neighbours_considered < length (mat_cols (labeled_matrix s))"
  obtains query col touched where "normalizeEvent (feature_vector ev) s = Inr query"
    and "knn_vector stl_heap float_scalars t query neighbours_considered fl_zero 0 (Inf False) = Some (Inr (col, touched))"
    and "length col = neighbours_considered" and "set (map entry_index col) \<subseteq> {..<length (labeled s)}"
    and "classifyOneEvent ev s = Some (vote (labeled s) (map entry_index col) ev)"
proof (rule search_query [OF assms(1-4)])
  fix tr query
  assume tr: "tree_of t (labeled_matrix s) (2 ^ 31 - 1) tr" and m: "mat_cols (labeled_matrix s) \<noteq> []"
    "length (mat_cols (labeled_matrix s)) \<le> length (labeled s)" and q: "normalizeEvent (feature_vector ev) s = Inr query"
    and dim: "dim t \<le> length query"
  have "0 < neighbours_considered" by (simp add: neighbours_considered_def)
  from stl.knn_vector_ends [OF tr m(1) this assms(5) dim, of float_scalars fl_zero "Inf False"]
  obtain col c where col: "knn_vector stl_heap float_scalars t query neighbours_considered fl_zero 0 (Inf False) = Some (Inr (col, c))"
    "length col = neighbours_considered" "entry_index ` set col \<subseteq> {..<length (mat_cols (labeled_matrix s))}" by blast
  have "set (map entry_index col) \<subseteq> {..<length (labeled s)}" using m(2) col(3) by (auto simp: image_subset_iff)
  moreover have "classifyOneEvent ev s = Some (vote (labeled s) (map entry_index col) ev)"
    using q assms(1,4) col(1) by (simp add: classifyOneEvent_def)
  ultimately show ?thesis using q col(1,2) that by metis
qed

lemma search_outcome:
  assumes "nns s = Search t" and "searchable t s" and "length (feature_vector ev) = mat_rows (labeled_matrix s)"
    and "neighbours_considered < length (labeled s)"
    and "numbered (labeled s)"
  shows "\<exists>r. classifyOneEvent ev s = Some r \<and> (\<forall>e. r = Inl e \<longrightarrow> is_exception e)"
proof (cases "length (mat_cols (labeled_matrix s)) \<le> neighbours_considered")
  case True
  then show ?thesis using search_too_few [OF assms(1-4)] by (simp add: is_exception_def)
next
  case False
  then have "neighbours_considered < length (mat_cols (labeled_matrix s))" by simp
  note found = search_found [OF assms(1-4) this]
  show ?thesis
  proof (rule found)
    fix query col touched
    assume col: "length col = neighbours_considered" "set (map entry_index col) \<subseteq> {..<length (labeled s)}"
      "classifyOneEvent ev s = Some (vote (labeled s) (map entry_index col) ev)"
    have "map entry_index col \<noteq> []" using col(1) by (auto simp: neighbours_considered_def)
    from vote_result [OF assms(5) col(2) this, of ev] obtain l where "vote (labeled s) (map entry_index col) ev = Inr l" by blast
    then show ?thesis using col(3) by simp
  qed
qed

section \<open>Sequences of operations\<close>

datatype 'a request =
    Push_event "'a event" | Add_label label_time_pair | Add_label_by_id nat f64 | Set_label_manager label_manager
  | Reclassify nat | Start classification_config | Start_with_labels "string option" classification_config
  | Stop | Join | Run_round

fun perform :: "'a surroundings \<Rightarrow> 'a request \<Rightarrow> ('a, unit) operation" where
  "perform env (Push_event ev) = pushEvent ev"
| "perform env (Add_label l) = addLabel l"
| "perform env (Add_label_by_id eid l) = op_bind (addLabelById eid l) (\<lambda>_. op_return ())"
| "perform env (Set_label_manager lm) = setEventLabelManager lm"
| "perform env (Reclassify eid) = reclassify eid"
| "perform env (Start config) = startClassification config"
| "perform env (Start_with_labels content config) = startClassification_labels content config"
| "perform env Stop = stop_flag"
| "perform env Join = join_runner"
| "perform env Run_round = run_round env"

inductive classifier_runs ::
  "'a surroundings \<Rightarrow> ('a data_classifier \<Rightarrow> 'a request \<Rightarrow> 'a data_classifier \<Rightarrow> bool) \<Rightarrow> 'a data_classifier \<Rightarrow> bool"
  for env allowed where
  new_classifier: "classifier_runs env allowed DataClassifier"
| next_request: "classifier_runs env allowed s \<Longrightarrow> perform env req s = Some (s', r) \<Longrightarrow> survives r \<Longrightarrow> allowed s req s' \<Longrightarrow>
    classifier_runs env allowed s'"

definition all_labelled :: "label_manager \<Rightarrow> bool" where
  "all_labelled lm \<longleftrightarrow> (\<forall>ev \<in> set (labeled_events lm). event_label (event_meta_data ev) \<noteq> None)"

definition labels_grow :: "label_manager \<Rightarrow> label_manager \<Rightarrow> bool" where
  "labels_grow lm lm' \<longleftrightarrow> length (labeled_events lm) \<le> length (labeled_events lm') \<and> (all_labelled lm \<longrightarrow> all_labelled lm')"

lemma labels_grow_simps [simp]:
  "labels_grow lm lm" "labels_grow lm (addUnLabeledEvent ev lm)" "labels_grow lm (addClassifiedEvent ev lm)"
  "labels_grow lm (addLabeledEvent ev l lm)" "labels_grow lm (move_to_labeled i l lm)" "labels_grow lm (setEvent eid ev lm)"
  by (auto simp: labels_grow_def all_labelled_def addUnLabeledEvent_def addClassifiedEvent_def addLabeledEvent_def move_to_labeled_def
      setEvent_def split: option.split)

lemma labels_grow_load [simp]: "labels_grow lm (loadLabelsFromFile content lm)"
  by (cases content) (simp_all add: labels_grow_def all_labelled_def loadLabelsFromFile_def del: read_labels.simps)

lemma labels_grow_find: "findLabelAndAddEvent ev lm = (b, lm') \<Longrightarrow> labels_grow lm lm' \<and> (b \<longrightarrow> labeled_events lm' \<noteq> [])"
  by (auto simp: findLabelAndAddEvent_def Let_def addLabeledEvent_def split: option.splits)
    (auto simp: labels_grow_def all_labelled_def)

lemma labels_grow_time [simp]: "labels_grow lm (snd (addLabel_time l lm))"
  by (auto simp: addLabel_time_def split: option.split)

lemma labels_grow_id: "addLabel_id eid l lm = (b, lm') \<Longrightarrow> labels_grow lm lm' \<and> (b \<longrightarrow> labeled_events lm' \<noteq> [])"
  by (auto simp: addLabel_id_def move_to_labeled_def addLabeledEvent_def split: option.splits dest: find_index_SomeD)
    (auto simp: labels_grow_def all_labelled_def dest: set_update_subset_insert [THEN subsetD])

text \<open>What the invariant needs of an operation that leaves the matrix alone, and of a new matrix.\<close>

definition same_matrix :: "'a data_classifier \<Rightarrow> 'a data_classifier \<Rightarrow> bool" where
  "same_matrix s s' \<longleftrightarrow> classification_config s' = classification_config s \<and> nns s' = nns s \<and> labeled_matrix s' = labeled_matrix s \<and>
     normalization_mul_vector s' = normalization_mul_vector s \<and> normalization_add_vector s' = normalization_add_vector s"

lemma classifier_inv_grow:
  assumes "classifier_inv s" and "same_matrix s s'" and "labels_grow (event_label_manager s) (event_label_manager s')"
  shows "classifier_inv s'"
  using assms by (auto simp: classifier_inv_def same_matrix_def labels_grow_def all_labelled_def searchable_def split: search_pointer.split)

definition keeps_labels :: "('a, 'r) operation \<Rightarrow> bool" where
  "keeps_labels m \<longleftrightarrow> (\<forall>s s' r. m s = Some (s', r) \<longrightarrow> same_labels s s')"

lemma keeps_labelsD: "keeps_labels m \<Longrightarrow> m s = Some (s', r) \<Longrightarrow> same_labels s s'"
  by (simp add: keeps_labels_def)

lemma same_labels_trans: "same_labels s s' \<Longrightarrow> same_labels s' s'' \<Longrightarrow> same_labels s s''"
  by (simp add: same_labels_def)

lemma keeps_labels_bind:
  assumes "keeps_labels m" and "\<And>x. keeps_labels (f x)"
  shows "keeps_labels (op_bind m f)"
  unfolding keeps_labels_def
proof (intro allI impI)
  fix s s' r
  assume run: "op_bind m f s = Some (s', r)"
  then obtain a x where m: "m s = Some (a, x)" by (cases "m s") auto
  show "same_labels s s'"
  proof (cases x)
    case (Inl e)
    then show ?thesis using run m keeps_labelsD [OF assms(1) m] by simp
  next
    case (Inr y)
    then have "f y a = Some (s', r)" using run m by simp
    then show ?thesis using keeps_labelsD [OF assms(1) m] keeps_labelsD [OF assms(2)] same_labels_trans by blast
  qed
qed

lemma keeps_labels_steps:
  "keeps_labels (op_lift g)" "keeps_labels (set_matrix m)" "keeps_labels (generateNormalizationVectors m)"
  "keeps_labels normalizeMatrix" "keeps_labels create_search_tree" "keeps_labels (pushToMatrix env v)"
  by (auto simp: keeps_labels_def same_labels_def set_matrix_def generateNormalizationVectors_def generateFirstNormalizationVectors_def
      generateRescaleNormalizationVectors_def generateStandardizeNormalizationVectors_def normalizeMatrix_def create_search_tree_def
      pushToMatrix_def op_bind_def Let_def split: if_splits list.splits sum.splits search_object.splits)

lemma keeps_labels_regenerate: "keeps_labels regenerateMatrix"
proof -
  have "keeps_labels (op_bind (op_lift generateMatrixFromLabeledEvents) (\<lambda>m. op_bind (set_matrix m) (\<lambda>_.
    op_bind (generateNormalizationVectors m) (\<lambda>_. op_bind normalizeMatrix (\<lambda>_. create_search_tree)))))"
    by (intro keeps_labels_bind keeps_labels_steps)
  then show ?thesis by (auto simp: keeps_labels_def regenerateMatrix_def same_labels_def)
qed

lemma keeps_labels_add_event: "keeps_labels (addEventToNormalizedMatrix env ev)"
  unfolding addEventToNormalizedMatrix_def Let_def
  by (intro keeps_labels_bind keeps_labels_steps) (auto intro: keeps_labels_bind keeps_labels_steps keeps_labels_regenerate)

lemma classifier_inv_regenerate:
  assumes "regenerateMatrix s = Some (s', r)" and "survives r" and "classifier_fits s'" and "labeled s \<noteq> []"
    and "classification_config s = ClassificationConfig" and "all_labelled (event_label_manager s)"
  shows "classifier_inv s'"
proof -
  have same: "same_labels s s'" using keeps_labelsD [OF keeps_labels_regenerate assms(1)] .
  then have "classifier_fits s" using assms(3) by (simp add: same_labels_def classifier_fits_def)
  then show ?thesis using regenerate_result [OF assms(1,5) _ assms(4)] same assms(2,5,6)
    by (auto simp: survives_def same_labels_def classifier_inv_def all_labelled_def split: sum.splits)
qed

lemma default_regenerates:
  "classification_config s = ClassificationConfig \<Longrightarrow> addEventToNormalizedMatrix env ev s = regenerateMatrix s"
  by (simp add: addEventToNormalizedMatrix_def needToRegenerateMatrixForVector_def ClassificationConfig_def Let_def)

section \<open>Every operation keeps the invariant\<close>

lemma file_classification_inv:
  assumes "classifyOneEventAndPushToLabelManager ev s = Some (s', r)" and "classifier_inv s"
  shows "classifier_inv s'"
proof -
  have "same_matrix s s'" "labels_grow (event_label_manager s) (event_label_manager s')"
    using assms(1) by (auto simp: classifyOneEventAndPushToLabelManager_def same_matrix_def Let_def labels_grow_def all_labelled_def
        addUnLabeledEvent_def addClassifiedEvent_def split: sum.splits if_splits bind_splits)
  then show ?thesis using classifier_inv_grow [OF assms(2)] by blast
qed

lemma process_inv:
  assumes "processOneEvent env ev s = Some (s', r)" and "survives r" and "classifier_fits s'" and "classifier_inv s"
  shows "classifier_inv s'"
proof (cases "extractFeatures (env_libm env) (env_ampere env) (env_volt env) ev (the_extractor s)")
  case (Inl e)
  then show ?thesis using assms(1,4) by (simp add: processOneEvent_def)
next
  case (Inr p)
  obtain features fe where p: "p = (features, fe)" by (cases p)
  obtain b lm where find: "findLabelAndAddEvent features (event_label_manager s) = (b, lm)"
    by (cases "findLabelAndAddEvent features (event_label_manager s)")
  note grow = labels_grow_find [OF find]
  define s1 where "s1 = s\<lparr>the_extractor := fe\<rparr>"
  have inv1: "classifier_inv s1"
    using assms(4) by (rule classifier_inv_grow) (simp_all add: s1_def same_matrix_def)
  show ?thesis
  proof (cases b)
    case True
    define s2 where "s2 = s1\<lparr>event_label_manager := lm\<rparr>"
    have config: "classification_config s2 = ClassificationConfig" using assms(4) by (simp add: s1_def s2_def classifier_inv_def)
    have "regenerateMatrix s2 = Some (s', r)"
      using assms(1) Inr p find True default_regenerates [OF config] by (simp add: processOneEvent_def s1_def s2_def)
    moreover have "all_labelled lm" using grow assms(4) by (auto simp: labels_grow_def all_labelled_def classifier_inv_def)
    ultimately show ?thesis
      using classifier_inv_regenerate [OF _ assms(2,3), of s2] grow True config by (simp add: s2_def)
  next
    case False
    then have "classifyOneEventAndPushToLabelManager features s1 = Some (s', r)"
      using assms(1) Inr p find by (simp add: processOneEvent_def s1_def)
    then show ?thesis using file_classification_inv inv1 by blast
  qed
qed

lemma request_inv:
  assumes "perform env req s = Some (s', r)" and "survives r" and "classifier_fits s'" and "classifier_inv s"
    and "\<And>lm. req = Set_label_manager lm \<Longrightarrow> all_labelled lm \<and> labeled_events lm \<noteq> []"
  shows "classifier_inv s'"
proof -
  have config: "classification_config s = ClassificationConfig" and labels: "all_labelled (event_label_manager s)"
    using assms(4) by (auto simp: classifier_inv_def all_labelled_def)
  note grow = classifier_inv_grow [OF assms(4)]
  show ?thesis
  proof (cases req)
    case (Push_event ev)
    then show ?thesis using assms(1) by (intro grow) (auto simp: pushEvent_def same_matrix_def)
  next
    case (Add_label l)
    then show ?thesis using assms(1) by (intro grow) (auto simp: addLabel_def same_matrix_def)
  next
    case (Add_label_by_id eid l)
    obtain b lm where id: "addLabel_id eid l (event_label_manager s) = (b, lm)"
      by (cases "addLabel_id eid l (event_label_manager s)")
    define s1 where "s1 = s\<lparr>event_label_manager := lm\<rparr>"
    show ?thesis
    proof (cases b)
      case True
      then have "addLabelById eid l s = op_bind regenerateMatrix (\<lambda>_. op_return True) s1" using id by (simp add: addLabelById_def s1_def)
      then obtain r' where "regenerateMatrix s1 = Some (s', r')" "survives r'"
        using assms(1,2) Add_label_by_id by (auto simp: op_bind_def survives_def split: option.splits sum.splits)
      then show ?thesis
        using classifier_inv_regenerate [OF _ _ assms(3), of s1 r'] labels_grow_id [OF id] True config labels
        by (simp add: s1_def labels_grow_def)
    next
      case False
      then have "s' = s1" using assms(1) Add_label_by_id id by (simp add: addLabelById_def s1_def op_bind_def)
      then show ?thesis using labels_grow_id [OF id] by (intro grow) (simp_all add: s1_def same_matrix_def)
    qed
  next
    case (Set_label_manager lm)
    define s1 where "s1 = s\<lparr>event_label_manager := lm\<rparr>"
    have "regenerateMatrix s1 = Some (s', r)" using assms(1) Set_label_manager by (simp add: setEventLabelManager_def s1_def)
    then show ?thesis
      using classifier_inv_regenerate [OF _ assms(2,3), of s1] assms(5) [OF Set_label_manager] config by (simp add: s1_def)
  next
    case (Reclassify eid)
    then show ?thesis using assms(1)
      by (intro grow) (auto simp: reclassify_def same_matrix_def split: option.splits sum.splits bind_splits)
  next
    case (Start c)
    then show ?thesis using assms(1)
      by (intro grow) (auto simp: startClassification_def same_matrix_def Let_def split: if_splits)
  next
    case (Start_with_labels content c)
    then show ?thesis using assms(1)
      by (intro grow) (auto simp: startClassification_labels_def join_runner_def startClassification_def same_matrix_def Let_def op_bind_def
          split: if_splits)
  next
    case Stop
    then show ?thesis using assms(1) by (intro grow) (auto simp: stop_flag_def same_matrix_def)
  next
    case Join
    then show ?thesis using assms(1) by (intro grow) (auto simp: join_runner_def same_matrix_def split: if_splits)
  next
    case Run_round
    show ?thesis
    proof (cases "continue_analyzing s")
      case False
      then show ?thesis using assms(1) Run_round by (intro grow) (auto simp: run_round_def same_matrix_def split: if_splits)
    next
      case True
      then obtain s1 r1 where p: "processOneEvent env (last (event_stack s)) s = Some (s1, r1)"
        using assms(1) Run_round by (auto simp: run_round_def split: if_splits option.splits)
      then have r1: "r1 = Inr ()" "s' = s1\<lparr>event_stack := butlast (event_stack s1)\<rparr>"
        using assms(1,2) Run_round True
        by (auto simp: run_round_def survives_def is_exception_def split: if_splits sum.splits)
      have "classifier_inv s1" using process_inv [OF p _ _ assms(4)] assms(3) r1 by (simp add: survives_def classifier_fits_def)
      then show ?thesis using r1(2) classifier_inv_grow [of s1 s'] by (simp add: same_matrix_def)
    qed
  qed
qed

definition sound_request :: "'a data_classifier \<Rightarrow> 'a request \<Rightarrow> 'a data_classifier \<Rightarrow> bool" where
  "sound_request s req s' \<longleftrightarrow> classifier_fits s' \<and>
     (case req of Set_label_manager lm \<Rightarrow> all_labelled lm \<and> labeled_events lm \<noteq> [] | _ \<Rightarrow> True)"

lemma runs_inv: "classifier_runs env sound_request s \<Longrightarrow> classifier_inv s"
proof (induction rule: classifier_runs.induct)
  case new_classifier
  show ?case by (simp add: classifier_inv_def DataClassifier_def EventLabelManager_def)
next
  case (next_request s req s' r)
  have "classifier_fits s'" using next_request(4) by (simp add: sound_request_def)
  moreover have "all_labelled lm \<and> labeled_events lm \<noteq> []" if "req = Set_label_manager lm" for lm
    using next_request(4) that by (simp add: sound_request_def)
  ultimately show ?case using request_inv [OF next_request(2,3) _ next_request(5)] by blast
qed

section \<open>What becomes of a classification\<close>

definition unclassified :: "event_features \<Rightarrow> bool" where
  "unclassified ev \<longleftrightarrow> event_label (event_meta_data ev) \<in> {None, Some fl_zero}"

definition lost_inv :: "'a data_classifier \<Rightarrow> bool" where
  "lost_inv s \<longleftrightarrow> (\<forall>ev \<in> set (event_stack s). event_label (event_meta ev) = None) \<and>
     (\<forall>ev \<in> set (unlabeled_events (event_label_manager s)) \<union> set (event_classified s). unclassified ev)"

definition detected_only :: "'a data_classifier \<Rightarrow> 'a request \<Rightarrow> 'a data_classifier \<Rightarrow> bool" where
  "detected_only s req s' \<longleftrightarrow>
     (case req of Push_event ev \<Rightarrow> event_label (event_meta ev) = None | Set_label_manager lm \<Rightarrow> False | Reclassify eid \<Rightarrow> False | _ \<Rightarrow> True)"

lemma set_swap_pop: "i < length xs \<Longrightarrow> set (swap_pop xs i) \<subseteq> set xs"
  using mset_swap_pop [of i xs] by (metis in_diffD insert_DiffM2 set_mset_add_mset_insert set_mset_mset subset_insertI)

lemma unlabeled_shrink:
  "set (unlabeled_events (snd (addLabel_time l lm))) \<subseteq> set (unlabeled_events lm)"
  "set (unlabeled_events (snd (addLabel_id eid l2 lm))) \<subseteq> set (unlabeled_events lm)"
  by (auto simp: addLabel_time_def addLabel_id_def move_to_labeled_def addLabeledEvent_def split: option.splits
      dest!: find_index_SomeD set_swap_pop [THEN subsetD])

lemma unlabeled_find: "findLabelAndAddEvent ev lm = (b, lm') \<Longrightarrow> unlabeled_events lm' = unlabeled_events lm"
  by (auto simp: findLabelAndAddEvent_def Let_def addLabeledEvent_def split: option.splits)

lemma unlabeled_load: "unlabeled_events (loadLabelsFromFile content lm) = unlabeled_events lm"
  by (cases content) (simp_all add: loadLabelsFromFile_def del: read_labels.simps)

lemma lost_shrink:
  assumes "lost_inv s" and "set (event_stack s') \<subseteq> set (event_stack s)" and "event_classified s' = event_classified s"
    and "set (unlabeled_events (event_label_manager s')) \<subseteq> set (unlabeled_events (event_label_manager s))"
  shows "lost_inv s'"
  using assms unfolding lost_inv_def by auto

lemma lost_regenerate: "keeps_labels m \<Longrightarrow> m s = Some (s', r) \<Longrightarrow> lost_inv s \<Longrightarrow> lost_inv s'"
  by (drule (1) keeps_labelsD) (simp add: same_labels_def lost_inv_def)

lemma lost_file:
  assumes "classifyOneEventAndPushToLabelManager ev s = Some (s', r)" and "lost_inv s" and "unclassified ev"
  shows "lost_inv s'"
  using assms
  by (auto simp: classifyOneEventAndPushToLabelManager_def lost_inv_def Let_def addUnLabeledEvent_def addClassifiedEvent_def
      unclassified_def split: sum.splits if_splits bind_splits)

lemma lost_process:
  assumes "processOneEvent env ev s = Some (s', r)" and "lost_inv s" and "event_label (event_meta ev) = None"
  shows "lost_inv s'"
proof (cases "extractFeatures (env_libm env) (env_ampere env) (env_volt env) ev (the_extractor s)")
  case (Inl e)
  then show ?thesis using assms(1,2) by (simp add: processOneEvent_def)
next
  case (Inr p)
  obtain features fe where p: "p = (features, fe)" by (cases p)
  have meta: "event_meta_data features = event_meta ev"
    using Inr p by (auto simp: extractFeatures_def res_bind_eq_Inr_iff EventFeatures_def)
  obtain b lm where find: "findLabelAndAddEvent features (event_label_manager s) = (b, lm)"
    by (cases "findLabelAndAddEvent features (event_label_manager s)")
  define s1 where "s1 = s\<lparr>the_extractor := fe\<rparr>"
  have inv1: "lost_inv s1" "lost_inv (s1\<lparr>event_label_manager := lm\<rparr>)"
    using assms(2) unlabeled_find [OF find] by (simp_all add: s1_def lost_inv_def)
  show ?thesis
  proof (cases b)
    case True
    then have "addEventToNormalizedMatrix env features (s1\<lparr>event_label_manager := lm\<rparr>) = Some (s', r)"
      using assms(1) Inr p find by (simp add: processOneEvent_def s1_def)
    then show ?thesis using lost_regenerate [OF keeps_labels_add_event _ inv1(2)] by blast
  next
    case False
    then have "classifyOneEventAndPushToLabelManager features s1 = Some (s', r)"
      using assms(1) Inr p find by (simp add: processOneEvent_def s1_def)
    then show ?thesis by (rule lost_file) (use inv1(1) meta assms(3) in \<open>simp_all add: unclassified_def\<close>)
  qed
qed

lemma lost_request:
  assumes "perform env req s = Some (s', r)" and "survives r" and "detected_only s req s'" and "lost_inv s"
  shows "lost_inv s'"
proof (cases req)
  case (Push_event ev)
  then show ?thesis using assms by (auto simp: pushEvent_def lost_inv_def detected_only_def)
next
  case (Add_label l)
  then show ?thesis using assms(1)
    by (intro lost_shrink [OF assms(4)]) (auto simp: addLabel_def dest: unlabeled_shrink(1) [THEN subsetD])
next
  case (Add_label_by_id eid l)
  define s1 where "s1 = s\<lparr>event_label_manager := snd (addLabel_id eid l (event_label_manager s))\<rparr>"
  have inv1: "lost_inv s1"
    by (intro lost_shrink [OF assms(4)]) (auto simp: s1_def dest: unlabeled_shrink(2) [THEN subsetD])
  have "keeps_labels (op_bind (op_bind regenerateMatrix (\<lambda>_. op_return True)) (\<lambda>_. op_return ()))"
    by (intro keeps_labels_bind keeps_labels_regenerate) (auto simp: keeps_labels_def same_labels_def)
  note kept = lost_regenerate [OF this, of s1 s' r]
  obtain b lm where id: "addLabel_id eid l (event_label_manager s) = (b, lm)"
    by (cases "addLabel_id eid l (event_label_manager s)")
  show ?thesis
  proof (cases b)
    case True
    then have "addLabelById eid l s = op_bind regenerateMatrix (\<lambda>_. op_return True) s1"
      using id by (simp add: addLabelById_def s1_def)
    then have "op_bind (op_bind regenerateMatrix (\<lambda>_. op_return True)) (\<lambda>_. op_return ()) s1 = Some (s', r)"
      using assms(1) Add_label_by_id by (simp add: op_bind_def)
    then show ?thesis using kept inv1 by blast
  next
    case False
    then have "s' = s1" using assms(1) Add_label_by_id id by (simp add: addLabelById_def s1_def op_bind_def)
    then show ?thesis using inv1 by simp
  qed
next
  case (Start c)
  then show ?thesis using assms(1)
    by (intro lost_shrink [OF assms(4)]) (auto simp: startClassification_def Let_def split: if_splits)
next
  case (Start_with_labels content c)
  then show ?thesis using assms(1)
    by (intro lost_shrink [OF assms(4)]) (auto simp: startClassification_labels_def join_runner_def startClassification_def Let_def
        op_bind_def unlabeled_load split: if_splits)
next
  case Stop
  then show ?thesis using assms(1) by (intro lost_shrink [OF assms(4)]) (auto simp: stop_flag_def)
next
  case Join
  then show ?thesis using assms(1) by (intro lost_shrink [OF assms(4)]) (auto simp: join_runner_def split: if_splits)
next
  case Run_round
  show ?thesis
  proof (cases "continue_analyzing s")
    case False
    then show ?thesis using assms(1) Run_round by (intro lost_shrink [OF assms(4)]) (auto simp: run_round_def split: if_splits)
  next
    case True
    then have "event_stack s \<noteq> []" using assms(1) Run_round by (auto simp: run_round_def split: if_splits)
    then have "last (event_stack s) \<in> set (event_stack s)" by simp
    then have new: "event_label (event_meta (last (event_stack s))) = None" using assms(4) by (simp add: lost_inv_def)
    obtain s1 r1 where p: "processOneEvent env (last (event_stack s)) s = Some (s1, r1)"
      using assms(1) Run_round True by (auto simp: run_round_def split: if_splits option.splits)
    have inv1: "lost_inv s1" using lost_process [OF p assms(4) new] .
    have "s' = s1\<lparr>event_stack := butlast (event_stack s1)\<rparr> \<or> s' = s1"
      using assms(1) Run_round True p by (auto simp: run_round_def split: if_splits sum.splits)
    moreover have "set (butlast (event_stack s1)) \<subseteq> set (event_stack s1)" by (auto dest: in_set_butlastD)
    ultimately show ?thesis using lost_shrink [OF inv1, of s'] inv1 by auto
  qed
qed (use assms(3) in \<open>simp_all add: detected_only_def\<close>)

section \<open>A classifier with seven labelled events\<close>

lemma normalize_columns_fit:
  "\<forall>c \<in> set cs. length c \<le> length (normalization_mul_vector s) \<and> length c \<le> length (normalization_add_vector s) \<Longrightarrow>
    \<exists>cs'. normalize_columns cs s = Inr cs'"
  by (induction cs) (auto simp: normalizeEvent_def not_less)

lemma regenerate_small:
  assumes "classification_config s = ClassificationConfig" and "labeled s \<noteq> []" and "length (labeled s) \<le> 8" and "0 < n"
    and "\<forall>ev \<in> set (labeled s). length (feature_vector ev) = n"
  shows "\<exists>s' t. regenerateMatrix s = Some (s', Inr ()) \<and> nns s' = Search t \<and> event_label_manager s' = event_label_manager s \<and>
    mat_rows (labeled_matrix s') = n \<and> length (mat_cols (labeled_matrix s')) = length (labeled s)"
proof -
  have last: "length (feature_vector (last (labeled s))) = n" using assms(2,5) by simp
  define m where "m = \<lparr>mat_rows = n, mat_cols = map feature_vector (labeled s)\<rparr>"
  have gen: "generateMatrixFromLabeledEvents s = Inr m"
    using assms(2,5) by (auto simp: generateMatrixFromLabeledEvents_def last m_def)
  define s1 where "s1 = s\<lparr>labeled_matrix := m, nns := dangle (nns s)\<rparr>"
  obtain mv av where vectors: "generateNormalizationVectors m s1 = Some (s1\<lparr>normalization_mul_vector := mv, normalization_add_vector := av\<rparr>, Inr ())"
    "length mv = n" "length av = n"
    using generate_vectors [of s1 m] assms by (auto simp: s1_def m_def mat_wf_def)
  define s2 where "s2 = s1\<lparr>normalization_mul_vector := mv, normalization_add_vector := av\<rparr>"
  obtain cs where cs: "normalize_columns (mat_cols m) s2 = Inr cs"
    using normalize_columns_fit [of "mat_cols m" s2] assms(5) vectors(2,3) by (auto simp: s2_def m_def)
  have len: "length cs = length (labeled s)" using map_eq_imp_length_eq [OF normalize_columns_lengths [OF cs]] by (simp add: m_def)
  then have nonempty: "cs \<noteq> []" using assms(2) by auto
  define s3 where "s3 = s2\<lparr>labeled_matrix := m\<lparr>mat_cols := cs\<rparr>\<rparr>"
  have norm: "normalizeMatrix s2 = Some (s3, Inr ())" using cs by (simp add: normalizeMatrix_def s1_def s2_def s3_def)
  have "\<exists>t. create_kd_tree float_scalars (labeled_matrix s3) (2 ^ 31 - 1) 0 8 = Inr t"
    using len assms(2-4) nonempty by (simp add: create_kd_tree_def NearestNeighbourSearch_def s3_def m_def Let_def)
  then obtain t where "create_search_tree s3 = Some (s3\<lparr>nns := Search t\<rparr>, Inr ())"
    by (auto simp: create_search_tree_def createKDTreeTreeHeap_def)
  moreover have "regenerateMatrix s = create_search_tree s3"
    using assms(2) gen vectors(1) norm by (simp add: regenerateMatrix_def set_matrix_def s1_def s2_def)
  ultimately show ?thesis using len by (simp add: s1_def s2_def s3_def m_def)
qed

definition sample_event :: "nat \<Rightarrow> event_features" where
  "sample_event i = \<lparr>event_meta_data = (EventMetaData 0 default_power_meta_data)\<lparr>event_label := Some (Fin False (of_nat (i div 4)))\<rparr>,
     feature_vector = [Fin False (of_nat i)]\<rparr>"

definition sample_manager :: label_manager where
  "sample_manager = \<lparr>labeled_events = map sample_event [0..<7], unlabeled_events = [], labels = []\<rparr>"

lemma sample_manager_facts:
  "labeled_events sample_manager \<noteq> []" "length (labeled_events sample_manager) = 7" "all_labelled sample_manager"
  "numbered (labeled_events sample_manager)" "\<forall>ev \<in> set (labeled_events sample_manager). length (feature_vector ev) = 1"
  by (auto simp: sample_manager_def sample_event_def all_labelled_def numbered_def)

lemma sample_run:
  obtains s t where "classifier_runs env sound_request s" and "nns s = Search t" and "event_label_manager s = sample_manager"
    and "mat_rows (labeled_matrix s) = 1" and "length (mat_cols (labeled_matrix s)) = 7"
proof -
  define s0 :: "'a data_classifier" where "s0 = DataClassifier\<lparr>event_label_manager := sample_manager\<rparr>"
  obtain s t where s: "regenerateMatrix s0 = Some (s, Inr ())" "nns s = Search t" "event_label_manager s = sample_manager"
    "mat_rows (labeled_matrix s) = 1" "length (mat_cols (labeled_matrix s)) = 7"
    using regenerate_small [of s0 1] sample_manager_facts by (auto simp: s0_def DataClassifier_def)
  have "getStorageBitCount 1 = 1" by (simp add: getStorageBitCount_def storage_bits.simps)
  then have "sound_request DataClassifier (Set_label_manager sample_manager) s"
    using s(3) sample_manager_facts by (simp add: sound_request_def classifier_fits_def)
  moreover have "perform env (Set_label_manager sample_manager) DataClassifier = Some (s, Inr ())"
    using s(1) by (simp add: setEventLabelManager_def s0_def)
  ultimately have "classifier_runs env sound_request s"
    using next_request [OF new_classifier] by (metis old.sum.simps(6) survives_def)
  then show ?thesis using s that by blast
qed

section \<open>Theorems\<close>



text \<open>
  C36: a classification finds the five nearest points the search reports and gives the event the
  first of the labels most of them have, with the share of the votes as its certainty.
\<close>

theorem classification_is_majority:
  assumes "classifier_runs env sound_request s" and "numbered (labeled s)" and "nns s = Search t"
    and "length (feature_vector ev) = mat_rows (labeled_matrix s)" and "neighbours_considered < length (mat_cols (labeled_matrix s))"
  shows "\<exists>query col touched l. normalizeEvent (feature_vector ev) s = Inr query \<and>
    knn_vector stl_heap float_scalars t query neighbours_considered fl_zero 0 (Inf False) = Some (Inr (col, touched)) \<and>
    length col = 5 \<and> (\<forall>e \<in> set col. entry_index e < length (labeled s)) \<and>
    classifyOneEvent ev s = Some (Inr (classified_as (l, int (votes (labeled s) (map entry_index col) l)) ev)) \<and>
    0 < votes (labeled s) (map entry_index col) l \<and>
    (\<forall>l'. l' \<noteq> NaN \<longrightarrow> votes (labeled s) (map entry_index col) l' < votes (labeled s) (map entry_index col) l \<or>
       votes (labeled s) (map entry_index col) l' = votes (labeled s) (map entry_index col) l \<and> \<not> fl_less l' l)"
proof -
  have s: "searchable t s" using runs_inv [OF assms(1)] assms(3) by (simp add: classifier_inv_def)
  then have many: "neighbours_considered < length (labeled s)" using assms(5) by (simp add: searchable_def)
  show ?thesis
  proof (rule search_found [OF assms(3) s assms(4) many assms(5)])
    fix query col touched
    assume q: "normalizeEvent (feature_vector ev) s = Inr query"
      "knn_vector stl_heap float_scalars t query neighbours_considered fl_zero 0 (Inf False) = Some (Inr (col, touched))"
      and len: "length col = neighbours_considered" and col: "set (map entry_index col) \<subseteq> {..<length (labeled s)}"
      and c: "classifyOneEvent ev s = Some (vote (labeled s) (map entry_index col) ev)"
    have "map entry_index col \<noteq> []" using len by (auto simp: neighbours_considered_def)
    from vote_result [OF assms(2) col this, of ev] obtain l where
      "vote (labeled s) (map entry_index col) ev = Inr (classified_as (l, int (votes (labeled s) (map entry_index col) l)) ev)"
      "0 < votes (labeled s) (map entry_index col) l"
      "\<forall>l'. l' \<noteq> NaN \<longrightarrow> votes (labeled s) (map entry_index col) l' < votes (labeled s) (map entry_index col) l \<or>
         votes (labeled s) (map entry_index col) l' = votes (labeled s) (map entry_index col) l \<and> \<not> fl_less l' l" by blast
    moreover have "length col = 5" "\<forall>e \<in> set col. entry_index e < length (labeled s)"
      using len col by (auto simp: neighbours_considered_def)
    ultimately show ?thesis using q c by (intro exI [of _ query] exI [of _ col] exI [of _ touched] exI [of _ l]) simp
  qed
qed

theorem classification_is_majority_witness:
  "\<exists>(s :: default_data_point data_classifier) (col :: heap_entry list) l. length (labeled s) = 7 \<and> length col = (5 :: nat) \<and>
    classifyOneEvent (sample_event 3) s = Some (Inr (classified_as (l, int (votes (labeled s) (map entry_index col) l)) (sample_event 3)))"
proof (rule sample_run)
  fix s :: "default_data_point data_classifier" and t
  assume s: "classifier_runs env sound_request s" "nns s = Search t" "event_label_manager s = sample_manager"
    "mat_rows (labeled_matrix s) = 1" "length (mat_cols (labeled_matrix s)) = 7"
  have "numbered (labeled s)" "length (feature_vector (sample_event 3)) = mat_rows (labeled_matrix s)"
    "neighbours_considered < length (mat_cols (labeled_matrix s))" "length (labeled s) = 7"
    using s sample_manager_facts by (simp_all add: sample_event_def neighbours_considered_def)
  note facts = this
  from classification_is_majority [OF s(1) facts(1) s(2) facts(2,3)] show ?thesis
  proof (elim exE conjE)
    fix query touched l and col :: "heap_entry list"
    assume "length col = 5"
      "classifyOneEvent (sample_event 3) s = Some (Inr (classified_as (l, int (votes (labeled s) (map entry_index col) l)) (sample_event 3)))"
    then show ?thesis using facts(4) by (intro exI [of _ s] exI [of _ col] exI [of _ l] conjI)
  qed
qed

text \<open>
  C37: as long as nothing but detected events and labels is handed to the classifier, no event it
  files or announces carries the label it was classified with: the label is missing, or that of an
  unknown event.
\<close>

theorem classified_labels_are_lost:
  assumes "classifier_runs env detected_only s"
    and "ev \<in> set (unlabeled_events (event_label_manager s)) \<union> set (event_classified s)"
  shows "event_label (event_meta_data ev) \<in> {None, Some fl_zero}"
proof -
  have "lost_inv s"
    using assms(1)
  proof (induction rule: classifier_runs.induct)
    case new_classifier
    show ?case by (simp add: lost_inv_def DataClassifier_def EventLabelManager_def)
  next
    case (next_request s req s' r)
    then show ?case using lost_request by blast
  qed
  then show ?thesis using assms(2) by (simp add: lost_inv_def unclassified_def)
qed


definition sample_surroundings :: "default_data_point surroundings" where
  "sample_surroundings = \<lparr>env_libm = some_libm, env_ampere = default_ampere, env_volt = default_voltage, env_resized = \<lambda>m i j. fl_zero\<rparr>"

lemma sample_detection:
  "\<exists>(s :: default_data_point data_classifier) ev. classifier_runs sample_surroundings detected_only s \<and>
    unlabeled_events (event_label_manager s) = [ev, ev]"
proof -
  obtain features fe where f: "extractFeatures some_libm default_ampere default_voltage four_points plain_extractor = Inr (features, fe)"
    using four_points_extracted by blast
  let ?config = "fe_config plain_extractor" and ?env = "sample_surroundings"
  define s1 where "s1 = (DataClassifier :: default_data_point data_classifier)\<lparr>the_extractor := plain_extractor, the_runner := Running\<rparr>"
  define s2 where "s2 = s1\<lparr>event_stack := [four_points]\<rparr>"
  have no_label: "findLabelAndAddEvent features EventLabelManager = (False, EventLabelManager)"
    by (simp add: findLabelAndAddEvent_def getEventLabel_def EventLabelManager_def)
  have "perform ?env (Start ?config) DataClassifier = Some (s1, Inr ())"
    by (simp add: startClassification_def setConfig_def s1_def DataClassifier_def plain_extractor_def)
  then have r1: "classifier_runs ?env detected_only s1"
    by (rule next_request [OF new_classifier]) (simp_all add: survives_def detected_only_def)
  have "perform ?env (Push_event four_points) s1 = Some (s2, Inr ())"
    by (simp add: pushEvent_def s2_def s1_def DataClassifier_def)
  then have r2: "classifier_runs ?env detected_only s2"
    by (rule next_request [OF r1]) (simp_all add: survives_def detected_only_def four_points_def)
  define ev where "ev = set_label fl_zero features"
  define lm where "lm = EventLabelManager\<lparr>unlabeled_events := [ev, ev]\<rparr>"
  have "classifyOneEvent features (s2\<lparr>the_extractor := fe\<rparr>) = Some (Inl (Int_thrown (- 1)))"
    by (simp add: classifyOneEvent_def s2_def s1_def DataClassifier_def EventLabelManager_def)
  then have "perform ?env Run_round s2 = Some (s2\<lparr>the_extractor := fe, event_classified := [ev], event_label_manager := lm, event_stack := []\<rparr>, Inr ())"
    using f no_label
    by (simp add: run_round_def processOneEvent_def sample_surroundings_def s2_def s1_def DataClassifier_def ev_def lm_def
        classifyOneEventAndPushToLabelManager_def is_exception_def addUnLabeledEvent_def addClassifiedEvent_def EventLabelManager_def Let_def)
  then have "classifier_runs ?env detected_only (s2\<lparr>the_extractor := fe, event_classified := [ev], event_label_manager := lm, event_stack := []\<rparr>)"
    by (rule next_request [OF r2]) (simp_all add: survives_def detected_only_def)
  then show ?thesis
    by (intro exI [of _ "s2\<lparr>the_extractor := fe, event_classified := [ev], event_label_manager := lm, event_stack := []\<rparr>"] exI [of _ ev])
      (simp add: lm_def)
qed

theorem classified_labels_are_lost_witness:
  "\<exists>(s :: default_data_point data_classifier) ev. unlabeled_events (event_label_manager s) = [ev, ev] \<and>
    event_label (event_meta_data ev) \<in> {None, Some fl_zero}"
proof -
  obtain s :: "default_data_point data_classifier" and ev where
    s: "classifier_runs sample_surroundings detected_only s" "unlabeled_events (event_label_manager s) = [ev, ev]"
    using sample_detection by blast
  then show ?thesis using classified_labels_are_lost [OF s(1), of ev] by auto
qed

end
