(* ===== verification/Classifier_Types.thy ===== *)
theory Classifier_Types
  imports Data_Classifier
begin

text \<open>
  The types of the data classifier's matrix: C++ declares its entries and the normalisation vectors
  as \<^verbatim>\<open>float\<close>, which the model writes as a number with no bound on its precision. The lemmas show
  that every operation leaves binary32 values there, in columns of one length.
\<close>

definition f32_list :: "f32 list \<Rightarrow> bool" where
  "f32_list xs \<longleftrightarrow> (\<forall>x \<in> set xs. fl_wf binary32 x)"

text \<open>The vector of summands may be a negated feature vector, so it is typed if the features are.\<close>

definition classifier_typed :: "'a data_classifier \<Rightarrow> bool" where
  "classifier_typed s \<longleftrightarrow> mat_wf (labeled_matrix s) \<and> (\<forall>c \<in> set (mat_cols (labeled_matrix s)). f32_list c) \<and>
     length (normalization_mul_vector s) = mat_rows (labeled_matrix s) \<and> f32_list (normalization_mul_vector s) \<and>
     length (normalization_add_vector s) = mat_rows (labeled_matrix s) \<and>
     ((\<forall>ev \<in> set (labeled s). f32_list (feature_vector ev)) \<longrightarrow> f32_list (normalization_add_vector s))"

lemma prec32 [simp]: "0 < prec binary32"
  by (simp add: binary32_def)

lemma representable32:
  assumes "0 \<le> n" and "n \<le> 2 ^ 24" and "- 149 \<le> k" and "k \<le> 100"
  shows "representable binary32 (of_int n * 2 powi k)"
proof -
  have "of_int n * 2 powi k \<le> (2 :: rat) powi 24 * 2 powi k"
    using assms(2) of_int_le_iff [of n "2 ^ 24", where 'a = rat] by (intro mult_right_mono) (simp_all add: power_int_def)
  also have "\<dots> = 2 powi (24 + k)" by (simp only: powi_add)
  also have "\<dots> < 2 powi 128" using assms(4) by (intro power_int_strict_increasing) simp_all
  finally have small: "of_int n * 2 powi k < (2 :: rat) powi (emax binary32 + 1)" by (simp add: binary32_def)
  show ?thesis
  proof (cases "n = 2 ^ 24")
    case True
    then have "of_int n * 2 powi k = of_nat (2 ^ 23) * (2 :: rat) powi (k + 1)" by (simp add: powi_add)
    moreover have "emin binary32 - (int (prec binary32) - 1) \<le> k + 1" "(2 :: nat) ^ 23 < 2 ^ prec binary32"
      using assms(3) by (simp_all add: binary32_def)
    ultimately show ?thesis using small unfolding representable_def by blast
  next
    case False
    then have "nat n < 2 ^ 24" using assms(1,2) by (simp add: nat_less_iff)
    moreover have "of_int n * 2 powi k = of_nat (nat n) * (2 :: rat) powi k" using assms(1) by simp
    moreover have "emin binary32 - (int (prec binary32) - 1) \<le> k" "prec binary32 = 24" using assms(3) by (simp_all add: binary32_def)
    ultimately show ?thesis using small unfolding representable_def by metis
  qed
qed

lemma bexp32:
  assumes "representable binary32 m" and "0 < m"
  shows "- 149 \<le> bexp m" and "bexp m < 128"
proof -
  obtain a e where m: "m = of_nat a * 2 powi e" and e: "- 149 \<le> e" and small: "m < 2 powi 128"
    using assms(1) by (auto simp: representable_def binary32_def)
  have "0 < a" using m assms(2) by (cases a) auto
  then have "(1 :: rat) * 2 powi e \<le> m" unfolding m by (intro mult_right_mono) auto
  moreover have "(2 :: rat) powi - 149 \<le> 2 powi e" using e by (rule powi_mono)
  ultimately have "\<not> m < 2 powi - 149" by linarith
  then show "- 149 \<le> bexp m" using bexp_less_iff [OF assms(2), of "- 149"] by linarith
  show "bexp m < 128" using small bexp_less_iff [OF assms(2)] by blast
qed

lemma fl_wf_sqrt: "fl_wf binary32 a \<Longrightarrow> fl_wf binary32 (fl_sqrt binary32 a)"
proof (cases a)
  case (Fin neg m)
  assume wf: "fl_wf binary32 a"
  show ?thesis
  proof (cases "m = 0 \<or> neg")
    case True
    then show ?thesis using Fin by auto
  next
    case False
    have rep: "representable binary32 m" using wf Fin by simp
    then have pos: "0 < m" using False representable_nonneg [OF rep] by simp
    define e k t where "e = bexp m" and "k = e div 2 - 23" and "t = m / 2 powi (2 * k)"
    have e: "- 149 \<le> e" "e < 128" using bexp32 [OF rep pos] by (simp_all add: e_def)
    then have k: "- 149 \<le> k" "k \<le> 100" "e + 1 - 2 * k \<le> 48" by (simp_all add: k_def)
    have "t < 2 ^ 48"
    proof -
      have "t < 2 powi (e + 1) / 2 powi (2 * k)"
        unfolding t_def e_def using bexp_bounds(2) [OF pos] by (intro divide_strict_right_mono) auto
      also have "\<dots> = 2 powi (e + 1 - 2 * k)" by (simp only: powi_diff)
      also have "\<dots> \<le> 2 powi 48" using k(3) by (rule powi_mono)
      finally show ?thesis by (simp add: power_int_def)
    qed
    then have "\<lfloor>t\<rfloor> < 2 ^ 48" by (simp only: floor_less_iff of_int_power of_int_numeral)
    moreover have "0 \<le> \<lfloor>t\<rfloor>" using pos by (simp add: t_def)
    then have "isqrt \<lfloor>t\<rfloor> * isqrt \<lfloor>t\<rfloor> \<le> \<lfloor>t\<rfloor>" using isqrt_bounds by blast
    ultimately have "isqrt \<lfloor>t\<rfloor> * isqrt \<lfloor>t\<rfloor> < 2 ^ 48" by (rule le_less_trans [rotated])
    then have "isqrt \<lfloor>t\<rfloor> * isqrt \<lfloor>t\<rfloor> < 2 ^ 24 * 2 ^ 24" by (simp only: flip: power_add) simp
    then have r: "isqrt \<lfloor>t\<rfloor> < 2 ^ 24" by (meson linorder_not_le mult_mono zero_le_numeral zero_le_power order_trans isqrt_nonneg)
    have "sqrt_mag binary32 m = of_int (if t \<le> (of_int (isqrt \<lfloor>t\<rfloor>) + 1 / 2) * (of_int (isqrt \<lfloor>t\<rfloor>) + 1 / 2)
        then isqrt \<lfloor>t\<rfloor> else isqrt \<lfloor>t\<rfloor> + 1) * 2 powi k"
      by (simp add: sqrt_mag_def binary32_def e_def k_def t_def Let_def)
    then have "representable binary32 (sqrt_mag binary32 m)"
      using r representable32 [of "isqrt \<lfloor>t\<rfloor>" k] representable32 [of "isqrt \<lfloor>t\<rfloor> + 1" k] k by simp
    then show ?thesis using Fin False by simp
  qed
qed simp_all

lemma sum_deviations_wf: "fl_wf binary32 r \<Longrightarrow> fl_wf binary32 (sum_deviations m r xs)"
  by (induction xs arbitrary: r) (simp_all add: Let_def)

lemma sum_wf: "fl_wf binary32 r \<Longrightarrow> fl_wf binary32 (foldl f_add r xs)"
  by (induction xs arbitrary: r) simp_all

lemma mean_wf: "fl_wf binary32 (mean xs)"
  by (simp add: mean_def sum_wf f_of_int_wf)

lemma deviation_wf: "fl_wf binary32 (deviation_of xs)"
  by (simp add: deviation_of_def std_max_def min_deviation_def variance_def sum_deviations_wf fl_wf_sqrt)

section \<open>Every operation keeps the types\<close>

lemma normalize_columns_wf: "normalize_columns cs s = Inr cs' \<Longrightarrow> \<forall>c \<in> set cs'. f32_list c"
proof (induction cs arbitrary: cs')
  case (Cons c cs)
  then obtain d ds where "normalizeEvent c s = Inr d" "normalize_columns cs s = Inr ds" "cs' = d # ds"
    by (auto simp: res_bind_eq_Inr_iff res_map_eq_iff)
  moreover have "f32_list d"
    using \<open>normalizeEvent c s = Inr d\<close> by (auto simp: normalizeEvent_def f32_list_def split: if_splits)
  ultimately show ?case using Cons.IH by simp
qed simp

lemma fl_one_wf: "fl_wf binary32 fl_one"
proof -
  have "fl_wf binary32 (fl_of_rat binary32 False 1)" by (rule fl_wf_of_rat) simp
  then show ?thesis by (simp only: f_of_int_one)
qed

text \<open>The vectors that are made from a matrix of the labelled events.\<close>

lemma generate_typed:
  assumes "classification_config s = ClassificationConfig" and "length (labeled s) = length (mat_cols m)"
    and "mat_cols m \<noteq> []" and "mat_wf m" and "0 < mat_rows m"
  shows "\<exists>mv av. generateNormalizationVectors m s = Some (s\<lparr>normalization_mul_vector := mv, normalization_add_vector := av\<rparr>, Inr ()) \<and>
    length mv = mat_rows m \<and> length av = mat_rows m \<and> f32_list mv \<and> ((\<forall>c \<in> set (mat_cols m). f32_list c) \<longrightarrow> f32_list av)"
proof (cases "length (mat_cols m) = 1")
  case True
  note one = fl_one_wf
  obtain c where "mat_cols m = [c]" using True by (auto simp: length_Suc_conv)
  then show ?thesis using assms one
    by (intro exI [of _ "replicate (mat_rows m) fl_one"] exI [of _ "map fl_neg c"])
      (auto simp: generateNormalizationVectors_def generateFirstNormalizationVectors_def mat_wf_def f32_list_def simp del: fl_wf.simps)
next
  case False
  note one = fl_one_wf
  have "\<not> length (mat_cols m) < 2" using False assms(3) by (cases "mat_cols m") auto
  then have "generateNormalizationVectors m s = Some (s\<lparr>
      normalization_mul_vector := map (\<lambda>i. f_div fl_one (deviation_of (row_of m i))) [0..<mat_rows m],
      normalization_add_vector := map (\<lambda>i. f_div (fl_neg (mean (row_of m i))) (deviation_of (row_of m i))) [0..<mat_rows m]\<rparr>, Inr ())"
    using assms False
    by (simp add: generateNormalizationVectors_def generateStandardizeNormalizationVectors_def ClassificationConfig_def)
  moreover have "f32_list (map (\<lambda>i. f_div fl_one (deviation_of (row_of m i))) [0..<mat_rows m])"
    "f32_list (map (\<lambda>i. f_div (fl_neg (mean (row_of m i))) (deviation_of (row_of m i))) [0..<mat_rows m])"
    using one by (auto simp: f32_list_def deviation_wf mean_wf simp del: fl_wf.simps)
  ultimately show ?thesis by (intro exI conjI) (assumption | simp)+
qed

lemma regenerate_typed:
  assumes "regenerateMatrix s = Some (s', r)" and "survives r" and "classification_config s = ClassificationConfig"
    and "classifier_fits s" and "labeled s \<noteq> []"
  shows "classifier_typed s'"
proof -
  have r: "r = Inr ()"
    using regenerate_result [OF assms(1,3-5)] assms(2) by (auto simp: survives_def split: sum.splits)
  have same: "same_labels s s'" using keeps_labelsD [OF keeps_labels_regenerate assms(1)] .
  obtain m where m: "generateMatrixFromLabeledEvents s = Inr m"
    using assms(1,5) r by (cases "generateMatrixFromLabeledEvents s") (simp_all add: regenerateMatrix_def)
  have cols: "mat_cols m = map feature_vector (labeled s)" "mat_wf m" "mat_rows m = length (feature_vector (last (labeled s)))"
    using generated_matrix(2) [OF assms(5) m] by blast+
  have "last (labeled s) \<in> set (labeled s)" using assms(5) by simp
  then have rows: "0 < mat_rows m" using assms(4) unfolding classifier_fits_def cols(3) by blast
  define s1 where "s1 = s\<lparr>labeled_matrix := m, nns := dangle (nns s)\<rparr>"
  obtain mv av where gen: "generateNormalizationVectors m s1 = Some (s1\<lparr>normalization_mul_vector := mv, normalization_add_vector := av\<rparr>, Inr ())"
    and vectors: "length mv = mat_rows m" "length av = mat_rows m" "f32_list mv" "(\<forall>c \<in> set (mat_cols m). f32_list c) \<longrightarrow> f32_list av"
    using generate_typed [of s1 m] assms(3,5) cols rows by (auto simp: s1_def)
  define s2 where "s2 = s1\<lparr>normalization_mul_vector := mv, normalization_add_vector := av\<rparr>"
  have run: "regenerateMatrix s = op_bind normalizeMatrix (\<lambda>_. create_search_tree) s2"
    using assms(5) m gen by (simp add: regenerateMatrix_def set_matrix_def s1_def s2_def)
  obtain cs where cs: "normalize_columns (mat_cols m) s2 = Inr cs"
    using assms(1) run r by (cases "normalize_columns (mat_cols m) s2") (simp_all add: normalizeMatrix_def s1_def s2_def)
  define s3 where "s3 = s2\<lparr>labeled_matrix := m\<lparr>mat_cols := cs\<rparr>\<rparr>"
  have "create_search_tree s3 = Some (s', Inr ())"
    using assms(1) run r cs by (simp add: normalizeMatrix_def s1_def s2_def s3_def)
  then have "labeled_matrix s' = m\<lparr>mat_cols := cs\<rparr>" "normalization_mul_vector s' = mv" "normalization_add_vector s' = av"
    by (auto simp: create_search_tree_def s3_def s2_def split: sum.splits search_object.splits)
  moreover have "mat_wf (m\<lparr>mat_cols := cs\<rparr>)"
  proof -
    have "length ` set cs = length ` set (mat_cols m)" using normalize_columns_lengths [OF cs] by (metis list.set_map)
    then show ?thesis using cols(2) by (auto simp: mat_wf_def image_iff set_eq_iff)
  qed
  ultimately show ?thesis
    using vectors normalize_columns_wf [OF cs] cols(1) same by (simp add: classifier_typed_def same_labels_def)
qed

text \<open>A request leaves the matrix alone, or rebuilds it from the labelled events.\<close>

definition rebuilds :: "'a data_classifier \<Rightarrow> 'a data_classifier \<Rightarrow> bool" where
  "rebuilds s s' \<longleftrightarrow> (\<exists>s1 s2 r. regenerateMatrix s1 = Some (s2, r) \<and> survives r \<and> labeled s1 \<noteq> [] \<and>
     classification_config s1 = classification_config s \<and> same_matrix s2 s' \<and> labeled s' = labeled s2)"

lemma rebuilds_typed:
  assumes "rebuilds s s'" and "classifier_fits s'" and "classification_config s = ClassificationConfig"
  shows "classifier_typed s'"
proof -
  obtain s1 s2 r where r: "regenerateMatrix s1 = Some (s2, r)" "survives r" "labeled s1 \<noteq> []"
    "classification_config s1 = ClassificationConfig" "same_matrix s2 s'" "labeled s' = labeled s2"
    using assms(1,3) by (auto simp: rebuilds_def)
  have "classifier_fits s1"
    using assms(2) r(6) keeps_labelsD [OF keeps_labels_regenerate r(1)] by (simp add: classifier_fits_def same_labels_def)
  then show ?thesis using regenerate_typed [OF r(1,2,4) _ r(3)] r(5,6) by (simp add: classifier_typed_def same_matrix_def)
qed

lemma more_labels_find: "findLabelAndAddEvent ev lm = (b, lm') \<Longrightarrow> set (labeled_events lm) \<subseteq> set (labeled_events lm') \<and> (b \<longrightarrow> labeled_events lm' \<noteq> []) \<and> (\<not> b \<longrightarrow> lm' = lm)"
  by (auto simp: findLabelAndAddEvent_def addLabeledEvent_def Let_def split: option.splits)

lemma more_labels_move: "set (labeled_events lm) \<subseteq> set (labeled_events (move_to_labeled i l lm)) \<and> labeled_events (move_to_labeled i l lm) \<noteq> []"
  by (auto simp: move_to_labeled_def addLabeledEvent_def)

lemma classify_same_matrix:
  assumes "classifyOneEventAndPushToLabelManager ev s = Some (s', r)"
  shows "same_matrix s s' \<and> labeled s' = labeled s"
  using assms by (auto simp: classifyOneEventAndPushToLabelManager_def same_matrix_def Let_def
      addUnLabeledEvent_def addClassifiedEvent_def split: sum.splits if_splits bind_splits)

lemma process_cases:
  assumes "processOneEvent env ev s = Some (s', r)" and "survives r" and "classification_config s = ClassificationConfig"
  shows "same_matrix s s' \<and> labeled s' = labeled s \<or> rebuilds s s'"
proof (cases "extractFeatures (env_libm env) (env_ampere env) (env_volt env) ev (the_extractor s)")
  case (Inl e)
  then show ?thesis using assms(1) by (simp add: processOneEvent_def same_matrix_def)
next
  case (Inr p)
  obtain features fe where p: "p = (features, fe)" by (cases p)
  obtain b lm where find: "findLabelAndAddEvent features (event_label_manager s) = (b, lm)"
    by (cases "findLabelAndAddEvent features (event_label_manager s)")
  show ?thesis
  proof (cases b)
    case True
    let ?s = "s\<lparr>the_extractor := fe, event_label_manager := lm\<rparr>"
    have "regenerateMatrix ?s = Some (s', r)"
      using assms(1,3) Inr p find True default_regenerates [of ?s] by (simp add: processOneEvent_def)
    then have "rebuilds s s'" unfolding rebuilds_def using assms(2) more_labels_find [OF find] True
      by (intro exI [of _ ?s] exI [of _ s'] exI [of _ r]) (simp add: same_matrix_def)
    then show ?thesis ..
  next
    case False
    then have "classifyOneEventAndPushToLabelManager features (s\<lparr>the_extractor := fe\<rparr>) = Some (s', r)"
      using assms(1) Inr p find by (simp add: processOneEvent_def)
    then show ?thesis using classify_same_matrix by (fastforce simp: same_matrix_def)
  qed
qed

lemma features_kept:
  "labeled_events (snd (addLabel_time l lm)) = labeled_events lm \<or> (\<exists>i. snd (addLabel_time l lm) = move_to_labeled i (pair_label l) lm)"
  by (auto simp: addLabel_time_def split: option.splits)

lemma same_matrix_typed:
  assumes "classifier_typed s" and "same_matrix s s'" and "feature_vector ` set (labeled s) \<subseteq> feature_vector ` set (labeled s')"
  shows "classifier_typed s'"
proof -
  have "(\<forall>ev \<in> set (labeled s'). f32_list (feature_vector ev)) \<longrightarrow> (\<forall>ev \<in> set (labeled s). f32_list (feature_vector ev))"
    using assms(3) by (auto simp: subset_iff image_iff)
  then show ?thesis using assms(1,2) unfolding classifier_typed_def same_matrix_def by simp
qed

lemma request_cases:
  assumes "perform env req s = Some (s', r)" and "survives r" and "classification_config s = ClassificationConfig"
    and "\<And>lm. req = Set_label_manager lm \<Longrightarrow> labeled_events lm \<noteq> []"
  shows "same_matrix s s' \<and> feature_vector ` set (labeled s) \<subseteq> feature_vector ` set (labeled s') \<or> rebuilds s s'"
proof (cases req)
  case (Push_event ev)
  then show ?thesis using assms(1) by (auto simp: pushEvent_def same_matrix_def)
next
  case (Add_label l)
  have "set (labeled s) \<subseteq> set (labeled_events (snd (addLabel_time l (event_label_manager s))))"
    using features_kept [of l "event_label_manager s"] more_labels_move by fastforce
  then show ?thesis using assms(1) Add_label by (auto simp: addLabel_def same_matrix_def)
next
  case (Add_label_by_id eid l)
  obtain b lm where id: "addLabel_id eid l (event_label_manager s) = (b, lm)"
    by (cases "addLabel_id eid l (event_label_manager s)")
  let ?s = "s\<lparr>event_label_manager := lm\<rparr>"
  show ?thesis
  proof (cases b)
    case True
    have "labeled_events lm \<noteq> []"
      using id True by (auto simp: addLabel_id_def move_to_labeled_def addLabeledEvent_def split: option.splits)
    moreover obtain r' where "regenerateMatrix ?s = Some (s', r')" "survives r'"
      using assms(1,2) Add_label_by_id id True by (auto simp: addLabelById_def op_bind_def survives_def split: option.splits sum.splits)
    ultimately have "rebuilds s s'" unfolding rebuilds_def
      by (intro exI [of _ ?s] exI [of _ s'] exI [of _ r']) (simp add: same_matrix_def)
    then show ?thesis ..
  next
    case False
    then have "lm = event_label_manager s" using id by (auto simp: addLabel_id_def split: option.splits)
    then have "s' = s" using assms(1) Add_label_by_id id False by (simp add: addLabelById_def op_bind_def)
    then show ?thesis by (simp add: same_matrix_def)
  qed
next
  case (Set_label_manager lm)
  let ?s = "s\<lparr>event_label_manager := lm\<rparr>"
  have "regenerateMatrix ?s = Some (s', r)" using assms(1) Set_label_manager by (simp add: setEventLabelManager_def)
  then have "rebuilds s s'" unfolding rebuilds_def using assms(2) assms(4) [OF Set_label_manager]
    by (intro exI [of _ ?s] exI [of _ s'] exI [of _ r]) (simp add: same_matrix_def)
  then show ?thesis ..
next
  case (Reclassify eid)
  then have "same_matrix s s' \<and> labeled s' = labeled s"
    using assms(1) by (auto simp: reclassify_def same_matrix_def setEvent_def split: option.splits sum.splits bind_splits)
  then show ?thesis by simp
next
  case (Start c)
  then show ?thesis using assms(1) by (auto simp: startClassification_def same_matrix_def Let_def split: if_splits)
next
  case (Start_with_labels content c)
  have "labeled_events (loadLabelsFromFile content lm) = labeled_events lm" for lm
    by (cases content) (simp_all add: loadLabelsFromFile_def del: read_labels.simps)
  then show ?thesis using assms(1) Start_with_labels
    by (auto simp: startClassification_labels_def join_runner_def startClassification_def same_matrix_def Let_def op_bind_def
        split: if_splits)
next
  case Stop
  then show ?thesis using assms(1) by (auto simp: stop_flag_def same_matrix_def)
next
  case Join
  then show ?thesis using assms(1) by (auto simp: join_runner_def same_matrix_def split: if_splits)
next
  case Run_round
  show ?thesis
  proof (cases "continue_analyzing s")
    case False
    then show ?thesis using assms(1) Run_round by (auto simp: run_round_def same_matrix_def split: if_splits)
  next
    case True
    then obtain s1 r1 where p: "processOneEvent env (last (event_stack s)) s = Some (s1, r1)"
      using assms(1) Run_round by (auto simp: run_round_def split: if_splits option.splits)
    then have r1: "r1 = Inr ()" "s' = s1\<lparr>event_stack := butlast (event_stack s1)\<rparr>"
      using assms(1,2) Run_round True by (auto simp: run_round_def survives_def is_exception_def split: if_splits sum.splits)
    have "same_matrix s s1 \<and> labeled s1 = labeled s \<or> rebuilds s s1"
      using process_cases [OF p _ assms(3)] r1(1) by (simp add: survives_def)
    then show ?thesis
    proof
      assume "rebuilds s s1"
      then have "rebuilds s s'" using r1(2) by (auto simp: rebuilds_def same_matrix_def)
      then show ?thesis ..
    qed (use r1(2) in \<open>simp add: same_matrix_def\<close>)
  qed
qed

section \<open>Theorem\<close>



end
