(* ===== verification/Cross_Validation.thy ===== *)
theory Cross_Validation
  imports Data_Classifier
begin

text \<open>
  The experiments on the classification: the partitions of the labelled events
  (\<^verbatim>\<open>experiments/event_classification_setup/SelectPartitions.h\<close>), the cross validation
  (\<^verbatim>\<open>slimmed_validation.cpp\<close>, \<^verbatim>\<open>CrossValidationResult.h\<close>) and its statistics
  (\<^verbatim>\<open>experiments/data_vis/CrossValidationStats.h\<close>). A \<^verbatim>\<open>std::map\<close> is the list of its pairs in the
  order of their keys; a label that is no number has no place in one. \<^verbatim>\<open>std::random_shuffle\<close> is a
  parameter.

  The lemmas show that a partition and the rest make up the whole except for the last one, and
  that the validation reports every classification as correct.
\<close>

section \<open>Results and maps\<close>

record guess =
  actual_label :: f64
  classified_label :: f64
  guessed_event :: nat

definition Guess :: "f64 \<Rightarrow> f64 \<Rightarrow> nat \<Rightarrow> guess" where
  "Guess actual classified i = \<lparr>actual_label = actual, classified_label = classified, guessed_event = i\<rparr>"

record cross_validation_result =
  broken_down :: "guess list"

fun at_key :: "f64 \<Rightarrow> 'v \<Rightarrow> ('v \<Rightarrow> 'v) \<Rightarrow> (f64 \<times> 'v) list \<Rightarrow> (f64 \<times> 'v) list" where
  "at_key l v f [] = [(l, f v)]"
| "at_key l v f ((x, y) # xs) =
     (if fl_less x l then (x, y) # at_key l v f xs
      else if fl_less l x then (l, f v) # (x, y) # xs
      else (x, f y) # xs)"

section \<open>Partitions\<close>

text \<open>
  The size of a partition and the positions where the one of a number begins and ends; the number
  of partitions is converted to an unsigned value for the division.
\<close>

definition partition_bounds :: "nat \<Rightarrow> int \<Rightarrow> int \<Rightarrow> (nat \<times> nat \<times> nat) res" where
  "partition_bounds n total_number_of_partitions part =
     (if \<not> part < total_number_of_partitions then Inl Assert_failed
      else if total_number_of_partitions = 0 then Inl Undefined
      else let elements_per_partition = n div to_unsigned total_number_of_partitions;
               first = umul elements_per_partition (to_unsigned part);
               past = min n (umul (to_unsigned (part + 1)) elements_per_partition)
           in if n < first \<or> past < first then Inl Undefined else Inr (elements_per_partition, first, past))"

text \<open>\<^verbatim>\<open>for_each\<close> over \<open>n\<close> elements from \<open>i\<close>, each swapped with the one at \<open>r\<close>, which moves to the front.\<close>

fun swap_from_end :: "nat \<Rightarrow> nat \<Rightarrow> nat \<Rightarrow> 'x list \<Rightarrow> 'x list" where
  "swap_from_end i 0 r xs = xs"
| "swap_from_end i (Suc n) r xs = swap_from_end (i + 1) n (r - 1) (xs[i := xs ! r, r := xs ! i])"

definition dropPartition :: "label_manager \<Rightarrow> int \<Rightarrow> int \<Rightarrow> label_manager res" where
  "dropPartition lm total_number_of_partitions to_drop =
     (let evs = labeled_events lm in
      res_map (\<lambda>(elements_per_partition, first, past).
        let evs = (if to_drop \<noteq> total_number_of_partitions - 1
                   then swap_from_end first (past - first) (length evs - 1) evs else evs)
        in lm\<lparr>labeled_events := take (length evs - elements_per_partition) evs\<rparr>)
        (partition_bounds (length evs) total_number_of_partitions to_drop))"

definition getPartition :: "label_manager \<Rightarrow> int \<Rightarrow> int \<Rightarrow> event_features list res" where
  "getPartition lm total_number_of_partitions part =
     res_map (\<lambda>(elements_per_partition, first, past). Prelude.slice (labeled_events lm) first (past - first))
       (partition_bounds (length (labeled_events lm)) total_number_of_partitions part)"

fun put_into :: "event_features list \<Rightarrow> (f64 \<times> event_features list) list \<Rightarrow> (f64 \<times> event_features list) list res" where
  "put_into [] bs = Inr bs"
| "put_into (ev # evs) bs =
     (case event_label (event_meta_data ev) of
        None \<Rightarrow> Inl Undefined
      | Some l \<Rightarrow> if l = NaN then Inl Undefined else put_into evs (at_key l [] (\<lambda>b. b @ [ev]) bs))"

definition putIntoBuckets :: "event_features list \<Rightarrow> (f64 \<times> event_features list) list res" where
  "putIntoBuckets evs = put_into evs []"

definition collectFromBuckets :: "(f64 \<times> event_features list) list \<Rightarrow> event_features list" where
  "collectFromBuckets bs = concat (map snd bs)"

section \<open>Preparing the labelled events\<close>

definition initLabelManager :: "(event_features list \<Rightarrow> event_features list) \<Rightarrow> label_manager \<Rightarrow> label_manager" where
  "initLabelManager random_shuffle lm =
     \<lparr>labeled_events = random_shuffle (labeled_events lm @ map (set_label (Fin False 666)) (unlabeled_events lm)),
      unlabeled_events = [], labels = []\<rparr>"

definition initLabelManagerWithoutMisdetected :: "(event_features list \<Rightarrow> event_features list) \<Rightarrow> label_manager \<Rightarrow> label_manager" where
  "initLabelManagerWithoutMisdetected random_shuffle lm =
     \<lparr>labeled_events = random_shuffle (labeled_events lm), unlabeled_events = [], labels = []\<rparr>"

definition initLabelManagerWithoutSmallBuckets ::
  "(event_features list \<Rightarrow> event_features list) \<Rightarrow> label_manager \<Rightarrow> label_manager res" where
  "initLabelManagerWithoutSmallBuckets random_shuffle lm =
     (let lm = initLabelManagerWithoutMisdetected random_shuffle lm in
      res_map (\<lambda>bs. lm\<lparr>labeled_events := random_shuffle (collectFromBuckets
          (map (\<lambda>(l, b). (l, if length b < 5 then [] else b)) bs))\<rparr>)
        (putIntoBuckets (labeled_events lm)))"

section \<open>Validation\<close>

fun classify_all :: "event_features list \<Rightarrow> ('a, unit) operation" where
  "classify_all [] = op_return ()"
| "classify_all (ev # evs) = op_bind (classifyOneEventAndPushToLabelManager ev) (\<lambda>_. classify_all evs)"

fun guesses :: "event_features list \<Rightarrow> event_features list \<Rightarrow> guess list res" where
  "guesses (t # ts) (c # cs) =
     (case (event_label (event_meta_data t), event_label (event_meta_data c), feature_id c) of
        (Some actual, Some classified, Some i) \<Rightarrow> res_map (\<lambda>gs. Guess actual classified i # gs) (guesses ts cs)
      | _ \<Rightarrow> Inl Undefined)"
| "guesses _ _ = Inr []"

definition validatePartition :: "label_manager \<Rightarrow> event_features list \<Rightarrow> cross_validation_result res option" where
  "validatePartition lm test_data =
     map_option (\<lambda>(s, r). res_bind r (\<lambda>_.
         let classification_results = unlabeled_events (event_label_manager s)
         in if length classification_results \<noteq> length test_data then Inl Assert_failed
            else res_map (\<lambda>gs. \<lparr>broken_down = gs\<rparr>) (guesses test_data classification_results)))
       (op_bind (setEventLabelManager lm) (\<lambda>_. classify_all test_data) (DataClassifier :: blued_data_point data_classifier))"

text \<open>The training set is computed, but the classifier is given all the labelled events.\<close>

fun validate_from :: "label_manager \<Rightarrow> int \<Rightarrow> int list \<Rightarrow> cross_validation_result list res option" where
  "validate_from lm n [] = Some (Inr [])"
| "validate_from lm n (i # is) =
     (case res_bind (dropPartition lm n i) (\<lambda>training_set. getPartition lm n i) of
        Inl e \<Rightarrow> Some (Inl e)
      | Inr test_set \<Rightarrow>
          Option.bind (validatePartition lm test_set) (\<lambda>r.
            case r of
              Inl e \<Rightarrow> Some (Inl e)
            | Inr cvs \<Rightarrow> map_option (res_map (\<lambda>rs. cvs # rs)) (validate_from lm n is)))"

definition crossValidate :: "label_manager \<Rightarrow> cross_validation_result list res option" where
  "crossValidate lm = validate_from lm 10 (map int [0..<10])"

section \<open>Statistics\<close>

definition correctClassifications :: "cross_validation_result \<Rightarrow> guess list" where
  "correctClassifications cv = filter (\<lambda>g. fl_eq (classified_label g) (actual_label g)) (broken_down cv)"

definition incorrectClassifications :: "cross_validation_result \<Rightarrow> guess list" where
  "incorrectClassifications cv = filter (\<lambda>g. \<not> fl_eq (classified_label g) (actual_label g)) (broken_down cv)"

definition allClassifications :: "cross_validation_result \<Rightarrow> guess list" where
  "allClassifications cv = broken_down cv"

definition all_correctClassifications :: "cross_validation_result list \<Rightarrow> guess list" where
  "all_correctClassifications results = concat (map correctClassifications results)"

definition all_incorrectClassifications :: "cross_validation_result list \<Rightarrow> guess list" where
  "all_incorrectClassifications results = concat (map incorrectClassifications results)"

definition all_allClassifications :: "cross_validation_result list \<Rightarrow> guess list" where
  "all_allClassifications results = concat (map allClassifications results)"

fun label_stats :: "(guess \<Rightarrow> bool) \<Rightarrow> guess list \<Rightarrow> (f64 \<times> nat) list \<Rightarrow> (f64 \<times> nat) list res" where
  "label_stats counted [] stats = Inr stats"
| "label_stats counted (g # gs) stats =
     (if actual_label g = NaN then Inl Undefined
      else label_stats counted gs (at_key (actual_label g) 0 (\<lambda>n. n + (if counted g then 1 else 0)) stats))"

definition correctClassificationStats :: "guess list \<Rightarrow> (f64 \<times> nat) list res" where
  "correctClassificationStats gs = label_stats (\<lambda>g. fl_eq (actual_label g) (classified_label g)) gs []"

definition incorrectClassificationStats :: "guess list \<Rightarrow> (f64 \<times> nat) list res" where
  "incorrectClassificationStats gs = label_stats (\<lambda>g. \<not> fl_eq (actual_label g) (classified_label g)) gs []"

definition classificationStats :: "cross_validation_result list \<Rightarrow> (f64 \<times> nat \<times> nat) list res" where
  "classificationStats results =
     (let all = all_allClassifications results in
      res_bind (correctClassificationStats all) (\<lambda>correct.
      res_map (\<lambda>incorrect.
          foldl (\<lambda>m (l, n). at_key l (0, 0) (\<lambda>p. (fst p, n)) m)
            (foldl (\<lambda>m (l, n). at_key l (0, 0) (\<lambda>p. (n, snd p)) m) [] correct) incorrect)
        (incorrectClassificationStats all)))"

section \<open>Partitions and the rest\<close>

lemma swap_from_end_result:
  "i + n \<le> r + 1 - n \<Longrightarrow> n \<le> r + 1 \<Longrightarrow> r < length xs \<Longrightarrow> mset (swap_from_end i n r xs) = mset xs \<and>
    (\<forall>j < length xs. (j < i \<or> i + n \<le> j \<and> j < r + 1 - n \<or> r < j) \<longrightarrow> swap_from_end i n r xs ! j = xs ! j) \<and>
    (\<forall>k < n. swap_from_end i n r xs ! (r - k) = xs ! (i + k)) \<and> length (swap_from_end i n r xs) = length xs"
proof (induction i n r xs rule: swap_from_end.induct)
  case (2 i n r xs)
  let ?ys = "xs[i := xs ! r, r := xs ! i]"
  have i: "i < r" "r < length xs" "1 \<le> r" using "2.prems" by auto
  have IH: "mset (swap_from_end (i + 1) n (r - 1) ?ys) = mset ?ys \<and>
    (\<forall>j < length ?ys. (j < i + 1 \<or> i + 1 + n \<le> j \<and> j < r - 1 + 1 - n \<or> r - 1 < j) \<longrightarrow> swap_from_end (i + 1) n (r - 1) ?ys ! j = ?ys ! j) \<and>
    (\<forall>k < n. swap_from_end (i + 1) n (r - 1) ?ys ! (r - 1 - k) = ?ys ! (i + 1 + k)) \<and>
    length (swap_from_end (i + 1) n (r - 1) ?ys) = length ?ys"
    using "2.prems" i by (intro "2.IH") auto
  have "swap_from_end (i + 1) n (r - 1) ?ys ! (r - k) = xs ! (i + k)" if "k < Suc n" for k
  proof (cases k)
    case 0
    then show ?thesis using IH i by simp
  next
    case (Suc k')
    then have "swap_from_end (i + 1) n (r - 1) ?ys ! (r - 1 - k') = ?ys ! (i + 1 + k')" using IH that by simp
    moreover have "i + 1 + k' \<noteq> r" using "2.prems" that Suc by linarith
    ultimately show ?thesis using Suc by simp
  qed
  moreover have "swap_from_end (i + 1) n (r - 1) ?ys ! j = xs ! j"
    if "j < length xs" "j < i \<or> i + Suc n \<le> j \<and> j < r + 1 - Suc n \<or> r < j" for j
  proof -
    have "swap_from_end (i + 1) n (r - 1) ?ys ! j = ?ys ! j" using IH that i by auto
    then show ?thesis using that i by auto
  qed
  ultimately show ?case using IH i mset_swap [of r xs i] by auto
qed simp


lemma swapped_out:
  assumes "f + 2 * e \<le> length xs"
  shows "mset (swap_from_end f e (length xs - 1) xs) = mset xs \<and> length (swap_from_end f e (length xs - 1) xs) = length xs \<and>
    mset (drop (length xs - e) (swap_from_end f e (length xs - 1) xs)) = mset (Prelude.slice xs f e)"
proof (cases "e = 0")
  case True
  then show ?thesis by simp
next
  case False
  define ys where "ys = swap_from_end f e (length xs - 1) xs"
  have pre: "f + e \<le> length xs - 1 + 1 - e" "e \<le> length xs - 1 + 1" "length xs - 1 < length xs" using False assms by auto
  note r = swap_from_end_result [OF pre, folded ys_def]
  then have ys: "mset ys = mset xs" "length ys = length xs" "\<And>k. k < e \<Longrightarrow> ys ! (length xs - 1 - k) = xs ! (f + k)" by blast+
  have "rev (drop (length xs - e) ys) = Prelude.slice xs f e"
  proof (rule nth_equalityI)
    show "length (rev (drop (length xs - e) ys)) = length (Prelude.slice xs f e)"
      using ys(2) assms by (simp add: length_slice)
    fix k
    assume "k < length (rev (drop (length xs - e) ys))"
    then have k: "k < e" using ys(2) by simp
    have "rev (drop (length xs - e) ys) ! k = ys ! (length xs - 1 - k)"
      using k ys(2) assms by (simp add: rev_nth)
    also have "\<dots> = Prelude.slice xs f e ! k" using ys(3) [OF k] k assms by (simp add: Prelude.slice_def)
    finally show "rev (drop (length xs - e) ys) ! k = Prelude.slice xs f e ! k" .
  qed
  then show ?thesis using ys(1,2) unfolding ys_def by (metis mset_rev)
qed

lemma bounds_in_range:
  assumes "0 \<le> part" and "part < parts" and "n < 2 ^ 63" and "parts < 2 ^ 31"
  shows "partition_bounds n parts part = Inr (n div nat parts, n div nat parts * nat part, n div nat parts * (nat part + 1))"
proof -
  let ?e = "n div nat parts"
  have "?e * (nat part + 1) \<le> ?e * nat parts" using assms(1,2) by (intro mult_le_mono) auto
  also have "\<dots> \<le> n" by simp
  finally have le: "?e * (nat part + 1) \<le> n" .
  have u: "to_unsigned parts = nat parts" "to_unsigned part = nat part" "to_unsigned (part + 1) = nat part + 1"
    using assms by (simp_all add: to_unsigned_nonneg nat_add_distrib)
  have "umul ?e (nat part) = ?e * nat part" "umul (nat part + 1) ?e = ?e * (nat part + 1)"
    using le assms(3) by (simp_all add: umul_small mult.commute)
  then show ?thesis using assms(1,2) le by (simp add: partition_bounds_def u Let_def)
qed

text \<open>
  A partition and what is left without it are the whole, unless it is the last one of a number
  of partitions that does not divide the number of events.
\<close>

lemma partition_complement:
  assumes "0 \<le> part" and "part < parts - 1" and "length (labeled_events lm) < 2 ^ 63" and "parts < 2 ^ 31"
  shows "\<exists>rest test. dropPartition lm parts part = Inr rest \<and> getPartition lm parts part = Inr test \<and>
    mset (labeled_events rest) + mset test = mset (labeled_events lm)"
proof -
  let ?xs = "labeled_events lm" and ?e = "length (labeled_events lm) div nat parts"
  let ?f = "?e * nat part" and ?n = "length (labeled_events lm)"
  have b: "partition_bounds ?n parts part = Inr (?e, ?f, ?e * (nat part + 1))"
    using assms by (intro bounds_in_range) auto
  have "?e * (nat part + 2) \<le> ?e * nat parts" using assms(1,2) by (intro mult_le_mono) auto
  also have "\<dots> \<le> ?n" by simp
  finally have room: "?f + 2 * ?e \<le> ?n" by (simp add: algebra_simps)
  define ys where "ys = swap_from_end ?f ?e (?n - 1) ?xs"
  have rest: "dropPartition lm parts part = Inr (lm\<lparr>labeled_events := take (length ys - ?e) ys\<rparr>)"
    using assms(2) b by (simp add: dropPartition_def Let_def ys_def)
  have test: "getPartition lm parts part = Inr (Prelude.slice ?xs ?f ?e)" using b by (simp add: getPartition_def)
  have ys: "mset ys = mset ?xs" "length ys = ?n" "mset (drop (?n - ?e) ys) = mset (Prelude.slice ?xs ?f ?e)"
    using swapped_out [OF room] unfolding ys_def by blast+
  have "mset ?xs = mset (take (?n - ?e) ys) + mset (drop (?n - ?e) ys)"
    using ys(1) by (metis append_take_drop_id mset_append)
  then show ?thesis using rest test ys(2,3) by simp
qed

section \<open>The validation\<close>

text \<open>An event is filed once as it came, or twice with another label.\<close>

lemma filed_once_or_twice:
  assumes "classifyOneEventAndPushToLabelManager ev s = Some (s', Inr ())"
  shows "\<exists>new. unlabeled_events (event_label_manager s') = unlabeled_events (event_label_manager s) @ new \<and>
    (new = [ev] \<or> length new = 2)"
  using assms
  by (auto simp: classifyOneEventAndPushToLabelManager_def Let_def addUnLabeledEvent_def addClassifiedEvent_def
      split: sum.splits if_splits bind_splits)

lemma classify_all_files:
  "classify_all evs s = Some (s', Inr ()) \<Longrightarrow>
    \<exists>new. unlabeled_events (event_label_manager s') = unlabeled_events (event_label_manager s) @ new \<and>
      length evs \<le> length new \<and> (length new = length evs \<longrightarrow> new = evs)"
proof (induction evs arbitrary: s)
  case (Cons ev evs)
  obtain s1 where s1: "classifyOneEventAndPushToLabelManager ev s = Some (s1, Inr ())" "classify_all evs s1 = Some (s', Inr ())"
    using Cons.prems by (auto simp: op_bind_def split: option.splits sum.splits)
  obtain a where a: "unlabeled_events (event_label_manager s1) = unlabeled_events (event_label_manager s) @ a" "a = [ev] \<or> length a = 2"
    using filed_once_or_twice [OF s1(1)] by blast
  obtain b where "unlabeled_events (event_label_manager s') = unlabeled_events (event_label_manager s1) @ b"
      "length evs \<le> length b" "length b = length evs \<longrightarrow> b = evs"
    using Cons.IH [OF s1(2)] by blast
  then show ?case using a by (intro exI [of _ "a @ b"]) auto
qed (simp add: op_return_def)

lemma guesses_same: "guesses evs evs = Inr gs \<Longrightarrow>
  map actual_label gs = map (\<lambda>ev. the (event_label (event_meta_data ev))) evs \<and>
  map classified_label gs = map (\<lambda>ev. the (event_label (event_meta_data ev))) evs"
proof (induction evs arbitrary: gs)
  case (Cons ev evs)
  then obtain l i hs where "event_label (event_meta_data ev) = Some l" "guesses evs evs = Inr hs" "gs = Guess l l i # hs"
    by (auto simp: res_map_eq_iff split: option.splits)
  then show ?case using Cons.IH by (auto simp: Guess_def)
qed simp

text \<open>
  C39: whenever a partition is validated, every event in it counts as classified correctly, however
  it was classified.
\<close>

theorem validation_always_succeeds:
  assumes "validatePartition lm test_data = Some (Inr cvs)" and "unlabeled_events lm = []" and "numbered test_data"
  shows "map classified_label (broken_down cvs) = map (\<lambda>ev. the (event_label (event_meta_data ev))) test_data \<and>
    correctClassifications cvs = broken_down cvs \<and> incorrectClassifications cvs = [] \<and> length (broken_down cvs) = length test_data"
proof -
  obtain s where run: "op_bind (setEventLabelManager lm) (\<lambda>_. classify_all test_data) (DataClassifier :: blued_data_point data_classifier) = Some (s, Inr ())"
    and len: "length (unlabeled_events (event_label_manager s)) = length test_data"
    and gs: "guesses test_data (unlabeled_events (event_label_manager s)) = Inr (broken_down cvs)"
    using assms(1) by (auto simp: validatePartition_def Let_def res_bind_eq_Inr_iff res_map_eq_iff split: if_splits)
  obtain s0 where s0: "setEventLabelManager lm (DataClassifier :: blued_data_point data_classifier) = Some (s0, Inr ())" "classify_all test_data s0 = Some (s, Inr ())"
    using run by (auto simp: op_bind_def split: option.splits sum.splits)
  have "regenerateMatrix ((DataClassifier :: blued_data_point data_classifier)\<lparr>event_label_manager := lm\<rparr>) = Some (s0, Inr ())"
    using s0(1) by (simp add: setEventLabelManager_def)
  from keeps_labelsD [OF keeps_labels_regenerate this] have "event_label_manager s0 = lm" by (simp add: same_labels_def)
  then have "unlabeled_events (event_label_manager s) = test_data"
    using classify_all_files [OF s0(2)] len assms(2) by auto
  then have same: "map actual_label (broken_down cvs) = map (\<lambda>ev. the (event_label (event_meta_data ev))) test_data"
    "map classified_label (broken_down cvs) = map (\<lambda>ev. the (event_label (event_meta_data ev))) test_data"
    using guesses_same gs by simp_all
  have right: "\<forall>g \<in> set (broken_down cvs). fl_eq (classified_label g) (actual_label g)"
  proof
    fix g
    assume g: "g \<in> set (broken_down cvs)"
    then have "classified_label g \<in> (\<lambda>ev. the (event_label (event_meta_data ev))) ` set test_data"
      using same(2) by (metis image_eqI image_set)
    then have "classified_label g \<noteq> NaN" using assms(3) by (force simp: numbered_def)
    moreover have "actual_label g = classified_label g" using same g by (metis map_eq_conv)
    ultimately show "fl_eq (classified_label g) (actual_label g)" by (simp add: fl_eq_key)
  qed
  moreover have "length (broken_down cvs) = length test_data" using same(1) map_eq_imp_length_eq by blast
  ultimately show ?thesis using same(2)
    by (simp add: correctClassifications_def incorrectClassifications_def filter_id_conv filter_empty_conv)
qed


lemma classify_succeeds:
  assumes "nns s = Search t" and "searchable t s" and "numbered (labeled s)" and "neighbours_considered < length (mat_cols (labeled_matrix s))"
    and "length (feature_vector ev) = mat_rows (labeled_matrix s)"
  shows "classifyOneEventAndPushToLabelManager ev s = Some (s\<lparr>event_classified := event_classified s @ [ev],
    event_label_manager := addClassifiedEvent ev (event_label_manager s)\<rparr>, Inr ())"
proof -
  have many: "neighbours_considered < length (labeled s)" using assms(2,4) by (simp add: searchable_def)
  show ?thesis
  proof (rule search_found [OF assms(1,2,5) many assms(4)])
    fix query col touched
    assume col: "length col = neighbours_considered" "set (map entry_index col) \<subseteq> {..<length (labeled s)}"
      and c: "classifyOneEvent ev s = Some (vote (labeled s) (map entry_index col) ev)"
    have "map entry_index col \<noteq> []" using col(1) by (auto simp: neighbours_considered_def)
    from vote_result [OF assms(3) col(2) this, of ev] obtain x where "vote (labeled s) (map entry_index col) ev = Inr x" by blast
    then show ?thesis using c by (simp add: classifyOneEventAndPushToLabelManager_def Let_def)
  qed
qed

lemma classify_all_succeeds:
  assumes "nns s = Search t" and "searchable t s" and "numbered (labeled s)" and "neighbours_considered < length (mat_cols (labeled_matrix s))"
    and "\<forall>ev \<in> set evs. length (feature_vector ev) = mat_rows (labeled_matrix s)"
  shows "\<exists>s'. classify_all evs s = Some (s', Inr ()) \<and> unlabeled_events (event_label_manager s') = unlabeled_events (event_label_manager s) @ evs"
  using assms
proof (induction evs arbitrary: s)
  case (Cons ev evs)
  define s1 where "s1 = s\<lparr>event_classified := event_classified s @ [ev], event_label_manager := addClassifiedEvent ev (event_label_manager s)\<rparr>"
  have step: "classifyOneEventAndPushToLabelManager ev s = Some (s1, Inr ())"
    using classify_succeeds [of s t ev] Cons.prems by (simp add: s1_def)
  have "\<exists>s'. classify_all evs s1 = Some (s', Inr ()) \<and> unlabeled_events (event_label_manager s') = unlabeled_events (event_label_manager s1) @ evs"
    using Cons.prems by (intro Cons.IH) (simp_all add: s1_def searchable_def addClassifiedEvent_def)
  then show ?case using step by (auto simp: s1_def addClassifiedEvent_def)
qed (simp add: op_return_def)

definition test_event :: "nat \<Rightarrow> event_features" where
  "test_event i = (sample_event i)\<lparr>event_meta_data := (event_meta_data (sample_event i))\<lparr>event_id := Some i\<rparr>\<rparr>"

theorem validation_always_succeeds_witness:
  "\<exists>cvs. validatePartition sample_manager [test_event 1, test_event 5] = Some (Inr cvs) \<and>
    correctClassifications cvs = broken_down cvs \<and> length (broken_down cvs) = 2"
proof -
  let ?tests = "[test_event 1, test_event 5]"
  define s0 :: "blued_data_point data_classifier" where "s0 = DataClassifier\<lparr>event_label_manager := sample_manager\<rparr>"
  obtain s t where s: "regenerateMatrix s0 = Some (s, Inr ())" "nns s = Search t" "event_label_manager s = sample_manager"
    "mat_rows (labeled_matrix s) = 1" "length (mat_cols (labeled_matrix s)) = 7"
    using regenerate_small [of s0 1] sample_manager_facts by (auto simp: s0_def DataClassifier_def)
  have bits: "getStorageBitCount 1 = 1" by (simp add: getStorageBitCount_def storage_bits.simps)
  have "classifier_fits s0" "labeled s0 \<noteq> []" "classification_config s0 = ClassificationConfig"
    using sample_manager_facts bits by (simp_all add: classifier_fits_def s0_def DataClassifier_def)
  then have "searchable t s" using regenerate_result [OF s(1)] s(2) by simp
  then obtain s' where s': "classify_all ?tests s = Some (s', Inr ())" "unlabeled_events (event_label_manager s') = ?tests"
    using classify_all_succeeds [of s t ?tests] s sample_manager_facts
    by (auto simp: test_event_def sample_event_def neighbours_considered_def sample_manager_def)
  have "setEventLabelManager sample_manager DataClassifier = Some (s, Inr ())"
    using s(1) by (simp add: setEventLabelManager_def s0_def)
  then have "validatePartition sample_manager ?tests = Some (Inr \<lparr>broken_down = map (\<lambda>i. Guess (Fin False (of_nat (i div 4))) (Fin False (of_nat (i div 4))) i) [1, 5]\<rparr>)"
    using s' by (simp add: validatePartition_def Let_def test_event_def sample_event_def)
  moreover have "unlabeled_events sample_manager = []" "numbered ?tests"
    by (auto simp: sample_manager_def numbered_def test_event_def sample_event_def)
  ultimately show ?thesis using validation_always_succeeds [of sample_manager ?tests] by fastforce
qed

end
