(* ===== verification/Stream_Distributor.thy ===== *)
theory Stream_Distributor
  imports Async_Queue Stream_Meta
begin

text \<open>
  The distributor of the data stream (\<^verbatim>\<open>event_detector/src/DataStreamDistributor.h\<close>) and the
  interface of its workers (\<^verbatim>\<open>event_detector/src/DataStreamWorker.h\<close>). The distributor keeps a
  window of the stream and hands each worker the pieces it asks for.

  A worker is a state \<open>'w\<close> with the virtual method \<open>work\<close>, which gets the points of the range
  \<^verbatim>\<open>[begin, end)\<close> and the number of the first one, and answers with what it wants next (or
  throws, keeping the changes it has made). The locale \<open>stream_worker\<close> states what the
  distributor needs of a worker; under it the window is always a piece of the stream, every
  worker gets exactly the pieces it asked for, and what it computes depends on the stream
  alone, not on how the points arrived (\<open>loopWorkersOnce\<close> refines \<open>advance\<close>).

  \<open>None\<close> is a call that does not return: it waits for data that never comes, or a worker
  asks for nothing for ever.
\<close>

section \<open>State\<close>

record read_info =
  keep :: nat
  read_n :: nat
  next_loc :: int

definition NextReadInfos :: "nat \<Rightarrow> nat \<Rightarrow> int \<Rightarrow> read_info" where
  "NextReadInfos k r n = \<lparr>keep = k, read_n = r, next_loc = n\<rparr>"

type_synonym ('w, 'a) work_method = "'w \<Rightarrow> 'a list \<Rightarrow> int \<Rightarrow> 'w \<times> read_info res"

record ('w, 'a, 'm) distributor =
  dist_meta_data :: 'm
  workers :: "'w list"
  read_infos :: "read_info list"
  current_global_buffer_pos :: int
  buffered :: "'a list"

definition DataStreamDistributor :: "'m \<Rightarrow> ('w, 'a, 'm) distributor" where
  "DataStreamDistributor m =
     \<lparr>dist_meta_data = m, workers = [], read_infos = [], current_global_buffer_pos = 0, buffered = []\<rparr>"

section \<open>Operations\<close>

definition getStreamMetaData :: "('w, 'a, 'm) distributor \<Rightarrow> 'm" where
  "getStreamMetaData d = dist_meta_data d"

text \<open>\<open>set_meta\<close> is the worker's \<^verbatim>\<open>setStreamMetaData\<close>.\<close>

definition setStreamMetaData ::
  "('m \<Rightarrow> 'w \<Rightarrow> 'w) \<Rightarrow> 'm \<Rightarrow> ('w, 'a, 'm) distributor \<Rightarrow> ('w, 'a, 'm) distributor" where
  "setStreamMetaData set_meta m d = d\<lparr>dist_meta_data := m, workers := map (set_meta m) (workers d)\<rparr>"

definition addWorker ::
  "('w, 'a) work_method \<Rightarrow> ('m \<Rightarrow> 'w \<Rightarrow> 'w) \<Rightarrow> 'w \<Rightarrow> ('w, 'a, 'm) distributor \<Rightarrow>
     ('w, 'a, 'm) distributor \<times> unit res" where
  "addWorker work set_meta w d =
     (case work (set_meta (dist_meta_data d) w) [] (current_global_buffer_pos d) of
        (w', Inl e) \<Rightarrow> (d\<lparr>workers := workers d @ [w']\<rparr>, Inl e)
      | (w', Inr ri) \<Rightarrow> (d\<lparr>workers := workers d @ [w'], read_infos := read_infos d @ [ri]\<rparr>, Inr ()))"

definition getIndexInLocalBufferforRead :: "platform \<Rightarrow> nat \<Rightarrow> ('w, 'a, 'm) distributor \<Rightarrow> nat" where
  "getIndexInLocalBufferforRead p read_index d =
     (let n = next_loc (read_infos d ! read_index)
      in if n < current_global_buffer_pos d then 0
         else cpp_int_to_size p (n - current_global_buffer_pos d))"

text \<open>The greatest end of a requested read; dereferencing the end of an empty vector is undefined.\<close>

definition read_end :: "read_info \<Rightarrow> int" where
  "read_end ri = next_loc ri + int (read_n ri)"

definition dataPointsNeededForNextRun :: "platform \<Rightarrow> ('w, 'a, 'm) distributor \<Rightarrow> nat res" where
  "dataPointsNeededForNextRun p d =
     (case max_element (\<lambda>a b. read_end a < read_end b) (read_infos d) of
        None \<Rightarrow> Inl Undefined
      | Some m \<Rightarrow> Inr (cpp_int_to_size p
          (read_end m - int (length (buffered d)) - current_global_buffer_pos d)))"

text \<open>
  The buffer is first enlarged by the number of points wanted, then filled by the queue, then
  cut to what the queue delivered.
\<close>

definition readBufferForNextRun ::
  "platform \<Rightarrow> 'a async_queue \<Rightarrow> ('w, 'a, 'm) distributor \<Rightarrow>
     ((('w, 'a, 'm) distributor \<times> 'a async_queue) \<times> unit res) option" where
  "readBufferForNextRun p q d =
     (case dataPointsNeededForNextRun p d of
        Inl e \<Rightarrow> Some ((d, q), Inl e)
      | Inr needed \<Rightarrow>
          (if needed \<le> 0 then Some ((d, q), Inr ())
           else let old = length (buffered d); new = uadd old needed
                in if deque_max_size p < new then Some ((d, q), Inl Std_exception)
                   else if new < old then Some ((d, q), Inl Undefined)
                   else map_option (\<lambda>(xs, q'). ((d\<lparr>buffered := buffered d @ xs\<rparr>, q'), Inr ()))
                          (popDataPoints (new - old) q)))"

definition executeWorkerOnce ::
  "platform \<Rightarrow> ('w, 'a) work_method \<Rightarrow> nat \<Rightarrow> nat \<Rightarrow> ('w, 'a, 'm) distributor \<Rightarrow>
     ('w, 'a, 'm) distributor \<times> nat res" where
  "executeWorkerOnce p work index local_buffer_index d =
     (if length (buffered d) < local_buffer_index then (d, Inl Undefined)
      else let actual_end = min (read_n (read_infos d ! index))
                              (usub (length (buffered d)) local_buffer_index)
           in case work (workers d ! index) (slice (buffered d) local_buffer_index actual_end)
                     (current_global_buffer_pos d + int local_buffer_index) of
                (w, Inl e) \<Rightarrow> (d\<lparr>workers := (workers d)[index := w]\<rparr>, Inl e)
              | (w, Inr ri) \<Rightarrow>
                  let d' = d\<lparr>workers := (workers d)[index := w], read_infos := (read_infos d)[index := ri]\<rparr>
                  in (d', Inr (getIndexInLocalBufferforRead p index d')))"

partial_function (option) work_while_data ::
  "platform \<Rightarrow> ('w, 'a) work_method \<Rightarrow> nat \<Rightarrow> nat \<Rightarrow> bool \<Rightarrow> ('w, 'a, 'm) distributor \<Rightarrow>
     (('w, 'a, 'm) distributor \<times> bool res) option" where
  "work_while_data p work index local_buffer_index read_stuff d =
     (if read_n (read_infos d ! index) \<le> usub (length (buffered d)) local_buffer_index
      then (case executeWorkerOnce p work index local_buffer_index d of
              (d', Inl e) \<Rightarrow> Some (d', Inl e)
            | (d', Inr i) \<Rightarrow> work_while_data p work index i True d')
      else Some (d, Inr read_stuff))"

text \<open>An index past the vectors' ends is undefined (a worker whose first call threw has no read info).\<close>

definition executeWorkerWhileDataInBuffer ::
  "platform \<Rightarrow> ('w, 'a) work_method \<Rightarrow> nat \<Rightarrow> ('w, 'a, 'm) distributor \<Rightarrow>
     (('w, 'a, 'm) distributor \<times> bool res) option" where
  "executeWorkerWhileDataInBuffer p work index d =
     (if length (read_infos d) \<le> index then Some (d, Inl Undefined)
      else work_while_data p work index (getIndexInLocalBufferforRead p index d) False d)"

text \<open>The inner loop of \<open>loopWorkersOnce\<close>: the worker runs until it has not run.\<close>

partial_function (option) run_worker ::
  "platform \<Rightarrow> ('w, 'a) work_method \<Rightarrow> nat \<Rightarrow> bool \<Rightarrow> ('w, 'a, 'm) distributor \<Rightarrow>
     (('w, 'a, 'm) distributor \<times> bool res) option" where
  "run_worker p work index executed d =
     (case executeWorkerWhileDataInBuffer p work index d of
        None \<Rightarrow> None
      | Some (d', Inl e) \<Rightarrow> Some (d', Inl e)
      | Some (d', Inr read_stuff) \<Rightarrow>
          (if read_stuff then run_worker p work index True d' else Some (d', Inr executed)))"

fun run_workers ::
  "platform \<Rightarrow> ('w, 'a) work_method \<Rightarrow> nat list \<Rightarrow> bool \<Rightarrow> ('w, 'a, 'm) distributor \<Rightarrow>
     (('w, 'a, 'm) distributor \<times> bool res) option" where
  "run_workers p work [] executed d = Some (d, Inr executed)"
| "run_workers p work (j # js) executed d =
     (case run_worker p work j executed d of
        None \<Rightarrow> None
      | Some (d', Inl e) \<Rightarrow> Some (d', Inl e)
      | Some (d', Inr executed') \<Rightarrow> run_workers p work js executed' d')"

definition earliest :: "read_info \<Rightarrow> int" where
  "earliest ri = next_loc ri - int (keep ri)"

definition freeUnusedBuffer :: "platform \<Rightarrow> ('w, 'a, 'm) distributor \<Rightarrow> ('w, 'a, 'm) distributor res" where
  "freeUnusedBuffer p d =
     (case min_element (\<lambda>a b. earliest a < earliest b) (read_infos d) of
        None \<Rightarrow> Inl Undefined
      | Some m \<Rightarrow>
          (if earliest m \<le> current_global_buffer_pos d then Inr d
           else let elements_erased = cpp_int_to_size p (earliest m - current_global_buffer_pos d)
                in if length (buffered d) < elements_erased then Inl Undefined
                   else Inr (d\<lparr>buffered := drop elements_erased (buffered d),
                               current_global_buffer_pos := earliest m\<rparr>)))"

definition loopWorkersOnce ::
  "platform \<Rightarrow> ('w, 'a) work_method \<Rightarrow> 'a async_queue \<Rightarrow> ('w, 'a, 'm) distributor \<Rightarrow>
     ((('w, 'a, 'm) distributor \<times> 'a async_queue) \<times> bool res) option" where
  "loopWorkersOnce p work q d =
     (case readBufferForNextRun p q d of
        None \<Rightarrow> None
      | Some ((d1, q1), Inl e) \<Rightarrow> Some ((d1, q1), Inl e)
      | Some ((d1, q1), Inr _) \<Rightarrow>
          (case run_workers p work [0..<length (workers d1)] False d1 of
             None \<Rightarrow> None
           | Some (d2, Inl e) \<Rightarrow> Some ((d2, q1), Inl e)
           | Some (d2, Inr one_worker_was_executed) \<Rightarrow>
               (case freeUnusedBuffer p d2 of
                  Inl e \<Rightarrow> Some ((d2, q1), Inl e)
                | Inr d3 \<Rightarrow> Some ((d3, q1), Inr one_worker_was_executed))))"

section \<open>What a worker promises, and what the distributor computes\<close>

text \<open>
  The abstract distributor: a worker that always finds the piece it asks for in the stream
  \<open>stream\<close>, until that is exhausted.
\<close>

partial_function (option) advance ::
  "('w, 'a) work_method \<Rightarrow> 'a list \<Rightarrow> 'w \<Rightarrow> read_info \<Rightarrow> ('w \<times> read_info res) option" where
  "advance work stream w ri =
     (if read_end ri \<le> int (length stream)
      then (case work w (slice stream (nat (next_loc ri)) (read_n ri)) (next_loc ri) of
              (w', Inl e) \<Rightarrow> Some (w', Inl e)
            | (w', Inr ri') \<Rightarrow> advance work stream w' ri')
      else Some (w, Inr ri))"

text \<open>
  Given what it asked for, with points that are \<open>good\<close>, a worker answers, asks for something, keeps asking for later points,
  and never skips past the piece it got.
\<close>

locale stream_worker =
  fixes work :: "('w, 'a) work_method"
    and ok :: "'w \<Rightarrow> read_info \<Rightarrow> bool"
    and good :: "'a \<Rightarrow> bool"
  assumes work_step: "ok w ri \<Longrightarrow> length xs = read_n ri \<Longrightarrow> \<forall>x \<in> set xs. good x \<Longrightarrow> \<exists>w' ri'. work w xs (next_loc ri) = (w', Inr ri')
      \<and> ok w' ri' \<and> earliest ri < earliest ri' \<and> next_loc ri' \<le> read_end ri"
    and asks: "ok w ri \<Longrightarrow> 0 < read_n ri"
begin

lemma advance_done: "int (length stream) < read_end ri \<Longrightarrow> advance work stream w ri = Some (w, Inr ri)"
  by (subst advance.simps) simp

lemma step_obtain:
  assumes "ok w ri" and "0 \<le> earliest ri" and "read_end ri \<le> int (length stream)"
    and "\<forall>x \<in> set stream. good x"
  obtains w' ri' where "work w (slice stream (nat (next_loc ri)) (read_n ri)) (next_loc ri) = (w', Inr ri')"
    and "ok w' ri'" and "earliest ri < earliest ri'" and "next_loc ri' \<le> int (length stream)"
    and "advance work stream w ri = advance work stream w' ri'"
proof -
  let ?xs = "slice stream (nat (next_loc ri)) (read_n ri)"
  have "length ?xs = read_n ri"
    using assms(2,3) by (intro length_slice_full) (simp add: earliest_def read_end_def)
  moreover have "\<forall>x \<in> set ?xs. good x" using assms(4) set_slice [of stream] by blast
  ultimately obtain w' ri' where r: "work w ?xs (next_loc ri) = (w', Inr ri')"
    "ok w' ri'" "earliest ri < earliest ri'" "next_loc ri' \<le> read_end ri"
    using work_step [OF assms(1)] by blast
  moreover have "advance work stream w ri = advance work stream w' ri'"
    using assms(3) r(1) by (subst advance.simps) simp
  ultimately show thesis using that assms(3) by (metis order_trans)
qed

text \<open>The distance that is left shrinks with every step.\<close>

definition left :: "'a list \<Rightarrow> read_info \<Rightarrow> nat" where
  "left stream ri = nat (int (length stream) - earliest ri)"

lemma left_less:
  "earliest ri < earliest ri' \<Longrightarrow> read_end ri \<le> int (length stream) \<Longrightarrow> ok w ri \<Longrightarrow> left stream ri' < left stream ri"
  using asks [of w ri] by (simp add: left_def earliest_def read_end_def)

lemma advance_returns:
  assumes "ok w ri" and "0 \<le> earliest ri" and gs: "\<forall>x \<in> set stream. good x"
  shows "\<exists>w' ri'. advance work stream w ri = Some (w', Inr ri') \<and> ok w' ri' \<and> earliest ri \<le> earliest ri'
     \<and> int (length stream) < read_end ri' \<and> next_loc ri' \<le> max (next_loc ri) (int (length stream))"
  using assms(1,2)
proof (induction "left stream ri" arbitrary: w ri rule: less_induct)
  case less
  show ?case
  proof (cases "read_end ri \<le> int (length stream)")
    case False
    then show ?thesis using less.prems by (simp add: advance_done)
  next
    case True
    obtain w' ri' where s: "ok w' ri'" "earliest ri < earliest ri'" "next_loc ri' \<le> int (length stream)"
      "advance work stream w ri = advance work stream w' ri'"
      using step_obtain [OF less.prems True gs] by metis
    have "\<exists>w'' ri''. advance work stream w' ri' = Some (w'', Inr ri'') \<and> ok w'' ri'' \<and>
       earliest ri' \<le> earliest ri'' \<and> int (length stream) < read_end ri'' \<and>
       next_loc ri'' \<le> max (next_loc ri') (int (length stream))"
      using less.hyps [OF left_less [OF s(2) True less.prems(1)] s(1)] s(2) less.prems(2) by simp
    then show ?thesis using s by fastforce
  qed
qed

lemma advance_append:
  assumes "ok w ri" and "0 \<le> earliest ri" and "advance work stream w ri = Some (w', Inr ri')"
    and gs: "\<forall>x \<in> set stream. good x"
  shows "advance work (stream @ rest) w ri = advance work (stream @ rest) w' ri'"
  using assms(1-3)
proof (induction "left stream ri" arbitrary: w ri rule: less_induct)
  case less
  show ?case
  proof (cases "read_end ri \<le> int (length stream)")
    case False
    then show ?thesis using less.prems(3) by (simp add: advance_done)
  next
    case True
    obtain v rj where s: "work w (slice stream (nat (next_loc ri)) (read_n ri)) (next_loc ri) = (v, Inr rj)"
      "ok v rj" "earliest ri < earliest rj" "advance work stream w ri = advance work stream v rj"
      using step_obtain [OF less.prems(1,2) True gs] by metis
    have "slice (stream @ rest) (nat (next_loc ri)) (read_n ri) = slice stream (nat (next_loc ri)) (read_n ri)"
      using True less.prems(2) by (simp add: slice_def read_end_def earliest_def)
    then have "advance work (stream @ rest) w ri = advance work (stream @ rest) v rj"
      using True s(1) by (subst advance.simps) simp
    then show ?thesis
      using less.hyps [OF left_less [OF s(3) True less.prems(1)] s(2)] s(3,4) less.prems by simp
  qed
qed

end

section \<open>The window and the workers\<close>

definition window :: "'a list \<Rightarrow> ('w, 'a, 'm) distributor \<Rightarrow> bool" where
  "window stream d \<longleftrightarrow> 0 \<le> current_global_buffer_pos d \<and>
     current_global_buffer_pos d \<le> int (length stream) \<and>
     buffered d = drop (nat (current_global_buffer_pos d)) stream"

definition workers_ok :: "('w \<Rightarrow> read_info \<Rightarrow> bool) \<Rightarrow> ('w, 'a, 'm) distributor \<Rightarrow> bool" where
  "workers_ok ok d \<longleftrightarrow> length (workers d) = length (read_infos d) \<and>
     (\<forall>j < length (workers d). ok (workers d ! j) (read_infos d ! j) \<and>
        current_global_buffer_pos d \<le> earliest (read_infos d ! j))"

text \<open>No worker asks for a piece that begins past the end of what has arrived.\<close>

definition reads_within :: "'a list \<Rightarrow> ('w, 'a, 'm) distributor \<Rightarrow> bool" where
  "reads_within stream d \<longleftrightarrow> (\<forall>ri \<in> set (read_infos d). next_loc ri \<le> int (length stream))"

definition put_worker :: "nat \<Rightarrow> 'w \<Rightarrow> read_info \<Rightarrow> ('w, 'a, 'm) distributor \<Rightarrow> ('w, 'a, 'm) distributor" where
  "put_worker j w ri d = d\<lparr>workers := (workers d)[j := w], read_infos := (read_infos d)[j := ri]\<rparr>"

lemma put_worker_simps [simp]:
  "workers (put_worker j w ri d) = (workers d)[j := w]"
  "read_infos (put_worker j w ri d) = (read_infos d)[j := ri]"
  "buffered (put_worker j w ri d) = buffered d"
  "current_global_buffer_pos (put_worker j w ri d) = current_global_buffer_pos d"
  "dist_meta_data (put_worker j w ri d) = dist_meta_data d"
  "put_worker j w ri (put_worker j w' ri' d) = put_worker j w ri d"
  by (simp_all add: put_worker_def)

lemma put_worker_window [simp]: "window stream (put_worker j w ri d) = window stream d"
  by (simp add: window_def)

lemma put_worker_ok:
  assumes "workers_ok ok d" and "ok w ri" and "current_global_buffer_pos d \<le> earliest ri"
  shows "workers_ok ok (put_worker j w ri d)"
  unfolding workers_ok_def
proof (intro conjI allI impI)
  fix i
  assume i: "i < length (workers (put_worker j w ri d))"
  have "length (workers d) = length (read_infos d)" using assms(1) by (simp add: workers_ok_def)
  with assms i show "ok (workers (put_worker j w ri d) ! i) (read_infos (put_worker j w ri d) ! i)"
    and "current_global_buffer_pos (put_worker j w ri d) \<le> earliest (read_infos (put_worker j w ri d) ! i)"
    by (cases "i = j"; simp add: workers_ok_def)+
qed (use assms(1) in \<open>simp add: workers_ok_def\<close>)

lemma put_worker_within:
  "reads_within stream d \<Longrightarrow> next_loc ri \<le> int (length stream) \<Longrightarrow> reads_within stream (put_worker j w ri d)"
  by (auto simp: reads_within_def dest: set_update_subset_insert [THEN subsetD])

lemma put_worker_same [simp]:
  "j < length (workers d) \<Longrightarrow> length (workers d) = length (read_infos d) \<Longrightarrow>
     put_worker j (workers d ! j) (read_infos d ! j) d = d"
  by (simp add: put_worker_def)

lemma window_length:
  "window stream d \<Longrightarrow> int (length (buffered d)) = int (length stream) - current_global_buffer_pos d"
  by (simp add: window_def nat_le_iff of_nat_diff)

lemma earliest_le_next: "earliest ri \<le> next_loc ri"
  by (simp add: earliest_def)

text \<open>The local index of a worker's next read.\<close>

lemma local_index:
  assumes "faithful_platform p" and "window stream d" and "length stream < 2 ^ 63"
    and "current_global_buffer_pos d \<le> next_loc (read_infos d ! j)"
    and "next_loc (read_infos d ! j) \<le> int (length stream)"
  shows "getIndexInLocalBufferforRead p j d = nat (next_loc (read_infos d ! j) - current_global_buffer_pos d)"
    and "nat (next_loc (read_infos d ! j) - current_global_buffer_pos d) \<le> length (buffered d)"
proof -
  have "next_loc (read_infos d ! j) - current_global_buffer_pos d < 2 ^ 64"
    using assms(2,3,5) by (simp add: window_def)
  then show "getIndexInLocalBufferforRead p j d = nat (next_loc (read_infos d ! j) - current_global_buffer_pos d)"
    using assms(1,4) by (simp add: getIndexInLocalBufferforRead_def Let_def cpp_int_to_size_id)
  show "nat (next_loc (read_infos d ! j) - current_global_buffer_pos d) \<le> length (buffered d)"
    using window_length [OF assms(2)] assms(5) by simp
qed

lemma slice_window:
  assumes "window stream d" and "current_global_buffer_pos d \<le> n"
  shows "slice (buffered d) (nat (n - current_global_buffer_pos d)) k = slice stream (nat n) k"
  using assms by (simp add: window_def slice_def nat_diff_distrib)

text \<open>The arithmetic of the loop's condition, without wrap-around.\<close>

lemma data_left:
  assumes "window stream d" and "length stream < 2 ^ 63" and "current_global_buffer_pos d \<le> next_loc ri"
    and "next_loc ri \<le> int (length stream)"
  shows "usub (length (buffered d)) (nat (next_loc ri - current_global_buffer_pos d))
       = nat (int (length stream) - next_loc ri)"
    and "read_n ri \<le> usub (length (buffered d)) (nat (next_loc ri - current_global_buffer_pos d))
       \<longleftrightarrow> read_end ri \<le> int (length stream)"
proof -
  note len = window_length [OF assms(1)]
  show eq: "usub (length (buffered d)) (nat (next_loc ri - current_global_buffer_pos d))
       = nat (int (length stream) - next_loc ri)"
    using len assms by (subst usub_le) (auto simp: window_def)
  show "read_n ri \<le> usub (length (buffered d)) (nat (next_loc ri - current_global_buffer_pos d))
       \<longleftrightarrow> read_end ri \<le> int (length stream)"
    unfolding eq using assms(4) by (simp add: read_end_def nat_le_eq_zle le_nat_iff algebra_simps)
qed

context stream_worker
begin

lemma executeWorkerOnce_step:
  assumes "faithful_platform p" and "window stream d" and "length stream < 2 ^ 63"
    and "workers_ok ok d" and "j < length (workers d)"
    and "read_end (read_infos d ! j) \<le> int (length stream)"
    and gs: "\<forall>x \<in> set stream. good x"
  obtains w ri where
    "executeWorkerOnce p work j (nat (next_loc (read_infos d ! j) - current_global_buffer_pos d)) d
       = (put_worker j w ri d, Inr (nat (next_loc ri - current_global_buffer_pos d)))"
    and "ok w ri" and "earliest (read_infos d ! j) < earliest ri" and "next_loc ri \<le> int (length stream)"
    and "advance work stream (workers d ! j) (read_infos d ! j) = advance work stream w ri"
proof -
  let ?ri = "read_infos d ! j" and ?pos = "current_global_buffer_pos d"
  have ok: "ok (workers d ! j) ?ri" "?pos \<le> earliest ?ri" "j < length (read_infos d)"
    using assms(4,5) by (auto simp: workers_ok_def)
  have pos: "0 \<le> ?pos" "?pos \<le> next_loc ?ri"
    using assms(2) ok(2) earliest_le_next [of ?ri] by (simp_all add: window_def)
  have within: "next_loc ?ri \<le> int (length stream)" using assms(6) by (simp add: read_end_def)
  have room: "nat (next_loc ?ri - ?pos) \<le> length (buffered d)"
    by (rule local_index(2) [OF assms(1-3) pos(2) within])
  have n: "min (read_n ?ri) (usub (length (buffered d)) (nat (next_loc ?ri - ?pos))) = read_n ?ri"
    using data_left(2) [OF assms(2,3) pos(2) within] assms(6) by simp
  obtain w ri where s: "work (workers d ! j) (slice stream (nat (next_loc ?ri)) (read_n ?ri)) (next_loc ?ri) = (w, Inr ri)"
    "ok w ri" "earliest ?ri < earliest ri" "next_loc ri \<le> int (length stream)"
    "advance work stream (workers d ! j) ?ri = advance work stream w ri"
  proof -
    have "0 \<le> earliest ?ri" using ok(2) pos(1) by linarith
    from step_obtain [OF ok(1) this assms(6) gs] that show thesis by blast
  qed
  let ?d = "put_worker j w ri d"
  have at: "?pos + int (nat (next_loc ?ri - ?pos)) = next_loc ?ri" using pos by simp
  have index: "getIndexInLocalBufferforRead p j ?d = nat (next_loc ri - ?pos)"
  proof -
    have at: "(read_infos d)[j := ri] ! j = ri" using ok(3) by simp
    have "window stream ?d" "?pos \<le> next_loc ri"
      using assms(2) ok(2) s(3) earliest_le_next [of ri] by simp_all
    then show ?thesis using local_index(1) [OF assms(1) _ assms(3), of ?d j] s(4)
      unfolding put_worker_simps at by blast
  qed
  have "executeWorkerOnce p work j (nat (next_loc ?ri - ?pos)) d
       = (?d, Inr (nat (next_loc ri - ?pos)))"
    unfolding executeWorkerOnce_def Let_def n slice_window [OF assms(2) pos(2)] at
    by (simp only: s(1) put_worker_def [symmetric] index prod.case sum.case Let_def leD [OF room] if_False)
  then show thesis using that s by blast
qed

lemma work_while_data_result:
  assumes "faithful_platform p" and "window stream d" and "length stream < 2 ^ 63"
    and "workers_ok ok d" and "j < length (workers d)"
    and "next_loc (read_infos d ! j) \<le> int (length stream)"
    and gs: "\<forall>x \<in> set stream. good x"
  shows "\<exists>w ri. advance work stream (workers d ! j) (read_infos d ! j) = Some (w, Inr ri) \<and>
     work_while_data p work j (nat (next_loc (read_infos d ! j) - current_global_buffer_pos d)) read_stuff d
       = Some (put_worker j w ri d, Inr (read_stuff \<or> read_end (read_infos d ! j) \<le> int (length stream)))"
  using assms(2,4-6)
proof (induction "left stream (read_infos d ! j)" arbitrary: d read_stuff rule: less_induct)
  case less
  let ?ri = "read_infos d ! j" and ?pos = "current_global_buffer_pos d"
  have ok: "ok (workers d ! j) ?ri" "?pos \<le> earliest ?ri" "length (workers d) = length (read_infos d)"
    using less.prems(2,3) by (auto simp: workers_ok_def)
  have pos: "?pos \<le> next_loc ?ri" using ok(2) earliest_le_next [of ?ri] by simp
  note cond = data_left(2) [OF less.prems(1) assms(3) pos less.prems(4)]
  show ?case
  proof (cases "read_end ?ri \<le> int (length stream)")
    case False
    then show ?thesis using cond less.prems(3) ok(3)
      by (subst work_while_data.simps) (simp add: advance_done)
  next
    case True
    obtain w ri where s:
      "executeWorkerOnce p work j (nat (next_loc ?ri - ?pos)) d = (put_worker j w ri d, Inr (nat (next_loc ri - ?pos)))"
      "ok w ri" "earliest ?ri < earliest ri" "next_loc ri \<le> int (length stream)"
      "advance work stream (workers d ! j) ?ri = advance work stream w ri"
      using executeWorkerOnce_step [OF assms(1) less.prems(1) assms(3) less.prems(2,3) True gs] by metis
    let ?d = "put_worker j w ri d"
    have at: "read_infos ?d ! j = ri" "workers ?d ! j = w" using less.prems(3) ok(3) by simp_all
    have "left stream (read_infos ?d ! j) < left stream ?ri"
      unfolding at by (rule left_less [OF s(3) True ok(1)])
    from less.hyps [OF this, of True] obtain v rj where
      "advance work stream w ri = Some (v, Inr rj)"
      "work_while_data p work j (nat (next_loc ri - ?pos)) True ?d = Some (put_worker j v rj d, Inr True)"
      using less.prems s(2,3,4) ok(2) at by (auto simp: put_worker_ok)
    then show ?thesis using s(1,5) cond True
      by (subst work_while_data.simps) simp
  qed
qed

lemma run_worker_result:
  assumes "faithful_platform p" and "window stream d" and "length stream < 2 ^ 63"
    and "workers_ok ok d" and "j < length (workers d)"
    and "next_loc (read_infos d ! j) \<le> int (length stream)"
    and gs: "\<forall>x \<in> set stream. good x"
  shows "\<exists>w ri. advance work stream (workers d ! j) (read_infos d ! j) = Some (w, Inr ri) \<and>
     run_worker p work j executed d
       = Some (put_worker j w ri d, Inr (executed \<or> read_end (read_infos d ! j) \<le> int (length stream)))"
proof -
  let ?ri = "read_infos d ! j" and ?pos = "current_global_buffer_pos d"
  have ok: "ok (workers d ! j) ?ri" "?pos \<le> earliest ?ri" "length (workers d) = length (read_infos d)"
    using assms(4,5) by (auto simp: workers_ok_def)
  have pos: "?pos \<le> next_loc ?ri" "0 \<le> earliest ?ri" 
    using ok(2) earliest_le_next [of ?ri] assms(2) by (simp_all add: window_def)
  obtain w ri where a: "advance work stream (workers d ! j) ?ri = Some (w, Inr ri)"
    and w: "work_while_data p work j (nat (next_loc ?ri - ?pos)) False d
        = Some (put_worker j w ri d, Inr (read_end ?ri \<le> int (length stream)))"
    using work_while_data_result [OF assms(1-6) gs, of False] by auto
  then have e: "executeWorkerWhileDataInBuffer p work j d
        = Some (put_worker j w ri d, Inr (read_end ?ri \<le> int (length stream)))"
    using local_index(1) [OF assms(1-3) pos(1) assms(6)] assms(5) ok(3)
    by (simp add: executeWorkerWhileDataInBuffer_def)
  show ?thesis
  proof (cases "read_end ?ri \<le> int (length stream)")
    case False
    then show ?thesis using a e by (subst run_worker.simps) simp
  next
    case True
    let ?d = "put_worker j w ri d"
    have d: "ok w ri" "earliest ?ri \<le> earliest ri" "int (length stream) < read_end ri"
      "next_loc ri \<le> int (length stream)"
      using advance_returns [OF ok(1) pos(2) gs] a assms(6) by auto
    have at: "read_infos ?d ! j = ri" "workers ?d ! j = w" using assms(5) ok(3) by simp_all
    have pos': "?pos \<le> next_loc ri" using d(2) ok(2) earliest_le_next [of ri] by simp
    have "workers_ok ok ?d" using assms(4) d(1,2) ok(2) by (intro put_worker_ok) auto
    then obtain v rj where "advance work stream w ri = Some (v, Inr rj)"
      "work_while_data p work j (nat (next_loc ri - ?pos)) False ?d
        = Some (put_worker j v rj d, Inr (read_end ri \<le> int (length stream)))"
      using work_while_data_result [OF assms(1) _ assms(3), of ?d j False] assms(2,5) d(4) at gs by auto
    then have "work_while_data p work j (nat (next_loc ri - ?pos)) False ?d = Some (?d, Inr False)"
      using d(3) by (simp add: advance_done)
    then have e': "executeWorkerWhileDataInBuffer p work j ?d = Some (?d, Inr False)"
      using local_index(1) [OF assms(1) _ assms(3), of ?d j] assms(2,5) ok(3) at pos' d(4)
      by (simp add: executeWorkerWhileDataInBuffer_def)
    have "run_worker p work j True ?d = Some (?d, Inr True)"
      using e' by (subst run_worker.simps) simp
    then show ?thesis using a e True by (subst run_worker.simps) simp
  qed
qed

end

section \<open>One round of the loop\<close>

text \<open>Two distributors that differ in what the workers \<open>js\<close> have done.\<close>

definition workers_advanced ::
  "('w, 'a) work_method \<Rightarrow> 'a list \<Rightarrow> nat set \<Rightarrow> ('w, 'a, 'm) distributor \<Rightarrow> ('w, 'a, 'm) distributor \<Rightarrow> bool" where
  "workers_advanced work stream js d d' \<longleftrightarrow>
     length (workers d') = length (workers d) \<and> length (read_infos d') = length (read_infos d) \<and>
     (\<forall>j < length (workers d).
        if j \<in> js then advance work stream (workers d ! j) (read_infos d ! j)
                       = Some (workers d' ! j, Inr (read_infos d' ! j))
        else workers d' ! j = workers d ! j \<and> read_infos d' ! j = read_infos d ! j)"

definition same_buffer :: "('w, 'a, 'm) distributor \<Rightarrow> ('w, 'a, 'm) distributor \<Rightarrow> bool" where
  "same_buffer d d' \<longleftrightarrow> buffered d' = buffered d \<and>
     current_global_buffer_pos d' = current_global_buffer_pos d \<and> dist_meta_data d' = dist_meta_data d"

lemma same_buffer_window: "same_buffer d d' \<Longrightarrow> window stream d' = window stream d"
  by (simp add: same_buffer_def window_def)

lemma workers_advanced_put:
  assumes "j < length (workers d)" and "length (workers d) = length (read_infos d)" and "j \<notin> js"
    and "advance work stream (workers d ! j) (read_infos d ! j) = Some (w, Inr ri)"
    and "workers_advanced work stream js (put_worker j w ri d) d'"
  shows "workers_advanced work stream (insert j js) d d'"
  unfolding workers_advanced_def
proof (intro conjI allI impI)
  fix i
  assume i: "i < length (workers d)"
  show "if i \<in> insert j js then advance work stream (workers d ! i) (read_infos d ! i)
          = Some (workers d' ! i, Inr (read_infos d' ! i))
        else workers d' ! i = workers d ! i \<and> read_infos d' ! i = read_infos d ! i"
  proof (cases "i = j")
    case True
    then show ?thesis using assms i by (auto simp: workers_advanced_def)
  next
    case False
    then show ?thesis using assms(5) i by (auto simp: workers_advanced_def)
  qed
qed (use assms(5) in \<open>simp_all add: workers_advanced_def\<close>)

context stream_worker
begin

lemma run_workers_result:
  assumes "faithful_platform p" and "length stream < 2 ^ 63"
    and "window stream d" and "workers_ok ok d" and "reads_within stream d"
    and "distinct js" and "\<forall>j \<in> set js. j < length (workers d)"
    and gs: "\<forall>x \<in> set stream. good x"
  shows "\<exists>d'. run_workers p work js executed d
       = Some (d', Inr (executed \<or> (\<exists>j \<in> set js. read_end (read_infos d ! j) \<le> int (length stream)))) \<and>
     same_buffer d d' \<and> workers_advanced work stream (set js) d d' \<and>
     workers_ok ok d' \<and> reads_within stream d'"
  using assms(3-7)
proof (induction js arbitrary: d executed)
  case Nil
  then show ?case by (simp add: same_buffer_def workers_advanced_def)
next
  case (Cons j js)
  have j: "j < length (workers d)" "length (workers d) = length (read_infos d)" "j \<notin> set js"
    using Cons.prems by (auto simp: workers_ok_def)
  have ok: "ok (workers d ! j) (read_infos d ! j)" "current_global_buffer_pos d \<le> earliest (read_infos d ! j)"
    using Cons.prems(2) j(1) by (auto simp: workers_ok_def)
  have within: "next_loc (read_infos d ! j) \<le> int (length stream)"
    using Cons.prems(3) j by (simp add: reads_within_def)
  obtain w ri where a: "advance work stream (workers d ! j) (read_infos d ! j) = Some (w, Inr ri)"
    and r: "run_worker p work j executed d
      = Some (put_worker j w ri d, Inr (executed \<or> read_end (read_infos d ! j) \<le> int (length stream)))"
    using run_worker_result [OF assms(1) Cons.prems(1) assms(2) Cons.prems(2) j(1) within gs] by blast
  let ?d = "put_worker j w ri d"
  have "0 \<le> earliest (read_infos d ! j)" using ok(2) Cons.prems(1) by (simp add: window_def)
  from advance_returns [OF ok(1) this gs] a within
  have n: "ok w ri" "earliest (read_infos d ! j) \<le> earliest ri" "next_loc ri \<le> int (length stream)"
    by auto
  have inv: "workers_ok ok ?d" "reads_within stream ?d"
    using put_worker_ok [OF Cons.prems(2) n(1)] put_worker_within [OF Cons.prems(3) n(3)] n(2) ok(2) by auto
  have rest: "window stream ?d" "distinct js" "\<forall>i \<in> set js. i < length (workers ?d)"
    using Cons.prems by simp_all
  obtain d' where d': "run_workers p work js (executed \<or> read_end (read_infos d ! j) \<le> int (length stream)) ?d
      = Some (d', Inr ((executed \<or> read_end (read_infos d ! j) \<le> int (length stream)) \<or>
          (\<exists>i \<in> set js. read_end (read_infos ?d ! i) \<le> int (length stream))))"
    "same_buffer ?d d'" "workers_advanced work stream (set js) ?d d'" "workers_ok ok d'" "reads_within stream d'"
    using Cons.IH [OF rest(1) inv rest(2,3)] by blast
  have "(\<exists>i \<in> set js. read_end (read_infos ?d ! i) \<le> int (length stream))
      = (\<exists>i \<in> set js. read_end (read_infos d ! i) \<le> int (length stream))"
  proof (rule bex_cong [OF refl])
    fix i assume "i \<in> set js"
    then have "i \<noteq> j" using j(3) by auto
    then show "(read_end (read_infos ?d ! i) \<le> int (length stream)) = (read_end (read_infos d ! i) \<le> int (length stream))"
      by simp
  qed
  then have "run_workers p work (j # js) executed d
      = Some (d', Inr (executed \<or> (\<exists>i \<in> set (j # js). read_end (read_infos d ! i) \<le> int (length stream))))"
    using r d'(1) by auto
  moreover have "same_buffer d d'" using d'(2) by (simp add: same_buffer_def)
  moreover have "workers_advanced work stream (set (j # js)) d d'"
    using workers_advanced_put [OF j a d'(3)] by simp
  ultimately show ?case using d'(4,5) by blast
qed

end

section \<open>Filling and freeing the buffer\<close>

text \<open>How many points the next round asks the queue for.\<close>

definition wanted :: "'a list \<Rightarrow> ('w, 'a, 'm) distributor \<Rightarrow> nat" where
  "wanted stream d = nat (Max (read_end ` set (read_infos d)) - int (length stream))"

text \<open>Some worker wants points that have not arrived, and the pieces fit into a buffer.\<close>

definition hungry :: "'a list \<Rightarrow> ('w, 'a, 'm) distributor \<Rightarrow> bool" where
  "hungry stream d \<longleftrightarrow> (\<exists>ri \<in> set (read_infos d). int (length stream) < read_end ri)"

definition fits :: "platform \<Rightarrow> ('w, 'a, 'm) distributor \<Rightarrow> bool" where
  "fits p d \<longleftrightarrow> (\<forall>ri \<in> set (read_infos d).
     read_end ri - current_global_buffer_pos d \<le> int (deque_max_size p) \<and> read_end ri < 2 ^ 63)"

lemma max_element_Max:
  assumes "max_element (\<lambda>a b. f a < (f b :: int)) xs = Some m"
  shows "f m = Max (f ` set xs)"
  using max_element_Some [OF assms] by (intro Max_eqI [symmetric]) auto

lemma dataPointsNeededForNextRun_result:
  assumes "faithful_platform p" and "window stream d" and "hungry stream d" and "fits p d"
  shows "dataPointsNeededForNextRun p d = Inr (wanted stream d)" and "0 < wanted stream d"
    and "int (length (buffered d)) + int (wanted stream d) \<le> int (deque_max_size p)"
    and "length stream + wanted stream d < 2 ^ 63"
proof -
  from assms(3) have "read_infos d \<noteq> []" by (auto simp: hungry_def)
  then obtain m where m: "max_element (\<lambda>a b. read_end a < read_end b) (read_infos d) = Some m"
    by (cases "max_element (\<lambda>a b. read_end a < read_end b) (read_infos d)") auto
  note mem = max_element_Some(1) [OF m] and Max = max_element_Max [OF m]
  have more: "int (length stream) < read_end m"
    using assms(3) max_element_Some(2) [OF m] unfolding hungry_def by fastforce
  have fit: "read_end m - current_global_buffer_pos d \<le> int (deque_max_size p)" "read_end m < 2 ^ 63"
    using assms(4) mem by (auto simp: fits_def)
  have len: "int (length (buffered d)) = int (length stream) - current_global_buffer_pos d"
    by (rule window_length [OF assms(2)])
  have "read_end m - int (length (buffered d)) - current_global_buffer_pos d = read_end m - int (length stream)"
    using len by simp
  moreover have "read_end m - int (length stream) < 2 ^ 64" using fit(2) by simp
  ultimately show "dataPointsNeededForNextRun p d = Inr (wanted stream d)"
    using m more assms(1) by (simp add: dataPointsNeededForNextRun_def wanted_def cpp_int_to_size_id Max)
  show "0 < wanted stream d" using more by (simp add: wanted_def Max)
  show "int (length (buffered d)) + int (wanted stream d) \<le> int (deque_max_size p)"
    using more len fit(1) by (simp add: wanted_def Max)
  show "length stream + wanted stream d < 2 ^ 63"
    using more fit(2) by (simp add: wanted_def Max)
qed

lemma readBufferForNextRun_result:
  assumes "faithful_platform p" and "window stream d" and "hungry stream d" and "fits p d"
    and "popDataPoints (wanted stream d) q = Some (xs, q')"
  shows "readBufferForNextRun p q d = Some ((d\<lparr>buffered := buffered d @ xs\<rparr>, q'), Inr ())"
    and "window (stream @ xs) (d\<lparr>buffered := buffered d @ xs\<rparr>)"
proof -
  note need = dataPointsNeededForNextRun_result [OF assms(1-4)]
  have "int (deque_max_size p) < 2 ^ 63" using assms(1) by (simp add: faithful_platform_def)
  then have "uadd (length (buffered d)) (wanted stream d) = length (buffered d) + wanted stream d"
    using need(3) by (intro uadd_small) simp
  then show "readBufferForNextRun p q d = Some ((d\<lparr>buffered := buffered d @ xs\<rparr>, q'), Inr ())"
    using need assms(5) by (simp add: readBufferForNextRun_def Let_def)
  show "window (stream @ xs) (d\<lparr>buffered := buffered d @ xs\<rparr>)"
    using assms(2) by (auto simp: window_def)
qed

lemma min_element_Min:
  assumes "min_element (\<lambda>a b. f a < (f b :: int)) xs = Some m"
  shows "f m = Min (f ` set xs)"
  using min_element_Some [OF assms] by (intro Min_eqI [symmetric]) auto

lemma freeUnusedBuffer_result:
  assumes "faithful_platform p" and "window stream d" and "length stream < 2 ^ 63" and "read_infos d \<noteq> []"
    and "\<forall>ri \<in> set (read_infos d). current_global_buffer_pos d \<le> earliest ri"
    and "reads_within stream d"
  defines "pos \<equiv> Min (earliest ` set (read_infos d))"
  shows "freeUnusedBuffer p d
       = Inr (d\<lparr>buffered := drop (nat pos) stream, current_global_buffer_pos := pos\<rparr>)"
    and "0 \<le> pos" and "pos \<le> int (length stream)"
proof -
  from assms(4) obtain m where m: "min_element (\<lambda>a b. earliest a < earliest b) (read_infos d) = Some m"
    by (cases "min_element (\<lambda>a b. earliest a < earliest b) (read_infos d)") auto
  note mem = min_element_Some(1) [OF m]
  have pos: "pos = earliest m" using min_element_Min [OF m] by (simp add: pos_def)
  have ge: "current_global_buffer_pos d \<le> pos" using assms(5) mem by (simp add: pos)
  have win: "0 \<le> current_global_buffer_pos d" "buffered d = drop (nat (current_global_buffer_pos d)) stream"
    using assms(2) by (simp_all add: window_def)
  show "0 \<le> pos" using ge win(1) by simp
  show le: "pos \<le> int (length stream)"
    using assms(6) mem earliest_le_next [of m] unfolding reads_within_def pos by force
  show "freeUnusedBuffer p d
       = Inr (d\<lparr>buffered := drop (nat pos) stream, current_global_buffer_pos := pos\<rparr>)"
  proof (cases "pos \<le> current_global_buffer_pos d")
    case True
    then have "current_global_buffer_pos d = pos" using ge by simp
    then show ?thesis using m True win(2) by (simp add: freeUnusedBuffer_def pos)
  next
    case False
    let ?n = "pos - current_global_buffer_pos d"
    have "cpp_int_to_size p ?n = nat ?n"
      using ge le win(1) assms(3) by (intro cpp_int_to_size_id [OF assms(1)]) auto
    moreover have "nat ?n \<le> length (buffered d)" using window_length [OF assms(2)] le by simp
    moreover have "drop (nat ?n) (buffered d) = drop (nat pos) stream"
      using ge win by (simp add: nat_diff_distrib)
    ultimately show ?thesis using m False by (simp add: freeUnusedBuffer_def Let_def pos)
  qed
qed

section \<open>The round refines the abstract distributor\<close>

definition dist_inv ::
  "('w \<Rightarrow> read_info \<Rightarrow> bool) \<Rightarrow> 'a list \<Rightarrow> ('w, 'a, 'm) distributor \<Rightarrow> bool" where
  "dist_inv ok stream d \<longleftrightarrow> window stream d \<and> workers_ok ok d \<and> hungry stream d"

lemma workers_okD:
  assumes "workers_ok ok d" and "ri \<in> set (read_infos d)"
  shows "\<exists>w \<in> set (workers d). ok w ri \<and> current_global_buffer_pos d \<le> earliest ri"
  using assms unfolding workers_ok_def in_set_conv_nth by fastforce

text \<open>What a round of the loop is given: the points the queue hands out are enough to reach every read.\<close>

definition round_ready ::
  "platform \<Rightarrow> 'a list \<Rightarrow> 'a async_queue \<Rightarrow> 'a list \<Rightarrow> 'a async_queue \<Rightarrow> ('w, 'a, 'm) distributor \<Rightarrow> bool" where
  "round_ready p stream q xs q' d \<longleftrightarrow> popDataPoints (wanted stream d) q = Some (xs, q') \<and>
     fits p d \<and> reads_within (stream @ xs) d"

context stream_worker
begin

lemma workers_advanced_all:
  assumes "workers_ok ok d" and "window stream d" and "workers_advanced work stream UNIV d d'"
    and "reads_within stream d" and "ri' \<in> set (read_infos d')"
    and gs: "\<forall>x \<in> set stream. good x"
  shows "int (length stream) < read_end ri'" and "current_global_buffer_pos d \<le> earliest ri'"
proof -
  from assms(5) obtain j where j: "j < length (read_infos d')" "ri' = read_infos d' ! j"
    by (auto simp: in_set_conv_nth)
  then have j': "j < length (workers d)"
    using assms(1,3) by (simp add: workers_ok_def workers_advanced_def)
  then have ok: "ok (workers d ! j) (read_infos d ! j)" "current_global_buffer_pos d \<le> earliest (read_infos d ! j)"
    using assms(1) by (auto simp: workers_ok_def)
  then have "0 \<le> earliest (read_infos d ! j)" using assms(2) by (simp add: window_def)
  moreover have "advance work stream (workers d ! j) (read_infos d ! j) = Some (workers d' ! j, Inr ri')"
    using assms(3) j j' by (simp add: workers_advanced_def)
  ultimately show "int (length stream) < read_end ri'" and "current_global_buffer_pos d \<le> earliest ri'"
    using advance_returns [OF ok(1) _ gs] ok(2) by auto
qed

lemma loopWorkersOnce_refines:
  assumes "faithful_platform p" and "dist_inv ok stream d" and "round_ready p stream q xs q' d"
    and gs: "\<forall>x \<in> set (stream @ xs). good x"
  shows "\<exists>d'. loopWorkersOnce p work q d
       = Some ((d', q'), Inr (\<exists>ri \<in> set (read_infos d). read_end ri \<le> int (length (stream @ xs)))) \<and>
     dist_inv ok (stream @ xs) d' \<and> reads_within (stream @ xs) d' \<and>
     workers_advanced work (stream @ xs) UNIV d d' \<and>
     current_global_buffer_pos d' = Min (earliest ` set (read_infos d')) \<and>
     dist_meta_data d' = dist_meta_data d"
proof -
  let ?S = "stream @ xs" and ?d1 = "d\<lparr>buffered := buffered d @ xs\<rparr>"
  have pop: "popDataPoints (wanted stream d) q = Some (xs, q')" and fits: "fits p d"
    and within: "reads_within ?S d" using assms(3) by (simp_all add: round_ready_def)
  have inv: "window stream d" "workers_ok ok d" "hungry stream d"
    using assms(2) by (simp_all add: dist_inv_def)
  note read = readBufferForNextRun_result [OF assms(1) inv(1,3) fits pop]
  have len: "length ?S < 2 ^ 63"
    using dataPointsNeededForNextRun_result(4) [OF assms(1) inv(1,3) fits] queue_source.pop_length [OF pop]
    by simp
  have d1: "workers_ok ok ?d1" "reads_within ?S ?d1"
    using inv(2) within by (simp_all add: workers_ok_def reads_within_def)
  obtain d2 where run: "run_workers p work [0..<length (workers d)] False ?d1
       = Some (d2, Inr (\<exists>j \<in> set [0..<length (workers d)]. read_end (read_infos ?d1 ! j) \<le> int (length ?S)))"
    and same: "same_buffer ?d1 d2" and adv: "workers_advanced work ?S (set [0..<length (workers d)]) ?d1 d2"
    and d2: "workers_ok ok d2" "reads_within ?S d2"
    using run_workers_result [OF assms(1) len read(2) d1, of "[0..<length (workers d)]" False] gs by auto
  have sizes: "length (workers d) = length (read_infos d)" using inv(2) by (simp add: workers_ok_def)
  have executed: "(\<exists>j \<in> set [0..<length (workers d)]. read_end (read_infos ?d1 ! j) \<le> int (length ?S))
      = (\<exists>ri \<in> set (read_infos d). read_end ri \<le> int (length ?S))"
    using sizes by (force simp: in_set_conv_nth)
  have adv': "workers_advanced work ?S UNIV d d2" using adv by (simp add: workers_advanced_def)
  have adv1: "workers_advanced work ?S UNIV ?d1 d2" using adv by (simp add: workers_advanced_def)
  note all = workers_advanced_all [OF d1(1) read(2) adv1 d1(2) _ gs]
  have win2: "window ?S d2" using same_buffer_window [OF same] read(2) by simp
  have pos2: "current_global_buffer_pos d2 = current_global_buffer_pos d" "dist_meta_data d2 = dist_meta_data d"
    using same by (simp_all add: same_buffer_def)
  have ne: "read_infos d2 \<noteq> []"
    using inv(3) adv' by (auto simp: hungry_def workers_advanced_def)
  have ge: "\<forall>ri \<in> set (read_infos d2). current_global_buffer_pos d2 \<le> earliest ri"
    using all(2) by (simp add: pos2)
  note free = freeUnusedBuffer_result [OF assms(1) win2 len ne ge d2(2)]
  let ?pos = "Min (earliest ` set (read_infos d2))"
  let ?d3 = "d2\<lparr>buffered := drop (nat ?pos) ?S, current_global_buffer_pos := ?pos\<rparr>"
  have "loopWorkersOnce p work q d
      = Some ((?d3, q'), Inr (\<exists>ri \<in> set (read_infos d). read_end ri \<le> int (length ?S)))"
    unfolding loopWorkersOnce_def read(1)
    by (simp only: option.case sum.case prod.case) (simp add: run [unfolded executed] free(1))
  moreover have "window ?S ?d3" using free by (simp add: window_def)
  moreover have "workers_ok ok ?d3"
    using d2(1) by (auto simp: workers_ok_def)
  moreover have "hungry ?S ?d3" using all(1) ne by (auto simp: hungry_def neq_Nil_conv)
  moreover have "workers_advanced work ?S UNIV d ?d3" using adv' by (simp add: workers_advanced_def)
  moreover have "reads_within ?S ?d3" using d2(2) by (simp add: reads_within_def)
  ultimately show ?thesis unfolding dist_inv_def
    by (intro exI [of _ ?d3] conjI) (simp_all add: pos2)
qed

end

section \<open>Any sequence of rounds\<close>

text \<open>
  Rounds of the loop, each with whatever the queue holds at the time: \<open>stream\<close> is what has
  been taken from the queue so far.
\<close>

inductive rounds ::
  "platform \<Rightarrow> ('w, 'a) work_method \<Rightarrow> ('w, 'a, 'm) distributor \<Rightarrow> 'a list \<Rightarrow> ('w, 'a, 'm) distributor \<Rightarrow> bool"
  for p work d0 where
  no_round: "rounds p work d0 [] d0"
| one_more: "rounds p work d0 stream d \<Longrightarrow> round_ready p stream q xs q' d \<Longrightarrow>
     loopWorkersOnce p work q d = Some ((d', q'), Inr executed) \<Longrightarrow> rounds p work d0 (stream @ xs) d'"

context stream_worker
begin

lemma workers_advanced_trans:
  assumes "workers_ok ok d0" and "window [] d0" and "workers_advanced work stream UNIV d0 d"
    and "workers_advanced work (stream @ xs) UNIV d d'"
    and gs: "\<forall>x \<in> set stream. good x"
  shows "workers_advanced work (stream @ xs) UNIV d0 d'"
  unfolding workers_advanced_def
proof (intro conjI allI impI)
  fix j
  assume j: "j < length (workers d0)"
  then have ok: "ok (workers d0 ! j) (read_infos d0 ! j)" "0 \<le> earliest (read_infos d0 ! j)"
    using assms(1,2) unfolding workers_ok_def window_def by fastforce+
  have "advance work stream (workers d0 ! j) (read_infos d0 ! j) = Some (workers d ! j, Inr (read_infos d ! j))"
    using assms(3) j by (simp add: workers_advanced_def)
  from advance_append [OF ok this gs, of xs]
  show "if j \<in> UNIV then advance work (stream @ xs) (workers d0 ! j) (read_infos d0 ! j)
         = Some (workers d' ! j, Inr (read_infos d' ! j))
        else workers d' ! j = workers d0 ! j \<and> read_infos d' ! j = read_infos d0 ! j"
    using assms(3,4) j by (simp add: workers_advanced_def)
qed (use assms(3,4) in \<open>simp_all add: workers_advanced_def\<close>)

lemma rounds_result:
  assumes "faithful_platform p" and "dist_inv ok [] d0" and "rounds p work d0 stream d"
    and gs: "\<forall>x \<in> set stream. good x"
  shows "dist_inv ok stream d \<and> (stream = [] \<and> d = d0 \<or> workers_advanced work stream UNIV d0 d)"
  using assms(3) gs
proof (induction rule: rounds.induct)
  case no_round
  then show ?case using assms(2) by simp
next
  case (one_more stream d q xs q' d' executed)
  then have inv: "dist_inv ok stream d" by simp
  have gs: "\<forall>x \<in> set (stream @ xs). good x" "\<forall>x \<in> set stream. good x" using one_more.prems by auto
  obtain d'' where r: "loopWorkersOnce p work q d
       = Some ((d'', q'), Inr (\<exists>ri \<in> set (read_infos d). read_end ri \<le> int (length (stream @ xs))))"
     "dist_inv ok (stream @ xs) d''" "workers_advanced work (stream @ xs) UNIV d d''"
    using loopWorkersOnce_refines [OF assms(1) inv one_more.hyps(2) gs(1)] by blast
  have eq: "d'' = d'" using r(1) one_more.hyps(3) by simp
  have "workers_ok ok d0" "window [] d0" using assms(2) by (simp_all add: dist_inv_def)
  note trans = workers_advanced_trans [OF this]
  show ?case using one_more.IH [OF gs(2)] r(2,3) trans gs(2) unfolding eq by auto
qed

text \<open>A worker joins: its first answer has to ask for points that are still in the buffer.\<close>

lemma addWorker_result:
  assumes "window stream d" and "workers_ok ok d" and "length stream < 2 ^ 63"
    and "work (set_meta (dist_meta_data d) w) [] (current_global_buffer_pos d) = (w', Inr ri)"
    and "ok w' ri" and "current_global_buffer_pos d \<le> earliest ri"
    and "hungry stream d \<or> int (length stream) < read_end ri"
  shows "\<exists>d'. addWorker work set_meta w d = (d', Inr ()) \<and> dist_inv ok stream d' \<and>
    workers d' = workers d @ [w'] \<and> read_infos d' = read_infos d @ [ri]"
proof -
  let ?d = "d\<lparr>workers := workers d @ [w'], read_infos := read_infos d @ [ri]\<rparr>"
  have "workers_ok ok ?d"
    unfolding workers_ok_def
  proof (intro conjI allI impI)
    fix j
    assume j: "j < length (workers ?d)"
    have len: "length (workers d) = length (read_infos d)" using assms(2) by (simp add: workers_ok_def)
    have old: "ok (workers d ! j) (read_infos d ! j) \<and> current_global_buffer_pos d \<le> earliest (read_infos d ! j)"
      if "j < length (workers d)" using assms(2) that by (simp add: workers_ok_def)
    show "ok (workers ?d ! j) (read_infos ?d ! j)"
      and "current_global_buffer_pos ?d \<le> earliest (read_infos ?d ! j)"
      using j old assms(5,6) len by (cases "j < length (workers d)"; simp add: nth_append)+
  qed (use assms(2) in \<open>simp add: workers_ok_def\<close>)
  moreover have "window stream ?d" using assms(1) by (simp add: window_def)
  moreover have "hungry stream ?d" using assms(7) by (auto simp: hungry_def)
  ultimately show ?thesis by (simp add: addWorker_def assms(4) dist_inv_def)
qed

end

section \<open>Consequences\<close>

context stream_worker
begin

lemma advance_invariant:
  assumes "ok w ri" and "0 \<le> earliest ri" and "I w ri" and gs: "\<forall>x \<in> set stream. good x"
    and step: "\<And>w ri w' ri'. ok w ri \<Longrightarrow> 0 \<le> earliest ri \<Longrightarrow> read_end ri \<le> int (length stream) \<Longrightarrow> I w ri \<Longrightarrow>
      length (slice stream (nat (next_loc ri)) (read_n ri)) = read_n ri \<Longrightarrow>
      work w (slice stream (nat (next_loc ri)) (read_n ri)) (next_loc ri) = (w', Inr ri') \<Longrightarrow> I w' ri'"
    and "advance work stream w ri = Some (w', Inr ri')"
  shows "I w' ri'"
  using assms(1-3,6)
proof (induction "left stream ri" arbitrary: w ri rule: less_induct)
  case less
  show ?case
  proof (cases "read_end ri \<le> int (length stream)")
    case False
    then show ?thesis using less.prems by (simp add: advance_done)
  next
    case True
    obtain v rj where s: "work w (slice stream (nat (next_loc ri)) (read_n ri)) (next_loc ri) = (v, Inr rj)"
      "ok v rj" "earliest ri < earliest rj" "advance work stream w ri = advance work stream v rj"
      using step_obtain [OF less.prems(1,2) True gs] by metis
    have "length (slice stream (nat (next_loc ri)) (read_n ri)) = read_n ri"
      using True less.prems(2) by (intro length_slice_full) (simp add: earliest_def read_end_def)
    from step [OF less.prems(1,2) True less.prems(3) this s(1)] have "I v rj" .
    moreover have "0 \<le> earliest rj" "advance work stream v rj = Some (w', Inr ri')"
      using s(3,4) less.prems(2,4) by simp_all
    ultimately show ?thesis using less.hyps [OF left_less [OF s(3) True less.prems(1)] s(2)] by blast
  qed
qed

lemma nothing_to_do:
  assumes "dist_inv ok [] d"
  shows "workers_advanced work [] UNIV d d"
  unfolding workers_advanced_def
proof (intro conjI allI impI)
  fix j
  assume "j < length (workers d)"
  then have "ok (workers d ! j) (read_infos d ! j)" "0 \<le> earliest (read_infos d ! j)"
    using assms by (auto simp: dist_inv_def workers_ok_def window_def intro: order_trans)
  then have "0 < read_end (read_infos d ! j)"
    using asks [of "workers d ! j" "read_infos d ! j"] by (simp add: earliest_def read_end_def)
  then show "if j \<in> UNIV then advance work [] (workers d ! j) (read_infos d ! j)
         = Some (workers d ! j, Inr (read_infos d ! j))
        else workers d ! j = workers d ! j \<and> read_infos d ! j = read_infos d ! j"
    by (simp add: advance_done)
qed simp_all

lemma rounds_advance:
  assumes "faithful_platform p" and "dist_inv ok [] d0" and "rounds p work d0 stream d"
    and "\<forall>x \<in> set stream. good x"
  shows "dist_inv ok stream d" and "workers_advanced work stream UNIV d0 d"
  using rounds_result [OF assms] nothing_to_do [OF assms(2)] by auto

lemma workers_advanced_unique:
  assumes "workers_advanced work stream UNIV d0 d" and "workers_advanced work stream UNIV d0 d'"
    and "length (workers d0) = length (read_infos d0)"
  shows "workers d = workers d' \<and> read_infos d = read_infos d'"
  using assms by (auto simp: workers_advanced_def intro!: nth_equalityI)

end

section \<open>A stream that is too short\<close>

text \<open>
  When the first worker asks for points that begin past the end of a stream that has ended,
  the difference that tells how much data is left wraps around.
\<close>

lemma short_stream_undefined:
  assumes "faithful_platform p" and "window stream d" and "workers d \<noteq> []"
    and "length (workers d) = length (read_infos d)"
    and "int (length stream) < next_loc (read_infos d ! 0)" and "next_loc (read_infos d ! 0) < 2 ^ 62"
    and "read_n (read_infos d ! 0) < 2 ^ 63"
  shows "run_workers p work [0..<length (workers d)] False d = Some (d, Inl Undefined)"
proof -
  let ?n = "next_loc (read_infos d ! 0) - current_global_buffer_pos d"
  have len: "int (length (buffered d)) = int (length stream) - current_global_buffer_pos d"
    by (rule window_length [OF assms(2)])
  have pos: "0 \<le> current_global_buffer_pos d" "current_global_buffer_pos d \<le> int (length stream)"
    using assms(2) by (simp_all add: window_def)
  then have index: "getIndexInLocalBufferforRead p 0 d = nat ?n"
    using assms(1,5,6) by (simp add: getIndexInLocalBufferforRead_def Let_def cpp_int_to_size_id)
  have beyond: "length (buffered d) < nat ?n" "nat ?n < 2 ^ 62" using len pos assms(5,6) by simp_all
  then have "usub (length (buffered d)) (nat ?n) = 2 ^ 64 - (nat ?n - length (buffered d))"
    by (intro usub_underflow) simp_all
  then have "read_n (read_infos d ! 0) \<le> usub (length (buffered d)) (nat ?n)"
    using beyond assms(7) by simp
  moreover have "executeWorkerOnce p work 0 (nat ?n) d = (d, Inl Undefined)"
    using beyond(1) by (simp add: executeWorkerOnce_def)
  ultimately have "work_while_data p work 0 (nat ?n) False d = Some (d, Inl Undefined)"
    by (subst work_while_data.simps) simp
  then have "executeWorkerWhileDataInBuffer p work 0 d = Some (d, Inl Undefined)"
    using assms(3,4) by (auto simp: executeWorkerWhileDataInBuffer_def index)
  then have "run_worker p work 0 False d = Some (d, Inl Undefined)"
    by (subst run_worker.simps) simp
  moreover have "[0..<length (workers d)] = 0 # [1..<length (workers d)]"
    using assms(3) by (simp add: upt_conv_Cons)
  ultimately show ?thesis by simp
qed

lemma loop_short_stream:
  assumes "faithful_platform p" and "window stream d" and "hungry stream d" and "fits p d"
    and "stream_ended q" and "length (workers d) = length (read_infos d)" and "workers d \<noteq> []"
    and "int (length stream + length (data_queue q)) < next_loc (read_infos d ! 0)"
    and "next_loc (read_infos d ! 0) < 2 ^ 62" and "read_n (read_infos d ! 0) < 2 ^ 63"
  shows "\<exists>r. loopWorkersOnce p work q d = Some (r, Inl Undefined)"
proof -
  obtain xs q' where pop: "popDataPoints (wanted stream d) q = Some (xs, q')"
    and xs: "length xs \<le> length (data_queue q)"
    using assms(5) by (auto simp: popDataPoints_result)
  note read = readBufferForNextRun_result [OF assms(1-4) pop]
  let ?d = "d\<lparr>buffered := buffered d @ xs\<rparr>"
  have "int (length (stream @ xs)) < next_loc (read_infos ?d ! 0)" using assms(8) xs by simp
  then have "run_workers p work [0..<length (workers ?d)] False ?d = Some (?d, Inl Undefined)"
    using assms(6,7,9,10) by (intro short_stream_undefined [OF assms(1) read(2)]) simp_all
  then show ?thesis by (simp add: loopWorkersOnce_def read(1))
qed

end
