(* ===== verification/Event_Detector.thy ===== *)
theory Event_Detector
  imports Stream_Distributor Algorithms Event_Data
begin

text \<open>
  The event detector (\<^verbatim>\<open>event_detector/src/EventDetector.h\<close>), a worker of the distributor: it
  compares the root mean square of each piece of the stream with the median of the previous
  ones, and when it has risen by more than the threshold asks for the points around the event.

  The shared \<^verbatim>\<open>DynamicStreamMetaData\<close> is a parameter \<open>sm\<close>, its contents at the time of the
  call; the signal \<^verbatim>\<open>event_detected\<close> is the list of the events that it was called with. The
  lemmas give the four requests, the conditions under which an event is detected, and the
  interpretation of \<open>stream_worker\<close>: run by the distributor on finite samples, the detector
  never fails.
\<close>

section \<open>State\<close>

record 'a detector =
  requested_data_point_id :: int
  threshold :: f32
  compare_after :: int
  detected_an_event :: bool
  previous_rms :: "f32 list"
  number_of_rms :: nat
  event_detected :: "'a event list"

definition EventDetector :: "f32 \<Rightarrow> int \<Rightarrow> 'a detector" where
  "EventDetector detection_threshold detection_chunk_size =
     \<lparr>requested_data_point_id = 0, threshold = detection_threshold, compare_after = detection_chunk_size,
      detected_an_event = False, previous_rms = [], number_of_rms = 4, event_detected = []\<rparr>"

definition setThreshold :: "f32 \<Rightarrow> 'a detector \<Rightarrow> 'a detector" where
  "setThreshold t det = det\<lparr>threshold := t\<rparr>"

definition setCompareAfter :: "int \<Rightarrow> 'a detector \<Rightarrow> 'a detector" where
  "setCompareAfter chunk_size det = det\<lparr>compare_after := chunk_size\<rparr>"

section \<open>The requests\<close>

abbreviation meta_of :: "stream_meta \<Rightarrow> power_meta_data" where
  "meta_of sm \<equiv> getFixedPowerMetaData sm"

text \<open>\<open>std::max\<close> of the points for the history and the chunk to compare, and one period more.\<close>

definition minDataPointsNeeded :: "platform \<Rightarrow> stream_meta \<Rightarrow> 'a detector \<Rightarrow> nat res" where
  "minDataPointsNeeded p sm det =
     res_map (\<lambda>per_period. cpp_int_to_size p
         (max (int (umul (number_of_rms det) per_period)) (compare_after det) + int per_period))
       (dataPointsPerPeriod (meta_of sm))"

definition request :: "nat \<Rightarrow> nat \<Rightarrow> int \<Rightarrow> 'a detector \<Rightarrow> 'a detector \<times> read_info res" where
  "request keep_at_least amount location det =
     (det\<lparr>requested_data_point_id := location\<rparr>, Inr (NextReadInfos keep_at_least amount location))"

text \<open>A sum of two \<^verbatim>\<open>int\<close> that leaves the type's range is undefined.\<close>

definition int_sum :: "int \<Rightarrow> int \<Rightarrow> int res" where
  "int_sum a b = (if - (2 ^ 31) \<le> a + b \<and> a + b < 2 ^ 31 then Inr (a + b) else Inl Undefined)"

definition getEventData :: "stream_meta \<Rightarrow> int \<Rightarrow> 'a detector \<Rightarrow> 'a detector \<times> read_info res" where
  "getEventData sm current det =
     (case int_sum (data_points_stored_before_event (meta_of sm)) (data_points_stored_of_event (meta_of sm)) of
        Inl e \<Rightarrow> (det, Inl e)
      | Inr amount \<Rightarrow>
          (case dataPointsPerPeriod (meta_of sm) of
             Inl e \<Rightarrow> (det, Inl e)
           | Inr per_period \<Rightarrow>
               request 0 (to_unsigned amount)
                 (current - data_points_stored_before_event (meta_of sm) + int per_period) det))"

definition getDataAfterEvent ::
  "platform \<Rightarrow> stream_meta \<Rightarrow> int \<Rightarrow> 'a detector \<Rightarrow> 'a detector \<times> read_info res" where
  "getDataAfterEvent p sm current det =
     (case minDataPointsNeeded p sm det of
        Inl e \<Rightarrow> (det, Inl e)
      | Inr amount \<Rightarrow>
          request (to_unsigned (data_points_stored_before_event (meta_of sm))) amount
            (current + data_points_stored_before_event (meta_of sm)
               + data_points_stored_of_event (meta_of sm)) det)"

definition getFirstDetectionPeriod ::
  "platform \<Rightarrow> stream_meta \<Rightarrow> int \<Rightarrow> 'a detector \<Rightarrow> 'a detector \<times> read_info res" where
  "getFirstDetectionPeriod p sm current det =
     (case minDataPointsNeeded p sm det of
        Inl e \<Rightarrow> (det, Inl e)
      | Inr amount \<Rightarrow>
          request (to_unsigned (data_points_stored_before_event (meta_of sm))) amount
            (current + data_points_stored_before_event (meta_of sm)) det)"

definition getNextDetectionPeriod ::
  "platform \<Rightarrow> stream_meta \<Rightarrow> int \<Rightarrow> 'a detector \<Rightarrow> 'a detector \<times> read_info res" where
  "getNextDetectionPeriod p sm current det =
     (case minDataPointsNeeded p sm det of
        Inl e \<Rightarrow> (det, Inl e)
      | Inr amount \<Rightarrow>
          request (to_unsigned (data_points_stored_before_event (meta_of sm))) amount
            (current + int amount) det)"

section \<open>The detection\<close>

text \<open>
  \<^verbatim>\<open>std::nth_element\<close>: the element at its place in the sorted order. It requires a strict
  weak order, which the comparison of floats is only without NaN.
\<close>

fun insert_float :: "f32 \<Rightarrow> f32 list \<Rightarrow> f32 list" where
  "insert_float x [] = [x]"
| "insert_float x (y # ys) = (if fl_less y x then y # insert_float x ys else x # y # ys)"

definition sort_floats :: "f32 list \<Rightarrow> f32 list" where
  "sort_floats xs = foldr insert_float xs []"

definition nth_element :: "nat \<Rightarrow> f32 list \<Rightarrow> f32 res" where
  "nth_element n xs = (if NaN \<in> set xs then Inl Undefined else Inr (sort_floats xs ! n))"

definition getMedianPrevRMS :: "f32 list \<Rightarrow> f32 res" where
  "getMedianPrevRMS rms = (if rms = [] then Inr fl_zero else nth_element (length rms div 2) rms)"

definition initializePreviousRMS ::
  "('a \<Rightarrow> f32) \<Rightarrow> stream_meta \<Rightarrow> 'a list \<Rightarrow> 'a detector \<Rightarrow> 'a detector res" where
  "initializePreviousRMS ampere sm xs det =
     res_bind (dataPointsPerPeriod (meta_of sm)) (\<lambda>per_period.
       if \<not> umul per_period (number_of_rms det) < length xs then Inl Assert_failed
       else if length xs < per_period * number_of_rms det then Inl Undefined
       else Inr (det\<lparr>previous_rms := previous_rms det @
              map (\<lambda>i. rootMeanSquareOfAmpere ampere (slice xs (i * per_period) per_period))
                [0..<number_of_rms det]\<rparr>))"

text \<open>The comparison at the end of \<open>detectEvent\<close>.\<close>

definition judge :: "f32 \<Rightarrow> 'a detector \<Rightarrow> 'a detector \<times> bool res" where
  "judge current_rms det =
     (case getMedianPrevRMS (previous_rms det) of
        Inl e \<Rightarrow> (det, Inl e)
      | Inr median \<Rightarrow>
          (if fl_less median (f_sub current_rms (threshold det))
           then (det\<lparr>previous_rms := []\<rparr>, Inr True) else (det, Inr False)))"

definition detectEvent ::
  "('a \<Rightarrow> f32) \<Rightarrow> stream_meta \<Rightarrow> 'a list \<Rightarrow> 'a detector \<Rightarrow> 'a detector \<times> bool res" where
  "detectEvent ampere sm xs det =
     (case dataPointsPerPeriod (meta_of sm) of
        Inl e \<Rightarrow> (det, Inl e)
      | Inr per_period \<Rightarrow>
          (if length xs < per_period then (det, Inl Assert_failed)
           else if int (length xs) < compare_after det then (det, Inl Assert_failed)
           else
             let rms = rootMeanSquareOfAmpere ampere xs;
                 det1 = det\<lparr>previous_rms := previous_rms det @ [rms]\<rparr>
             in if number_of_rms det < length (previous_rms det1)
                then judge rms (det1\<lparr>previous_rms := tl (previous_rms det1)\<rparr>)
                else if length (previous_rms det1) < number_of_rms det
                then (case initializePreviousRMS ampere sm xs det1 of
                        Inl e \<Rightarrow> (det1, Inl e) | Inr det2 \<Rightarrow> (det2, Inr False))
                else judge rms det1))"

definition detector_createEvent ::
  "platform \<Rightarrow> stream_meta \<Rightarrow> 'a list \<Rightarrow> int \<Rightarrow> 'a event res" where
  "detector_createEvent p sm xs data_point_id =
     res_bind (int_sum (data_points_stored_before_event (meta_of sm)) (data_points_stored_of_event (meta_of sm)))
       (\<lambda>total_event_length.
          if int (length xs) < total_event_length then Inl Std_exception
          else res_map (\<lambda>t. createEvent (EventMetaData t (meta_of sm)) xs None)
                 (getDataPointTime p sm (data_point_id + data_points_stored_before_event (meta_of sm))))"

definition detector_work ::
  "platform \<Rightarrow> ('a \<Rightarrow> f32) \<Rightarrow> stream_meta \<Rightarrow> ('a detector, 'a) work_method" where
  "detector_work p ampere sm det xs data_point_id =
     (if xs = [] then getFirstDetectionPeriod p sm data_point_id det
      else if detected_an_event det \<and> requested_data_point_id det = data_point_id
      then (let det1 = det\<lparr>detected_an_event := False\<rparr>
            in case detector_createEvent p sm xs data_point_id of
                 Inl e \<Rightarrow> (det1, Inl e)
               | Inr ev \<Rightarrow> getDataAfterEvent p sm data_point_id
                             (det1\<lparr>event_detected := event_detected det1 @ [ev]\<rparr>))
      else (case detectEvent ampere sm xs det of
              (det1, Inl e) \<Rightarrow> (det1, Inl e)
            | (det1, Inr detected) \<Rightarrow>
                (if detected then getEventData sm data_point_id (det1\<lparr>detected_an_event := True\<rparr>)
                 else getNextDetectionPeriod p sm data_point_id det1)))"

section \<open>A usable configuration\<close>

definition period :: "stream_meta \<Rightarrow> nat" where
  "period sm = sample_rate (meta_of sm) div frequency (meta_of sm)"

abbreviation stored_before :: "stream_meta \<Rightarrow> int" where
  "stored_before sm \<equiv> data_points_stored_before_event (meta_of sm)"

abbreviation stored_of :: "stream_meta \<Rightarrow> int" where
  "stored_of sm \<equiv> data_points_stored_of_event (meta_of sm)"

definition detector_config :: "platform \<Rightarrow> stream_meta \<Rightarrow> 'a detector \<Rightarrow> bool" where
  "detector_config p sm det \<longleftrightarrow> faithful_platform p \<and>
     0 < frequency (meta_of sm) \<and> frequency (meta_of sm) \<le> sample_rate (meta_of sm) \<and>
     sample_rate (meta_of sm) < 2 ^ 60 \<and>
     0 \<le> stored_before sm \<and> 0 < stored_of sm \<and> stored_before sm + stored_of sm < 2 ^ 31 \<and>
     number_of_rms det = 4 \<and> compare_after det < 2 ^ 62"

text \<open>How many points the detector compares at a time.\<close>

definition piece :: "stream_meta \<Rightarrow> 'a detector \<Rightarrow> nat" where
  "piece sm det = nat (max (4 * int (period sm)) (compare_after det)) + period sm"

lemma detector_config_update [simp]:
  "detector_config p sm (det\<lparr>detected_an_event := b\<rparr>) = detector_config p sm det"
  "detector_config p sm (det\<lparr>previous_rms := h\<rparr>) = detector_config p sm det"
  "detector_config p sm (det\<lparr>requested_data_point_id := r\<rparr>) = detector_config p sm det"
  "detector_config p sm (det\<lparr>event_detected := evs\<rparr>) = detector_config p sm det"
  "piece sm (det\<lparr>detected_an_event := b\<rparr>) = piece sm det"
  "piece sm (det\<lparr>previous_rms := h\<rparr>) = piece sm det"
  "piece sm (det\<lparr>requested_data_point_id := r\<rparr>) = piece sm det"
  "piece sm (det\<lparr>event_detected := evs\<rparr>) = piece sm det"
  by (simp_all add: detector_config_def piece_def)

lemma config_period:
  assumes "detector_config p sm det"
  shows "dataPointsPerPeriod (meta_of sm) = Inr (period sm)" and "0 < period sm" and "period sm < 2 ^ 60"
proof -
  show "dataPointsPerPeriod (meta_of sm) = Inr (period sm)"
    using assms by (simp add: dataPointsPerPeriod_def period_def detector_config_def)
  show "0 < period sm" using assms by (simp add: detector_config_def period_def div_greater_zero_iff)
  show "period sm < 2 ^ 60"
    using assms div_le_dividend [of "sample_rate (meta_of sm)" "frequency (meta_of sm)"]
    unfolding detector_config_def period_def by linarith
qed

lemma piece_bounds:
  assumes "detector_config p sm det"
  shows "4 * period sm < piece sm det" and "compare_after det \<le> int (piece sm det)" and "piece sm det < 2 ^ 63"
  using config_period(2,3) [OF assms] assms by (auto simp: piece_def detector_config_def)

lemma minDataPointsNeeded_result:
  assumes "detector_config p sm det"
  shows "minDataPointsNeeded p sm det = Inr (piece sm det)"
proof -
  have "umul 4 (period sm) = 4 * period sm" using config_period(3) [OF assms] by (intro umul_small) simp
  moreover have "max (4 * int (period sm)) (compare_after det) + int (period sm) = int (piece sm det)"
    by (simp add: piece_def max_def)
  moreover have "cpp_int_to_size p (int (piece sm det)) = piece sm det"
    using piece_bounds(3) [OF assms] assms by (simp add: detector_config_def cpp_int_to_size_id)
  ultimately show ?thesis
    using assms by (simp add: minDataPointsNeeded_def config_period(1) [OF assms] detector_config_def)
qed

lemma config_sums:
  assumes "detector_config p sm det"
  shows "int_sum (stored_before sm) (stored_of sm) = Inr (stored_before sm + stored_of sm)"
    and "to_unsigned (stored_before sm + stored_of sm) = nat (stored_before sm + stored_of sm)"
    and "to_unsigned (stored_before sm) = nat (stored_before sm)"
  using assms by (auto simp: int_sum_def detector_config_def intro!: to_unsigned_nonneg)

section \<open>What the detector requests\<close>

lemma requests:
  assumes "detector_config p sm det"
  shows "getEventData sm cur det = (det\<lparr>requested_data_point_id := cur - stored_before sm + int (period sm)\<rparr>,
      Inr \<lparr>keep = 0, read_n = nat (stored_before sm + stored_of sm), next_loc = cur - stored_before sm + int (period sm)\<rparr>)"
    and "getDataAfterEvent p sm cur det = (det\<lparr>requested_data_point_id := cur + stored_before sm + stored_of sm\<rparr>,
      Inr \<lparr>keep = nat (stored_before sm), read_n = piece sm det, next_loc = cur + stored_before sm + stored_of sm\<rparr>)"
    and "getFirstDetectionPeriod p sm cur det = (det\<lparr>requested_data_point_id := cur + stored_before sm\<rparr>,
      Inr \<lparr>keep = nat (stored_before sm), read_n = piece sm det, next_loc = cur + stored_before sm\<rparr>)"
    and "getNextDetectionPeriod p sm cur det = (det\<lparr>requested_data_point_id := cur + int (piece sm det)\<rparr>,
      Inr \<lparr>keep = nat (stored_before sm), read_n = piece sm det, next_loc = cur + int (piece sm det)\<rparr>)"
  using config_sums [OF assms] minDataPointsNeeded_result [OF assms] config_period(1) [OF assms]
  by (simp_all add: getEventData_def getDataAfterEvent_def getFirstDetectionPeriod_def
      getNextDetectionPeriod_def request_def NextReadInfos_def)

section \<open>When an event is detected\<close>

text \<open>The history: empty, or one value more than \<open>number_of_rms\<close>, all of them numbers.\<close>

definition history_ok :: "'a detector \<Rightarrow> bool" where
  "history_ok det \<longleftrightarrow> (length (previous_rms det) = 0 \<or> length (previous_rms det) = 5) \<and>
     NaN \<notin> set (previous_rms det)"

lemma rms_slice_number:
  assumes "\<forall>x \<in> set xs. is_fin (ampere x)" and "0 < n" and "i + n \<le> length xs" and "length xs < 2 ^ 63"
  shows "rootMeanSquareOfAmpere ampere (slice xs i n) \<noteq> NaN"
proof -
  have "length (slice xs i n) = n" by (rule length_slice_full [OF assms(3)])
  then show ?thesis unfolding rootMeanSquareOfAmpere_def makeAmpereIterator_def
    using assms set_slice [of xs i n] by (intro rootMeanSquare_number) auto
qed

lemma rms_number:
  assumes "\<forall>x \<in> set xs. is_fin (ampere x)" and "xs \<noteq> []" and "length xs < 2 ^ 63"
  shows "rootMeanSquareOfAmpere ampere xs \<noteq> NaN"
  using rms_slice_number [of xs ampere "length xs" 0] assms by (simp add: slice_def)

lemma insert_float_set [simp]: "set (insert_float x ys) = insert x (set ys)" "length (insert_float x ys) = Suc (length ys)"
  by (induction ys) auto

lemma sort_floats_set [simp]: "set (sort_floats xs) = set xs" "length (sort_floats xs) = length xs"
  by (induction xs) (auto simp: sort_floats_def)

lemma median_defined:
  assumes "history_ok det"
  shows "\<exists>m. getMedianPrevRMS (previous_rms det) = Inr m"
  using assms by (auto simp: getMedianPrevRMS_def nth_element_def history_ok_def)

text \<open>With an empty history a call fills it and detects nothing.\<close>

lemma detectEvent_first:
  assumes "detector_config p sm det" and "length xs = piece sm det" and "previous_rms det = []"
  shows "detectEvent ampere sm xs det =
    (det\<lparr>previous_rms := rootMeanSquareOfAmpere ampere xs #
        map (\<lambda>i. rootMeanSquareOfAmpere ampere (slice xs (i * period sm) (period sm))) [0..<4]\<rparr>, Inr False)"
proof -
  have n: "number_of_rms det = 4" using assms(1) by (simp add: detector_config_def)
  have "umul (period sm) 4 = period sm * 4" using config_period(3) [OF assms(1)] by (intro umul_small) simp
  then show ?thesis using piece_bounds [OF assms(1)] assms(2,3) n
    by (simp add: detectEvent_def config_period(1) [OF assms(1)] Let_def initializePreviousRMS_def)
qed

text \<open>With a full history the oldest value makes room for the new one, which is compared.\<close>

lemma detectEvent_later:
  assumes "detector_config p sm det" and "length xs = piece sm det" and "length (previous_rms det) = 5"
  shows "detectEvent ampere sm xs det =
    judge (rootMeanSquareOfAmpere ampere xs)
      (det\<lparr>previous_rms := tl (previous_rms det) @ [rootMeanSquareOfAmpere ampere xs]\<rparr>)"
proof -
  have n: "number_of_rms det = 4" using assms(1) by (simp add: detector_config_def)
  have "previous_rms det \<noteq> []" using assms(3) by auto
  then show ?thesis using piece_bounds [OF assms(1)] assms(2,3) n
    by (simp add: detectEvent_def config_period(1) [OF assms(1)] Let_def)
qed

lemma judge_cases:
  assumes "getMedianPrevRMS (previous_rms det) = Inr m"
  shows "judge rms det = (if fl_less m (f_sub rms (threshold det)) then (det\<lparr>previous_rms := []\<rparr>, Inr True)
                         else (det, Inr False))"
  using assms by (simp add: judge_def)

lemma detectEvent_result:
  assumes "detector_config p sm det" and "length xs = piece sm det" and "history_ok det"
    and "\<forall>x \<in> set xs. is_fin (ampere x)"
  shows "\<exists>h b. detectEvent ampere sm xs det = (det\<lparr>previous_rms := h\<rparr>, Inr b) \<and>
    history_ok (det\<lparr>previous_rms := h\<rparr>)"
proof -
  note bounds = piece_bounds [OF assms(1)] config_period [OF assms(1)]
  have ne: "xs \<noteq> []" using bounds assms(2) by auto
  have num: "rootMeanSquareOfAmpere ampere xs \<noteq> NaN"
    by (rule rms_number [OF assms(4) ne]) (use bounds assms(2) in simp)
  from assms(3) consider "previous_rms det = []" | "length (previous_rms det) = 5"
    by (auto simp: history_ok_def)
  then show ?thesis
  proof cases
    case 1
    have "rootMeanSquareOfAmpere ampere (slice xs (i * period sm) (period sm)) \<noteq> NaN" if "i < 4" for i
    proof (rule rms_slice_number [OF assms(4) bounds(5)])
      have "Suc i * period sm \<le> 4 * period sm" using that by (intro mult_le_mono1) simp
      then show "i * period sm + period sm \<le> length xs"
        using bounds(1) unfolding assms(2) mult_Suc by linarith
    qed (use bounds assms(2) in simp)
    then have "NaN \<notin> set (map (\<lambda>i. rootMeanSquareOfAmpere ampere (slice xs (i * period sm) (period sm))) [0..<4])"
      by force
    with num have "history_ok (det\<lparr>previous_rms := rootMeanSquareOfAmpere ampere xs #
        map (\<lambda>i. rootMeanSquareOfAmpere ampere (slice xs (i * period sm) (period sm))) [0..<4]\<rparr>)"
      by (simp del: upt_Suc add: history_ok_def)
    then show ?thesis using detectEvent_first [OF assms(1,2) 1, of ampere] by blast
  next
    case 2
    let ?h = "tl (previous_rms det) @ [rootMeanSquareOfAmpere ampere xs]"
    have h: "history_ok (det\<lparr>previous_rms := ?h\<rparr>)"
      using 2 num assms(3) by (auto simp: history_ok_def dest: list.set_sel(2) [rotated])
    then obtain m where "getMedianPrevRMS ?h = Inr m" using median_defined by fastforce
    then show ?thesis
      using detectEvent_later [OF assms(1,2) 2, of ampere] h judge_cases [of "det\<lparr>previous_rms := ?h\<rparr>" m]
      by (auto simp: history_ok_def)
  qed
qed

section \<open>The detector as a worker\<close>

text \<open>After the detection it wants the points of the event, otherwise the next piece.\<close>

definition detector_ok :: "platform \<Rightarrow> stream_meta \<Rightarrow> 'a detector \<Rightarrow> read_info \<Rightarrow> bool" where
  "detector_ok p sm det ri \<longleftrightarrow> detector_config p sm det \<and> history_ok det \<and>
     (if detected_an_event det
      then next_loc ri = requested_data_point_id det \<and> keep ri = 0 \<and>
           read_n ri = nat (stored_before sm + stored_of sm)
      else keep ri = nat (stored_before sm) \<and> read_n ri = piece sm det)"

text \<open>The event that is made of a piece of the stream.\<close>

definition event_at :: "stream_meta \<Rightarrow> (int \<Rightarrow> int) \<Rightarrow> 'a list \<Rightarrow> int \<Rightarrow> 'a event" where
  "event_at sm time xs start = createEvent (EventMetaData (time (start + stored_before sm)) (meta_of sm)) xs None"

definition data_point_time :: "platform \<Rightarrow> stream_meta \<Rightarrow> int \<Rightarrow> int" where
  "data_point_time p sm n = packet_time sm +
     cpp_int_to_int p (trunc_div ((n - synced_package_id sm) * 1000000) (int (sample_rate (power_meta sm))))"

lemma detector_createEvent_result:
  assumes "detector_config p sm det" and "int (length xs) = stored_before sm + stored_of sm"
  shows "detector_createEvent p sm xs start = Inr (event_at sm (data_point_time p sm) xs start)"
proof -
  have "sample_rate (power_meta sm) \<noteq> 0"
    using assms(1) by (auto simp: detector_config_def getFixedPowerMetaData_def)
  then show ?thesis using config_sums(1) [OF assms(1)] assms(2)
    by (simp add: detector_createEvent_def getDataPointTime_def Let_def event_at_def data_point_time_def)
qed

lemma detector_work_event:
  assumes "detector_ok p sm det ri" and "detected_an_event det" and "length xs = read_n ri"
  shows "detector_work p ampere sm det xs (next_loc ri) =
    (det\<lparr>detected_an_event := False,
         event_detected := event_detected det @ [event_at sm (data_point_time p sm) xs (next_loc ri)],
         requested_data_point_id := next_loc ri + stored_before sm + stored_of sm\<rparr>,
     Inr \<lparr>keep = nat (stored_before sm), read_n = piece sm det,
           next_loc = next_loc ri + stored_before sm + stored_of sm\<rparr>)"
proof -
  have c: "detector_config p sm det" and ri: "next_loc ri = requested_data_point_id det"
    "read_n ri = nat (stored_before sm + stored_of sm)"
    using assms(1,2) by (simp_all add: detector_ok_def)
  have len: "int (length xs) = stored_before sm + stored_of sm" "xs \<noteq> []"
    using assms(3) ri c by (auto simp: detector_config_def)
  let ?det1 = "det\<lparr>detected_an_event := False, event_detected := event_detected det @ [event_at sm (data_point_time p sm) xs (next_loc ri)]\<rparr>"
  have "detector_config p sm ?det1" using c by simp
  note req = requests(2) [OF this, of "next_loc ri"]
  show ?thesis using len assms(2) ri(1) req detector_createEvent_result [OF c len(1), of "next_loc ri"]
    by (simp add: detector_work_def Let_def)
qed

lemma detector_work_compare:
  assumes "detector_ok p sm det ri" and "\<not> detected_an_event det" and "length xs = read_n ri"
    and "\<forall>x \<in> set xs. is_fin (ampere x)"
  shows "\<exists>h. history_ok (det\<lparr>previous_rms := h\<rparr>) \<and>
    (detectEvent ampere sm xs det = (det\<lparr>previous_rms := h\<rparr>, Inr True) \<and>
       detector_work p ampere sm det xs (next_loc ri) =
         (det\<lparr>previous_rms := h, detected_an_event := True,
              requested_data_point_id := next_loc ri - stored_before sm + int (period sm)\<rparr>,
          Inr \<lparr>keep = 0, read_n = nat (stored_before sm + stored_of sm),
                next_loc = next_loc ri - stored_before sm + int (period sm)\<rparr>) \<or>
     detectEvent ampere sm xs det = (det\<lparr>previous_rms := h\<rparr>, Inr False) \<and>
       detector_work p ampere sm det xs (next_loc ri) =
         (det\<lparr>previous_rms := h, requested_data_point_id := next_loc ri + int (piece sm det)\<rparr>,
          Inr \<lparr>keep = nat (stored_before sm), read_n = piece sm det,
                next_loc = next_loc ri + int (piece sm det)\<rparr>))"
proof -
  have c: "detector_config p sm det" "history_ok det" "read_n ri = piece sm det"
    using assms(1,2) by (simp_all add: detector_ok_def)
  have ne: "xs \<noteq> []" using piece_bounds(1) [OF c(1)] assms(3) c(3) by auto
  have len: "length xs = piece sm det" using assms(3) c(3) by simp
  obtain h b where h: "detectEvent ampere sm xs det = (det\<lparr>previous_rms := h\<rparr>, Inr b)"
    "history_ok (det\<lparr>previous_rms := h\<rparr>)"
    using detectEvent_result [OF c(1) len c(2) assms(4)] by blast
  have c': "detector_config p sm (det\<lparr>previous_rms := h\<rparr>)"
    "detector_config p sm (det\<lparr>previous_rms := h, detected_an_event := True\<rparr>)" using c(1) by simp_all
  show ?thesis
    using h ne assms(2) requests(1) [OF c'(2), of "next_loc ri"] requests(4) [OF c'(1), of "next_loc ri"]
    by (intro exI [of _ h]) (cases b; simp add: detector_work_def)
qed

lemma detector_step:
  assumes "detector_ok p sm det ri" and "length xs = read_n ri" and "\<forall>x \<in> set xs. is_fin (ampere x)"
  shows "\<exists>det' ri'. detector_work p ampere sm det xs (next_loc ri) = (det', Inr ri') \<and> detector_ok p sm det' ri' \<and>
    earliest ri < earliest ri' \<and> next_loc ri' \<le> read_end ri"
proof (cases "detected_an_event det")
  case True
  have "detector_config p sm det" "history_ok det" "keep ri = 0" "read_n ri = nat (stored_before sm + stored_of sm)"
    using assms(1) True by (simp_all add: detector_ok_def)
  then show ?thesis
    unfolding detector_work_event [OF assms(1) True assms(2)]
    by (auto simp: detector_ok_def earliest_def read_end_def detector_config_def history_ok_def piece_def)
next
  case False
  have c: "detector_config p sm det" "keep ri = nat (stored_before sm)" "read_n ri = piece sm det"
    using assms(1) False by (simp_all add: detector_ok_def)
  have b: "0 \<le> stored_before sm" "0 < period sm" "period sm < piece sm det"
    using c config_period(2) [OF c(1)] piece_bounds(1) [OF c(1)] by (simp_all add: detector_config_def)
  from detector_work_compare [OF assms(1) False assms(2,3)] show ?thesis
  proof (elim exE conjE disjE)
    fix h
    assume "history_ok (det\<lparr>previous_rms := h\<rparr>)"
      "detector_work p ampere sm det xs (next_loc ri) =
         (det\<lparr>previous_rms := h, detected_an_event := True,
              requested_data_point_id := next_loc ri - stored_before sm + int (period sm)\<rparr>,
          Inr \<lparr>keep = 0, read_n = nat (stored_before sm + stored_of sm),
                next_loc = next_loc ri - stored_before sm + int (period sm)\<rparr>)"
    then show ?thesis using c b
      by (auto simp: detector_ok_def earliest_def read_end_def history_ok_def)
  next
    fix h
    assume "history_ok (det\<lparr>previous_rms := h\<rparr>)"
      "detector_work p ampere sm det xs (next_loc ri) =
         (det\<lparr>previous_rms := h, requested_data_point_id := next_loc ri + int (piece sm det)\<rparr>,
          Inr \<lparr>keep = nat (stored_before sm), read_n = piece sm det,
                next_loc = next_loc ri + int (piece sm det)\<rparr>)"
    then show ?thesis using c b False
      by (auto simp: detector_ok_def earliest_def read_end_def history_ok_def)
  qed
qed

lemma detector_asks: "detector_ok p sm det ri \<Longrightarrow> 0 < read_n ri"
  using piece_bounds(1) [of p sm det] by (auto simp: detector_ok_def detector_config_def split: if_splits)

interpretation detecting: stream_worker "detector_work p ampere sm" "detector_ok p sm" "\<lambda>x. is_fin (ampere x)"
  for p ampere sm
proof (unfold_locales, goal_cases)
  case (1 det ri xs)
  show ?case by (rule detector_step [OF 1])
next
  case (2 det ri)
  show ?case by (rule detector_asks [OF 2])
qed

text \<open>A detector that joins the distributor wants the first piece after the points it keeps.\<close>

lemma detector_joins:
  assumes "detector_config p sm det" and "history_ok det" and "\<not> detected_an_event det"
  shows "detector_work p ampere sm det [] pos = (det\<lparr>requested_data_point_id := pos + stored_before sm\<rparr>,
      Inr \<lparr>keep = nat (stored_before sm), read_n = piece sm det, next_loc = pos + stored_before sm\<rparr>)"
    and "detector_ok p sm (det\<lparr>requested_data_point_id := pos + stored_before sm\<rparr>)
      \<lparr>keep = nat (stored_before sm), read_n = piece sm det, next_loc = pos + stored_before sm\<rparr>"
  using requests(3) [OF assms(1), of pos] assms
  by (simp_all add: detector_work_def detector_ok_def history_ok_def)

section \<open>The events of a stream\<close>

lemma insert_float_nth: "i < length ys + 1 \<Longrightarrow> insert_float x ys ! i \<in> insert x (set ys)"
  by (metis insert_float_set nth_mem Suc_eq_plus1)

lemma median_of_equal:
  assumes "rms \<noteq> []" and "set rms \<subseteq> {r}" and "r \<noteq> NaN"
  shows "getMedianPrevRMS rms = Inr r"
proof -
  have "sort_floats rms ! (length rms div 2) \<in> set (sort_floats rms)"
    using assms(1) by (intro nth_mem) simp
  then have "sort_floats rms ! (length rms div 2) = r" using assms(2) by auto
  then show ?thesis using assms by (auto simp: getMedianPrevRMS_def nth_element_def)
qed

text \<open>
  The events of a stream: each is a piece of the stream, and the parts recorded from
  \<open>event_begin\<close> on are disjoint and follow each other with at least a period in between.
\<close>

definition event_slice :: "platform \<Rightarrow> stream_meta \<Rightarrow> 'a list \<Rightarrow> int \<Rightarrow> 'a event" where
  "event_slice p sm stream start =
     event_at sm (data_point_time p sm) (slice stream (nat start) (nat (stored_before sm + stored_of sm))) start"

definition spaced :: "stream_meta \<Rightarrow> int list \<Rightarrow> bool" where
  "spaced sm starts \<longleftrightarrow> sorted_wrt (\<lambda>a b. a + stored_of sm + int (period sm) \<le> b) starts"

definition events_inv :: "platform \<Rightarrow> stream_meta \<Rightarrow> 'a list \<Rightarrow> 'a detector \<Rightarrow> read_info \<Rightarrow> bool" where
  "events_inv p sm stream det ri \<longleftrightarrow>
     (\<exists>starts. event_detected det = map (event_slice p sm stream) starts \<and> spaced sm starts \<and>
        (\<forall>s \<in> set starts. 0 \<le> s \<and> s + stored_before sm + stored_of sm \<le> int (length stream) \<and>
           s + (if detected_an_event det then stored_of sm + int (period sm)
                else stored_before sm + stored_of sm) \<le> next_loc ri))"

lemma events_inv_step:
  assumes "detector_ok p sm det ri" and "0 \<le> earliest ri" and "read_end ri \<le> int (length stream)"
    and "events_inv p sm stream det ri" and "length xs = read_n ri"
    and "xs = slice stream (nat (next_loc ri)) (read_n ri)" and "\<forall>x \<in> set xs. is_fin (ampere x)"
    and "detector_work p ampere sm det xs (next_loc ri) = (det', Inr ri')"
  shows "events_inv p sm stream det' ri'"
proof -
  have c: "detector_config p sm det" using assms(1) by (simp add: detector_ok_def)
  have b: "0 \<le> stored_before sm" "0 < stored_of sm" "0 < period sm"
    using c config_period(2) [OF c] by (simp_all add: detector_config_def)
  obtain starts where starts: "event_detected det = map (event_slice p sm stream) starts" "spaced sm starts"
    "\<forall>s \<in> set starts. 0 \<le> s \<and> s + stored_before sm + stored_of sm \<le> int (length stream) \<and>
       s + (if detected_an_event det then stored_of sm + int (period sm)
            else stored_before sm + stored_of sm) \<le> next_loc ri"
    using assms(4) by (auto simp: events_inv_def)
  show ?thesis
  proof (cases "detected_an_event det")
    case True
    have ri: "read_n ri = nat (stored_before sm + stored_of sm)" "keep ri = 0"
      using assms(1) True by (simp_all add: detector_ok_def)
    note w = detector_work_event [OF assms(1) True assms(5), of ampere]
    have "event_at sm (data_point_time p sm) xs (next_loc ri) = event_slice p sm stream (next_loc ri)"
      using assms(6) ri(1) by (simp add: event_slice_def)
    then have d: "event_detected det' = map (event_slice p sm stream) (starts @ [next_loc ri])"
      "\<not> detected_an_event det'" "next_loc ri' = next_loc ri + stored_before sm + stored_of sm"
      using w assms(8) starts(1) by auto
    have "spaced sm (starts @ [next_loc ri])"
      using starts(2,3) True by (auto simp: spaced_def sorted_wrt_append)
    moreover have "0 \<le> next_loc ri" "next_loc ri + stored_before sm + stored_of sm \<le> int (length stream)"
      using assms(2,3) ri b by (simp_all add: earliest_def read_end_def)
    moreover have "s + stored_before sm + stored_of sm \<le> next_loc ri'" if "s \<in> set starts" for s
      using starts(3) that True b by (auto simp: d(3))
    ultimately show ?thesis unfolding events_inv_def
      using d starts(3) by (intro exI [of _ "starts @ [next_loc ri]"]) auto
  next
    case False
    from detector_work_compare [OF assms(1) False assms(5,7)] show ?thesis
    proof (elim exE conjE disjE)
      fix h
      assume "detector_work p ampere sm det xs (next_loc ri) =
         (det\<lparr>previous_rms := h, detected_an_event := True,
              requested_data_point_id := next_loc ri - stored_before sm + int (period sm)\<rparr>,
          Inr \<lparr>keep = 0, read_n = nat (stored_before sm + stored_of sm),
                next_loc = next_loc ri - stored_before sm + int (period sm)\<rparr>)"
      then show ?thesis unfolding events_inv_def
        using starts False b assms(8) by (intro exI [of _ starts]) auto
    next
      fix h
      assume "detector_work p ampere sm det xs (next_loc ri) =
         (det\<lparr>previous_rms := h, requested_data_point_id := next_loc ri + int (piece sm det)\<rparr>,
          Inr \<lparr>keep = nat (stored_before sm), read_n = piece sm det,
                next_loc = next_loc ri + int (piece sm det)\<rparr>)"
      then show ?thesis unfolding events_inv_def
        using starts False b assms(8) by (intro exI [of _ starts]) fastforce
    qed
  qed
qed

lemma advance_events:
  assumes "detector_ok p sm det ri" and "0 \<le> earliest ri" and "event_detected det = []"
    and "\<forall>x \<in> set stream. is_fin (ampere x)"
    and "advance (detector_work p ampere sm) stream det ri = Some (det', Inr ri')"
  shows "events_inv p sm stream det' ri'"
proof (rule detecting.advance_invariant [OF assms(1,2) _ assms(4) _ assms(5)])
  show "events_inv p sm stream det ri" using assms(3) by (simp add: events_inv_def spaced_def)
next
  fix w ri w' ri'
  assume *: "detector_ok p sm w ri" "0 \<le> earliest ri" "read_end ri \<le> int (length stream)"
    "events_inv p sm stream w ri" "length (slice stream (nat (next_loc ri)) (read_n ri)) = read_n ri"
    "detector_work p ampere sm w (slice stream (nat (next_loc ri)) (read_n ri)) (next_loc ri) = (w', Inr ri')"
  have "\<forall>x \<in> set (slice stream (nat (next_loc ri)) (read_n ri)). is_fin (ampere x)"
    using assms(4) set_slice [of stream] by blast
  from events_inv_step [OF *(1-5) refl this *(6)] show "events_inv p sm stream w' ri'" .
qed

section \<open>Properties\<close>


definition sample_meta :: stream_meta where
  "sample_meta = \<lparr>synced_package_id = 0, packet_time = 0,
     power_meta = \<lparr>sample_rate = 60, frequency = 60, voltage = Fin False 230, max_data_points_in_queue = 16000,
       data_points_stored_of_event = 1, data_points_stored_before_event = 1\<rparr>\<rparr>"

definition sample_detector :: "f32 detector" where
  "sample_detector = EventDetector (Fin False (1/4)) 0"

lemma sample_config [simp]:
  "detector_config modular_platform sample_meta sample_detector" "piece sample_meta sample_detector = 5"
  "period sample_meta = 1" "history_ok sample_detector" "\<not> detected_an_event sample_detector"
  "event_detected sample_detector = []"
  by (simp_all add: detector_config_def sample_meta_def sample_detector_def EventDetector_def
      getFixedPowerMetaData_def piece_def period_def history_ok_def)


text \<open>
  A constant load is never an event: as long as every root mean square that the detector
  computes has the same value, and the threshold is not negative, no event is detected.
\<close>

theorem constant_load_is_no_event:
  assumes "detector_config p sm det" and "length xs = piece sm det" and "history_ok det"
    and "rootMeanSquareOfAmpere ampere xs = r" and "r \<noteq> NaN" and "fl_wf binary32 r" and "fl_nonneg (threshold det)"
    and "\<forall>i < 4. rootMeanSquareOfAmpere ampere (slice xs (i * period sm) (period sm)) = r"
    and "set (previous_rms det) \<subseteq> {r}"
  shows "\<exists>h. detectEvent ampere sm xs det = (det\<lparr>previous_rms := h\<rparr>, Inr False) \<and>
    history_ok (det\<lparr>previous_rms := h\<rparr>) \<and> set h \<subseteq> {r}"
proof -
  from assms(3) consider "previous_rms det = []" | "length (previous_rms det) = 5" by (auto simp: history_ok_def)
  then show ?thesis
  proof cases
    case 1
    let ?h = "rootMeanSquareOfAmpere ampere xs #
        map (\<lambda>i. rootMeanSquareOfAmpere ampere (slice xs (i * period sm) (period sm))) [0..<4]"
    have "set ?h \<subseteq> {r}" using assms(4,8) by (auto simp del: upt_Suc)
    moreover from this have "history_ok (det\<lparr>previous_rms := ?h\<rparr>)"
      using assms(5) by (auto simp: history_ok_def simp del: upt_Suc)
    ultimately show ?thesis using detectEvent_first [OF assms(1,2) 1, of ampere] by blast
  next
    case 2
    let ?h = "tl (previous_rms det) @ [r]"
    have h: "set ?h \<subseteq> {r}" using assms(9) 2 by (cases "previous_rms det") auto
    have "\<not> fl_less r (f_sub r (threshold det))"
      by (rule fl_sub_not_greater [OF assms(6,7)]) (simp add: binary32_def)
    then have "detectEvent ampere sm xs det = (det\<lparr>previous_rms := ?h\<rparr>, Inr False)"
      using detectEvent_later [OF assms(1,2) 2, of ampere] median_of_equal [OF _ h assms(5)] assms(4)
      by (simp add: judge_def)
    moreover have "history_ok (det\<lparr>previous_rms := ?h\<rparr>)"
      using h 2 assms(5) by (auto simp: history_ok_def)
    ultimately show ?thesis using h by blast
  qed
qed

lemma sample_history: "fl_nonneg (threshold sample_detector)" "set (previous_rms sample_detector) \<subseteq> {fl_one}"
  by (simp_all add: sample_detector_def EventDetector_def fl_nonneg_def)

theorem constant_load_is_no_event_witness:
  "\<exists>h. detectEvent (\<lambda>x. x) sample_meta (replicate 5 fl_one) sample_detector
     = (sample_detector\<lparr>previous_rms := h\<rparr>, Inr False)"
proof -
  have one: "rootMeanSquareOfAmpere (\<lambda>x. x) (replicate 5 fl_one) = fl_one"
    "rootMeanSquareOfAmpere (\<lambda>x. x) [fl_one] = fl_one" by code_simp+
  have piece1: "slice (replicate 5 fl_one) i 1 = [fl_one]" if "i < 4" for i
    using that by (simp add: slice_def drop_replicate)
  have "fl_wf binary32 (fl_of_rat binary32 False 1)" by (rule fl_wf_of_rat) (simp add: binary32_def)
  then have "fl_wf binary32 fl_one" by (simp only: f_of_int_one)
  moreover have "\<forall>i < 4. rootMeanSquareOfAmpere (\<lambda>x. x) (slice (replicate 5 fl_one) (i * period sample_meta) (period sample_meta)) = fl_one"
    using piece1 one(2) by simp
  ultimately show ?thesis
    using constant_load_is_no_event [OF sample_config(1) _ sample_config(4) one(1) _ _ sample_history(1) _ sample_history(2)]
    by fastforce
qed


definition sample_distributor :: "(f32 detector, f32, unit) distributor" where
  "sample_distributor =
     \<lparr>dist_meta_data = (), workers = [sample_detector\<lparr>requested_data_point_id := 1\<rparr>],
      read_infos = [\<lparr>keep = 1, read_n = 5, next_loc = 1\<rparr>], current_global_buffer_pos = 0, buffered = []\<rparr>"

definition sample_queue :: "f32 async_queue" where
  "sample_queue = new_queue\<lparr>data_queue := replicate 6 fl_one, stream_ended := True\<rparr>"

lemma sample_meta_simps [simp]: "stored_before sample_meta = 1" "stored_of sample_meta = 1"
  by (simp_all add: sample_meta_def getFixedPowerMetaData_def)

lemma sample_inv: "dist_inv (detector_ok modular_platform sample_meta) [] sample_distributor"
  by (simp add: dist_inv_def window_def workers_ok_def hungry_def sample_distributor_def detector_ok_def
      earliest_def read_end_def sample_detector_def EventDetector_def)
   (use sample_config(1,2,4) in \<open>simp add: sample_detector_def EventDetector_def history_ok_def detector_config_def piece_def\<close>)

lemma sample_ready:
  "round_ready modular_platform [] sample_queue (replicate 6 fl_one) (sample_queue\<lparr>data_queue := []\<rparr>) sample_distributor"
  by (simp add: round_ready_def popDataPoints_result sample_queue_def wanted_def sample_distributor_def
      read_end_def fits_def reads_within_def modular_platform_def new_queue_def)



lemma sample_round:
  "\<exists>d. rounds modular_platform (detector_work modular_platform (\<lambda>x. x) sample_meta) sample_distributor (replicate 6 fl_one) d"
proof -
  have gs: "\<forall>x \<in> set ([] @ replicate 6 fl_one). is_fin x" by simp
  obtain d' b where "loopWorkersOnce modular_platform (detector_work modular_platform (\<lambda>x. x) sample_meta) sample_queue sample_distributor
     = Some ((d', sample_queue\<lparr>data_queue := []\<rparr>), Inr b)"
    using detecting.loopWorkersOnce_refines [OF modular_platform_faithful sample_inv sample_ready, of "\<lambda>x. x"] gs by auto
  from rounds.one_more [OF rounds.no_round sample_ready this] show ?thesis by auto
qed




text \<open>
  C13: if the stream ends before \<open>data_points_stored_before_event\<close> points have arrived, the first
  detector's round does not end normally: the number of points left in the buffer is computed
  as an unsigned difference that wraps around, and an iterator past the end is used.
\<close>

theorem short_stream_is_undefined:
  assumes "detector_config p sm det" and "history_ok det" and "\<not> detected_an_event det"
    and "stream_ended q" and "int (length (data_queue q)) < stored_before sm"
    and "int (piece sm det) + stored_before sm \<le> int (deque_max_size p)"
    and "fst (addWorker (detector_work p ampere sm) (\<lambda>_ w. w) det (DataStreamDistributor ())) = d"
  shows "\<exists>r. loopWorkersOnce p (detector_work p ampere sm) q d = Some (r, Inl Undefined)"
proof -
  let ?ri = "\<lparr>keep = nat (stored_before sm), read_n = piece sm det, next_loc = stored_before sm\<rparr>"
  have f: "faithful_platform p" "stored_before sm < 2 ^ 31" "0 < stored_of sm"
    using assms(1) by (simp_all add: detector_config_def)
  have small: "piece sm det < 2 ^ 63" "int (deque_max_size p) < 2 ^ 63"
    using piece_bounds(3) [OF assms(1)] f(1) by (simp_all add: faithful_platform_def)
  have d: "d = \<lparr>dist_meta_data = (), workers = [det\<lparr>requested_data_point_id := stored_before sm\<rparr>],
      read_infos = [?ri], current_global_buffer_pos = 0, buffered = []\<rparr>"
    using detector_joins(1) [OF assms(1-3), of ampere 0] assms(7)
    by (simp add: addWorker_def DataStreamDistributor_def)
  have "window [] d" "hungry [] d" "fits p d"
    using assms(5,6) small f(2) by (simp_all add: d window_def hungry_def fits_def read_end_def)
  then show ?thesis
    using assms(4,5) f small by (intro loop_short_stream [of p "[]"]) (simp_all add: d)
qed

theorem short_stream_is_undefined_witness:
  "\<exists>r. loopWorkersOnce modular_platform (detector_work modular_platform (\<lambda>x. x) sample_meta)
     (notifyStreamEnd new_queue) (fst (addWorker (detector_work modular_platform (\<lambda>x. x) sample_meta) (\<lambda>_ w. w)
        sample_detector (DataStreamDistributor ()))) = Some (r, Inl Undefined)"
  by (rule short_stream_is_undefined [OF sample_config(1,4,5) _ _ _ refl])
    (simp_all add: notifyStreamEnd_def new_queue_def modular_platform_def)

end
