(* ===== verification/Smart_App.thy ===== *)
theory Smart_App
  imports Event_Detector Data_Classifier
begin

text \<open>
  The application object (\<^verbatim>\<open>smart_app/src/SmartApp.h\<close>) and its second worker, the metric provider
  (\<^verbatim>\<open>smart_app/src/MetricProvider.h\<close>). The distributor's workers are a sum; a worker's virtual
  method is dispatched on it. The signal \<^verbatim>\<open>event_detected\<close> calls \<open>onEventDetected\<close>, which pushes the
  event to the classifier's thread; the events of a round that have not been pushed yet are a list,
  because the detection does not depend on when they are.

  The lemmas interpret \<open>stream_worker\<close> on the two workers together, and show that the classifier is
  handed every event of the stream once and in order, whatever the metric provider does.
\<close>

section \<open>The metric provider\<close>

text \<open>The two counters are never written.\<close>

record metric_provider =
  total_seconds_of_data_accumulated :: nat
  current_seconds_of_data_accumulated :: nat

definition numberOfDataPointsFetched :: "stream_meta \<Rightarrow> nat" where
  "numberOfDataPointsFetched sm = sample_rate (meta_of sm)"

definition nextPeriod :: "stream_meta \<Rightarrow> int \<Rightarrow> read_info" where
  "nextPeriod sm data_point_id =
     NextReadInfos 0 (numberOfDataPointsFetched sm) (data_point_id + int (numberOfDataPointsFetched sm))"

definition calculateSteadyStateData :: "stream_meta \<Rightarrow> 'a list \<Rightarrow> metric_provider \<Rightarrow> metric_provider res" where
  "calculateSteadyStateData sm xs m = (if length xs = sample_rate (meta_of sm) then Inr m else Inl Assert_failed)"

definition shouldPublishData :: "metric_provider \<Rightarrow> bool" where
  "shouldPublishData m \<longleftrightarrow> total_seconds_of_data_accumulated m \<le> current_seconds_of_data_accumulated m"

definition publishData :: "metric_provider \<Rightarrow> metric_provider" where
  "publishData m = m"

definition resetInfos :: "int \<Rightarrow> metric_provider \<Rightarrow> metric_provider" where
  "resetInfos data_point_id m = m"

definition metric_work :: "stream_meta \<Rightarrow> (metric_provider, 'a) work_method" where
  "metric_work sm m xs data_point_id =
     (if xs = [] then (m, Inr (nextPeriod sm data_point_id))
      else case calculateSteadyStateData sm xs m of
        Inl e \<Rightarrow> (m, Inl e)
      | Inr m \<Rightarrow> (if shouldPublishData m then resetInfos data_point_id (publishData m) else m, Inr (nextPeriod sm data_point_id)))"

section \<open>The application\<close>

datatype 'a smart_worker = Detecting "'a detector" | Metering metric_provider

fun smart_work :: "platform \<Rightarrow> ('a \<Rightarrow> f32) \<Rightarrow> stream_meta \<Rightarrow> ('a smart_worker, 'a) work_method" where
  "smart_work p ampere sm (Detecting det) xs i = (case detector_work p ampere sm det xs i of (det', r) \<Rightarrow> (Detecting det', r))"
| "smart_work p ampere sm (Metering m) xs i = (case metric_work sm m xs i of (m', r) \<Rightarrow> (Metering m', r))"

record 'a smart_app =
  app_distributor :: "('a smart_worker, 'a, unit) distributor"
  app_classifier :: "'a data_classifier"
  app_pending :: "'a event list"

text \<open>The shared meta data is the parameter \<open>sm\<close>, its contents while the object is constructed.\<close>

definition SmartApp ::
  "platform \<Rightarrow> ('a \<Rightarrow> f32) \<Rightarrow> stream_meta \<Rightarrow> 'a detector \<Rightarrow> metric_provider \<Rightarrow> 'a smart_app \<times> unit res" where
  "SmartApp p ampere sm det metric =
     (let work = smart_work p ampere sm; keep_meta = (\<lambda>_ w. w);
          app = (\<lambda>d. \<lparr>app_distributor = d, app_classifier = DataClassifier, app_pending = []\<rparr>)
      in case addWorker work keep_meta (Detecting det) (DataStreamDistributor ()) of
           (d, Inl e) \<Rightarrow> (app d, Inl e)
         | (d, Inr _) \<Rightarrow> (case addWorker work keep_meta (Metering metric) d of (d, r) \<Rightarrow> (app d, r)))"

fun worker_events :: "'a smart_worker \<Rightarrow> 'a event list" where
  "worker_events (Detecting det) = event_detected det"
| "worker_events (Metering m) = []"

definition app_events :: "'a smart_app \<Rightarrow> 'a event list" where
  "app_events app = worker_events (workers (app_distributor app) ! 0)"

definition onEventDetected :: "'a event \<Rightarrow> 'a smart_app \<Rightarrow> 'a smart_app" where
  "onEventDetected ev app =
     app\<lparr>app_classifier := (case pushEvent ev (app_classifier app) of Some (c, _) \<Rightarrow> c | None \<Rightarrow> app_classifier app)\<rparr>"

definition setDataClassifier :: "'a data_classifier \<Rightarrow> 'a smart_app \<Rightarrow> 'a smart_app" where
  "setDataClassifier data_classifier app = app"

definition startThreads :: "'a smart_app \<Rightarrow> ('a smart_app \<times> unit res) option" where
  "startThreads app = map_option (\<lambda>(c, r). (app\<lparr>app_classifier := c\<rparr>, r)) (startClassification ClassificationConfig (app_classifier app))"

text \<open>
  \<open>stopThreads\<close> in its two steps: once the stack is empty the thread is told to stop, and when it has
  returned it is joined. \<open>None\<close>: the step waits.
\<close>

definition stopThreads_flag :: "'a smart_app \<Rightarrow> ('a smart_app \<times> unit res) option" where
  "stopThreads_flag app =
     (if stopAnalyzingWhenDone_may_return (app_classifier app)
      then map_option (\<lambda>(c, r). (app\<lparr>app_classifier := c\<rparr>, r)) (stop_flag (app_classifier app)) else None)"

definition stopThreads_join :: "'a smart_app \<Rightarrow> ('a smart_app \<times> unit res) option" where
  "stopThreads_join app = map_option (\<lambda>(c, r). (app\<lparr>app_classifier := c\<rparr>, r)) (join_runner (app_classifier app))"

text \<open>A round of the main loop: the events that its detector has announced are pushed one by one.\<close>

definition app_round ::
  "platform \<Rightarrow> ('a \<Rightarrow> f32) \<Rightarrow> stream_meta \<Rightarrow> 'a async_queue \<Rightarrow> 'a smart_app \<Rightarrow> (('a smart_app \<times> 'a async_queue) \<times> bool res) option" where
  "app_round p ampere sm q app =
     map_option (\<lambda>((d, q'), r).
         let app' = app\<lparr>app_distributor := d\<rparr>
         in ((app'\<lparr>app_pending := app_pending app @ drop (length (app_events app)) (app_events app')\<rparr>, q'), r))
       (loopWorkersOnce p (smart_work p ampere sm) q (app_distributor app))"

section \<open>The workers keep the contract\<close>

definition metric_ok :: "stream_meta \<Rightarrow> metric_provider \<Rightarrow> read_info \<Rightarrow> bool" where
  "metric_ok sm m ri \<longleftrightarrow> 0 < sample_rate (meta_of sm) \<and> read_n ri = sample_rate (meta_of sm) \<and> keep ri = 0"

lemma metric_step:
  assumes "metric_ok sm m ri" and "length xs = read_n ri"
  shows "\<exists>m' ri'. metric_work sm m xs (next_loc ri) = (m', Inr ri') \<and> metric_ok sm m' ri' \<and>
    earliest ri < earliest ri' \<and> next_loc ri' \<le> read_end ri"
  using assms
  by (auto simp: metric_work_def metric_ok_def calculateSteadyStateData_def nextPeriod_def NextReadInfos_def
      numberOfDataPointsFetched_def earliest_def read_end_def)

interpretation metering: stream_worker "metric_work sm" "metric_ok sm" "\<lambda>x. True" for sm
proof (unfold_locales, goal_cases)
  case (1 m ri xs)
  show ?case by (rule metric_step [OF 1(1,2)])
next
  case (2 m ri)
  then show ?case by (simp add: metric_ok_def)
qed

text \<open>After the sample rate has changed the first piece has the wrong length.\<close>

lemma metric_provider_aborts:
  "length xs \<noteq> sample_rate (meta_of sm) \<Longrightarrow> xs \<noteq> [] \<Longrightarrow> metric_work sm m xs i = (m, Inl Assert_failed)"
  by (simp add: metric_work_def calculateSteadyStateData_def)

fun smart_ok :: "platform \<Rightarrow> stream_meta \<Rightarrow> 'a smart_worker \<Rightarrow> read_info \<Rightarrow> bool" where
  "smart_ok p sm (Detecting det) ri = detector_ok p sm det ri"
| "smart_ok p sm (Metering m) ri = metric_ok sm m ri"

interpretation smart: stream_worker "smart_work p ampere sm" "smart_ok p sm" "\<lambda>x. is_fin (ampere x)" for p ampere sm
proof (unfold_locales, goal_cases)
  case (1 w ri xs)
  then show ?case
  proof (cases w)
    case (Detecting det)
    then have "detector_ok p sm det ri" using 1 by simp
    from detecting.work_step [OF this 1(2,3)] obtain det' ri' where
      "detector_work p ampere sm det xs (next_loc ri) = (det', Inr ri')" "detector_ok p sm det' ri'"
      "earliest ri < earliest ri'" "next_loc ri' \<le> read_end ri" by blast
    then show ?thesis using Detecting by (intro exI [of _ "Detecting det'"] exI [of _ ri']) simp
  next
    case (Metering m)
    then have "metric_ok sm m ri" using 1 by simp
    from metric_step [OF this 1(2)] obtain m' ri' where
      "metric_work sm m xs (next_loc ri) = (m', Inr ri')" "metric_ok sm m' ri'"
      "earliest ri < earliest ri'" "next_loc ri' \<le> read_end ri" by blast
    then show ?thesis using Metering by (intro exI [of _ "Metering m'"] exI [of _ ri']) simp
  qed
next
  case (2 w ri)
  then show ?case using detector_asks by (cases w) (auto simp: metric_ok_def)
qed

lemma smart_advance_detector:
  assumes "detector_ok p sm det ri" and "0 \<le> earliest ri" and finite: "\<forall>x \<in> set stream. is_fin (ampere x)"
  shows "advance (smart_work p ampere sm) stream (Detecting det) ri
    = map_option (\<lambda>(det', r). (Detecting det', r)) (advance (detector_work p ampere sm) stream det ri)"
  using assms(1,2)
proof (induction "nat (int (length stream) - earliest ri)" arbitrary: det ri rule: less_induct)
  case less
  show ?case
  proof (cases "read_end ri \<le> int (length stream)")
    case False
    then show ?thesis by (simp add: advance.simps [of _ stream _ ri])
  next
    case True
    obtain v rj where s: "detector_work p ampere sm det (Prelude.slice stream (nat (next_loc ri)) (read_n ri)) (next_loc ri) = (v, Inr rj)"
      "detector_ok p sm v rj" "earliest ri < earliest rj"
      using detecting.step_obtain [OF less.prems True finite] by metis
    have shorter: "nat (int (length stream) - earliest rj) < nat (int (length stream) - earliest ri)"
      using s(3) True detector_asks [OF less.prems(1)] by (simp add: earliest_def read_end_def)
    have "advance (smart_work p ampere sm) stream (Detecting v) rj
      = map_option (\<lambda>(det', r). (Detecting det', r)) (advance (detector_work p ampere sm) stream v rj)"
      using less.hyps [OF shorter s(2)] s(3) less.prems(2) by simp
    then show ?thesis using True s(1) by (simp add: advance.simps [of _ stream _ ri])
  qed
qed


section \<open>The classifier gets every event once\<close>

text \<open>
  Rounds of the main loop, each with whatever the queue holds, pushes of announced events, and what
  the classifier's thread and the other threads do; \<open>pushed\<close> is the history of the pushes.
\<close>

inductive app_runs ::
  "platform \<Rightarrow> ('a \<Rightarrow> f32) \<Rightarrow> stream_meta \<Rightarrow> 'a surroundings \<Rightarrow> ('a request \<Rightarrow> bool) \<Rightarrow> 'a smart_app \<Rightarrow> 'a list \<Rightarrow> 'a event list \<Rightarrow> 'a smart_app \<Rightarrow> bool"
  for p ampere sm env allowed app0 where
  app_start: "app_runs p ampere sm env allowed app0 [] [] app0"
| app_detects: "app_runs p ampere sm env allowed app0 stream pushed app \<Longrightarrow> app_pending app = [] \<Longrightarrow>
     round_ready p stream q xs q' (app_distributor app) \<Longrightarrow> app_round p ampere sm q app = Some ((app', q'), Inr b) \<Longrightarrow>
     app_runs p ampere sm env allowed app0 (stream @ xs) pushed app'"
| app_pushes: "app_runs p ampere sm env allowed app0 stream pushed app \<Longrightarrow> app_pending app = ev # evs \<Longrightarrow>
     app_runs p ampere sm env allowed app0 stream (pushed @ [ev]) (onEventDetected ev (app\<lparr>app_pending := evs\<rparr>))"
| app_classifies: "app_runs p ampere sm env allowed app0 stream pushed app \<Longrightarrow> allowed req \<Longrightarrow>
     perform env req (app_classifier app) = Some (c, r) \<Longrightarrow> survives r \<Longrightarrow>
     app_runs p ampere sm env allowed app0 stream pushed (app\<lparr>app_classifier := c\<rparr>)"

text \<open>The detector of an application that has just been set up has not announced anything.\<close>

definition app_ready :: "platform \<Rightarrow> stream_meta \<Rightarrow> 'a detector \<Rightarrow> read_info \<Rightarrow> 'a smart_app \<Rightarrow> bool" where
  "app_ready p sm det ri app \<longleftrightarrow> dist_inv (smart_ok p sm) [] (app_distributor app) \<and> app_pending app = [] \<and>
     workers (app_distributor app) \<noteq> [] \<and> workers (app_distributor app) ! 0 = Detecting det \<and>
     read_infos (app_distributor app) ! 0 = ri \<and> event_detected det = []"

lemma app_ready_detector:
  assumes "app_ready p sm det ri app"
  shows "detector_ok p sm det ri" and "0 \<le> earliest ri"
proof -
  have "smart_ok p sm (Detecting det) ri" "0 \<le> earliest ri"
    using assms by (auto simp: app_ready_def dist_inv_def workers_ok_def window_def intro: order_trans dest!: spec [of _ "0 :: nat"])
  then show "detector_ok p sm det ri" "0 \<le> earliest ri" by simp_all
qed

text \<open>An event that was announced stays announced.\<close>

lemma advance_more_events:
  assumes "detector_ok p sm det ri" and "0 \<le> earliest ri" and "\<forall>x \<in> set stream. is_fin (ampere x)"
    and "advance (detector_work p ampere sm) stream det ri = Some (det', Inr ri')"
  shows "\<exists>new. event_detected det' = event_detected det @ new"
proof (rule detecting.advance_invariant [OF assms(1,2) _ assms(3) _ assms(4), where I = "\<lambda>d r. \<exists>new. event_detected d = event_detected det @ new"], goal_cases)
  case 1
  show ?case by simp
next
  case (2 d r d' r')
  show ?case
  proof (cases "detected_an_event d")
    case True
    then show ?thesis using 2(4,6) detector_work_event [OF 2(1) True 2(5)] by auto
  next
    case False
    have "\<forall>x \<in> set (Prelude.slice stream (nat (next_loc r)) (read_n r)). is_fin (ampere x)" using assms(3) set_slice by fast
    from detector_work_compare [OF 2(1) False 2(5) this] 2(4,6) show ?thesis by auto
  qed
qed


lemma detector_of:
  assumes "dist_inv (smart_ok p sm) stream d" and "workers d \<noteq> []" and "workers d ! 0 = Detecting det"
  shows "detector_ok p sm det (read_infos d ! 0)" and "0 \<le> earliest (read_infos d ! 0)"
proof -
  have "smart_ok p sm (workers d ! 0) (read_infos d ! 0)" "0 \<le> earliest (read_infos d ! 0)"
    using assms(1,2) by (auto simp: dist_inv_def workers_ok_def window_def intro: order_trans)
  then show "detector_ok p sm det (read_infos d ! 0)" "0 \<le> earliest (read_infos d ! 0)" using assms(3) by simp_all
qed

lemma advanced_detector:
  assumes "workers_advanced (smart_work p ampere sm) stream UNIV d d'" and "workers d \<noteq> []" and "workers d ! 0 = Detecting det"
    and "detector_ok p sm det (read_infos d ! 0)" and "0 \<le> earliest (read_infos d ! 0)" and "\<forall>x \<in> set stream. is_fin (ampere x)"
  shows "\<exists>det'. workers d' ! 0 = Detecting det' \<and> workers d' \<noteq> [] \<and>
    advance (detector_work p ampere sm) stream det (read_infos d ! 0) = Some (det', Inr (read_infos d' ! 0))"
proof -
  have "advance (smart_work p ampere sm) stream (Detecting det) (read_infos d ! 0) = Some (workers d' ! 0, Inr (read_infos d' ! 0))"
    using assms(1-3) by (auto simp: workers_advanced_def)
  moreover have "workers d' \<noteq> []" using assms(1,2) by (auto simp: workers_advanced_def)
  ultimately show ?thesis using smart_advance_detector [OF assms(4-6)] by auto
qed

lemma onEventDetected_simps [simp]:
  "app_distributor (onEventDetected ev app) = app_distributor app" "app_pending (onEventDetected ev app) = app_pending app"
  "app_classifier (onEventDetected ev app) = (app_classifier app)\<lparr>event_stack := event_stack (app_classifier app) @ [ev]\<rparr>"
  by (simp_all add: onEventDetected_def pushEvent_def)

lemma app_runs_result:
  assumes "app_runs p ampere sm env allowed app0 stream pushed app" and "faithful_platform p" and "app_ready p sm det ri app0"
    and "\<forall>x \<in> set stream. is_fin (ampere x)"
  shows "rounds p (smart_work p ampere sm) (app_distributor app0) stream (app_distributor app) \<and>
    workers (app_distributor app) \<noteq> [] \<and> (\<exists>det'. workers (app_distributor app) ! 0 = Detecting det') \<and>
    pushed @ app_pending app = app_events app"
  using assms(1,4)
proof (induction rule: app_runs.induct)
  case app_start
  then show ?case using assms(3) by (auto simp: app_ready_def app_events_def intro: no_round)
next
  case (app_detects stream pushed app q xs q' app' b)
  let ?d = "app_distributor app" and ?d' = "app_distributor app'"
  have fin: "\<forall>x \<in> set stream. is_fin (ampere x)" using app_detects.prems by simp
  from app_detects.IH [OF fin] obtain det' where
    IH: "rounds p (smart_work p ampere sm) (app_distributor app0) stream ?d" "workers ?d \<noteq> []" "workers ?d ! 0 = Detecting det'"
      "pushed = app_events app" using app_detects.hyps(2) by auto
  have loop: "loopWorkersOnce p (smart_work p ampere sm) q ?d = Some ((?d', q'), Inr b)"
    and pending: "app_pending app' = drop (length (app_events app)) (app_events app')"
    using app_detects.hyps(2,4) by (auto simp: app_round_def Let_def app_events_def)
  have d0: "dist_inv (smart_ok p sm) [] (app_distributor app0)" using assms(3) by (simp add: app_ready_def)
  have inv: "dist_inv (smart_ok p sm) stream ?d" using smart.rounds_advance(1) [OF assms(2) d0 IH(1) fin] .
  from smart.loopWorkersOnce_refines [OF assms(2) inv app_detects.hyps(3) app_detects.prems] loop
  have adv: "workers_advanced (smart_work p ampere sm) (stream @ xs) UNIV ?d ?d'" by auto
  note ok = detector_of [OF inv IH(2,3)]
  obtain det'' where next_det: "workers ?d' ! 0 = Detecting det''" "workers ?d' \<noteq> []"
    "advance (detector_work p ampere sm) (stream @ xs) det' (read_infos ?d ! 0) = Some (det'', Inr (read_infos ?d' ! 0))"
    using advanced_detector [OF adv IH(2,3) ok app_detects.prems] by blast
  obtain new where "event_detected det'' = event_detected det' @ new"
    using advance_more_events [OF ok app_detects.prems next_det(3)] by blast
  then have "pushed @ app_pending app' = app_events app'"
    using IH(3,4) pending next_det(1) by (simp add: app_events_def)
  moreover have "rounds p (smart_work p ampere sm) (app_distributor app0) (stream @ xs) ?d'"
    using one_more [OF IH(1) app_detects.hyps(3) loop] .
  ultimately show ?case using next_det(1,2) by blast
next
  case (app_pushes stream pushed app ev evs)
  then show ?case by (simp add: app_events_def)
next
  case (app_classifies stream pushed app req c r)
  then show ?case by (simp add: app_events_def)
qed

text \<open>What the constructor makes of a detector whose configuration is sound.\<close>

lemma SmartApp_result:
  assumes "detector_config p sm det" and "history_ok det" and "\<not> detected_an_event det" and "event_detected det = []"
    and "0 < sample_rate (meta_of sm)"
  shows "\<exists>app. SmartApp p ampere sm det m = (app, Inr ()) \<and>
    read_infos (app_distributor app) = [\<lparr>keep = nat (stored_before sm), read_n = piece sm det, next_loc = stored_before sm\<rparr>,
      \<lparr>keep = 0, read_n = sample_rate (meta_of sm), next_loc = int (sample_rate (meta_of sm))\<rparr>] \<and>
    current_global_buffer_pos (app_distributor app) = 0 \<and> app_classifier app = DataClassifier \<and>
    app_ready p sm (det\<lparr>requested_data_point_id := stored_before sm\<rparr>) (read_infos (app_distributor app) ! 0) app"
proof -
  note joins = detector_joins(1) [OF assms(1-3), of ampere 0, simplified] detector_joins(2) [OF assms(1-3), of 0, simplified]
  have sb: "0 \<le> stored_before sm" using assms(1) by (simp add: detector_config_def)
  have metric: "metric_work sm m [] 0 = (m, Inr \<lparr>keep = 0, read_n = sample_rate (meta_of sm), next_loc = int (sample_rate (meta_of sm))\<rparr>)"
    by (simp add: metric_work_def nextPeriod_def NextReadInfos_def numberOfDataPointsFetched_def)
  show ?thesis using joins(2) assms(4,5) sb
    by (auto simp: SmartApp_def addWorker_def DataStreamDistributor_def joins(1) metric Let_def app_ready_def dist_inv_def window_def
        workers_ok_def hungry_def metric_ok_def earliest_def read_end_def less_Suc_eq_0_disj numeral_2_eq_2)
qed

text \<open>The events announced so far are those the detector finds in the stream so far.\<close>

lemma events_are_detected:
  assumes "app_runs p ampere sm env allowed app0 stream pushed app" and "faithful_platform p" and "app_ready p sm det ri app0"
    and "\<forall>x \<in> set stream. is_fin (ampere x)"
  shows "\<exists>det' ri'. advance (detector_work p ampere sm) stream det ri = Some (det', Inr ri') \<and> app_events app = event_detected det'"
proof -
  note r = app_runs_result [OF assms]
  have ready: "dist_inv (smart_ok p sm) [] (app_distributor app0)" "workers (app_distributor app0) \<noteq> []"
    "workers (app_distributor app0) ! 0 = Detecting det" "read_infos (app_distributor app0) ! 0 = ri"
    using assms(3) by (simp_all add: app_ready_def)
  have "workers_advanced (smart_work p ampere sm) stream UNIV (app_distributor app0) (app_distributor app)"
    using smart.rounds_advance(2) [OF assms(2) ready(1) _ assms(4)] r by blast
  from advanced_detector [OF this ready(2,3) _ _ assms(4)] app_ready_detector [OF assms(3)] ready(4)
  show ?thesis by (auto simp: app_events_def)
qed

text \<open>The detector does not number its events, nor label them.\<close>

definition anonymous :: "'a event \<Rightarrow> bool" where
  "anonymous ev \<longleftrightarrow> event_id (event_meta ev) = None \<and> event_label (event_meta ev) = None"

lemma advance_anonymous:
  assumes "detector_ok p sm det ri" and "0 \<le> earliest ri" and "\<forall>x \<in> set stream. is_fin (ampere x)"
    and "advance (detector_work p ampere sm) stream det ri = Some (det', Inr ri')" and "event_detected det = []"
  shows "\<forall>ev \<in> set (event_detected det'). anonymous ev"
proof (rule detecting.advance_invariant [OF assms(1,2) _ assms(3) _ assms(4), where I = "\<lambda>d r. \<forall>ev \<in> set (event_detected d). anonymous ev"], goal_cases)
  case 1
  show ?case by (simp add: assms(5))
next
  case (2 d r d' r')
  show ?case
  proof (cases "detected_an_event d")
    case True
    then show ?thesis using 2(4,6) detector_work_event [OF 2(1) True 2(5)] by (auto simp: event_at_def anonymous_def)
  next
    case False
    have "\<forall>x \<in> set (Prelude.slice stream (nat (next_loc r)) (read_n r)). is_fin (ampere x)" using assms(3) set_slice by fast
    from detector_work_compare [OF 2(1) False 2(5) this] 2(4,6) show ?thesis by auto
  qed
qed

lemma pending_anonymous:
  assumes "app_runs p ampere sm env allowed app0 stream pushed app" and "faithful_platform p" and "app_ready p sm det ri app0"
    and "\<forall>x \<in> set stream. is_fin (ampere x)"
  shows "\<forall>ev \<in> set (pushed @ app_pending app). anonymous ev"
proof -
  have "event_detected det = []" using assms(3) by (simp add: app_ready_def)
  then show ?thesis
    using events_are_detected [OF assms] app_runs_result [OF assms] advance_anonymous [OF app_ready_detector [OF assms(3)] assms(4)]
    by metis
qed


lemma sample_app_round:
  "\<exists>app0 app ri. app_ready modular_platform sample_meta (sample_detector\<lparr>requested_data_point_id := 1\<rparr>) ri app0 \<and>
    app_runs modular_platform (\<lambda>x. x) sample_meta env allowed app0 (replicate 120 fl_one) [] app \<and> app_classifier app0 = DataClassifier"
proof -
  obtain app0 where app0: "read_infos (app_distributor app0) = [\<lparr>keep = 1, read_n = 5, next_loc = 1\<rparr>, \<lparr>keep = 0, read_n = 60, next_loc = 60\<rparr>]"
      "current_global_buffer_pos (app_distributor app0) = 0" "app_classifier app0 = DataClassifier"
      "app_ready modular_platform sample_meta (sample_detector\<lparr>requested_data_point_id := 1\<rparr>) (read_infos (app_distributor app0) ! 0) app0"
    using SmartApp_result [of modular_platform sample_meta sample_detector "\<lambda>x. x" "\<lparr>total_seconds_of_data_accumulated = 0, current_seconds_of_data_accumulated = 0\<rparr>"]
    by (auto simp: getFixedPowerMetaData_def sample_meta_def) (auto simp flip: sample_meta_def)
  let ?q = "new_queue\<lparr>data_queue := replicate 120 fl_one, stream_ended := True\<rparr>"
  have ready: "round_ready modular_platform [] ?q (replicate 120 fl_one) (?q\<lparr>data_queue := []\<rparr>) (app_distributor app0)"
    using app0(1,2) by (simp add: round_ready_def popDataPoints_result wanted_def read_end_def fits_def reads_within_def modular_platform_def new_queue_def)
  have inv: "dist_inv (smart_ok modular_platform sample_meta) [] (app_distributor app0)" and none: "app_pending app0 = []"
    using app0(4) by (simp_all add: app_ready_def)
  have fin: "\<forall>x \<in> set ([] @ replicate 120 fl_one). is_fin ((\<lambda>x. x) x)" by simp
  obtain d b where "loopWorkersOnce modular_platform (smart_work modular_platform (\<lambda>x. x) sample_meta) ?q (app_distributor app0)
      = Some ((d, ?q\<lparr>data_queue := []\<rparr>), Inr b)"
    using smart.loopWorkersOnce_refines [OF modular_platform_faithful inv ready fin] by blast
  then obtain app where app: "app_round modular_platform (\<lambda>x. x) sample_meta ?q app0 = Some ((app, ?q\<lparr>data_queue := []\<rparr>), Inr b)"
    by (auto simp: app_round_def Let_def)
  from app_detects [OF app_start none ready app(1)] app0(3,4) show ?thesis by auto
qed


end
