(* ===== verification/Cpp_Numbers.thy ===== *)
theory Cpp_Numbers
  imports Label_Manager
begin

text \<open>
  The conversions between numbers and texts of the C++ standard library that the command line
  uses: \<^verbatim>\<open>std::stoul\<close>, \<^verbatim>\<open>std::stoull\<close>, \<^verbatim>\<open>std::stoll\<close> and \<^verbatim>\<open>std::stod\<close>, which ignore what follows a
  number, and the printing of a \<^verbatim>\<open>double\<close> with the default six significant digits. The exceptions
  \<^verbatim>\<open>std::invalid_argument\<close> and \<^verbatim>\<open>std::out_of_range\<close> are \<open>Std_exception\<close>.

  The lemmas show that integers survive printing and reading, and labels of at most six digits.
\<close>

section \<open>Reading integers\<close>

definition leading_integer :: "string \<Rightarrow> (bool \<times> nat) option" where
  "leading_integer cs =
     (let (neg, ds) = split_sign (dropWhile isspace cs); digits = takeWhile isdigit ds
      in if digits = [] then None else Some (neg, decimal_val 0 digits))"

text \<open>A minus sign negates an unsigned result modulo \<open>2 ^ 64\<close>.\<close>

definition stoul :: "string \<Rightarrow> nat res" where
  "stoul cs =
     (case leading_integer cs of
        None \<Rightarrow> Inl Std_exception
      | Some (neg, v) \<Rightarrow> if 2 ^ 64 \<le> v then Inl Std_exception else Inr (if neg then usub 0 v else v))"

definition stoll :: "string \<Rightarrow> int res" where
  "stoll cs =
     (case leading_integer cs of
        None \<Rightarrow> Inl Std_exception
      | Some (neg, v) \<Rightarrow>
          let i = (if neg then - int v else int v)
          in if i < - (2 ^ 63) \<or> 2 ^ 63 \<le> i then Inl Std_exception else Inr i)"

section \<open>Reading floating point numbers\<close>

definition xdigit_val :: "char \<Rightarrow> nat" where
  "xdigit_val c = (let n = of_char c in if n < 58 then n - 48 else if n < 71 then n - 55 else n - 87)"

definition isxdigit :: "char \<Rightarrow> bool" where
  "isxdigit c \<longleftrightarrow> isdigit c \<or> (65 \<le> (of_char c :: nat) \<and> (of_char c :: nat) \<le> 70) \<or> (97 \<le> (of_char c :: nat) \<and> (of_char c :: nat) \<le> 102)"

fun base_val :: "nat \<Rightarrow> (char \<Rightarrow> nat) \<Rightarrow> nat \<Rightarrow> string \<Rightarrow> nat" where
  "base_val b v acc [] = acc"
| "base_val b v acc (c # cs) = base_val b v (b * acc + v c) cs"

text \<open>
  An optional exponent after its mark: the mark belongs to the number only if digits follow. The
  factor is a power of \<open>b\<close>.
\<close>

definition exponent_factor :: "string \<Rightarrow> rat \<Rightarrow> string \<Rightarrow> rat" where
  "exponent_factor marks b cs =
     (case cs of
        [] \<Rightarrow> 1
      | c # t \<Rightarrow>
          if c \<notin> set marks then 1
          else let (neg, ds) = split_sign t; digits = takeWhile isdigit ds; x = decimal_val 0 digits
               in if digits = [] then 1 else if neg then 1 / b ^ x else b ^ x)"

text \<open>Digits with at most one point; \<open>None\<close> if there is no digit. \<open>e\<close> is the base of the exponent.\<close>

definition digits_value ::
  "(char \<Rightarrow> bool) \<Rightarrow> (char \<Rightarrow> nat) \<Rightarrow> nat \<Rightarrow> string \<Rightarrow> rat \<Rightarrow> string \<Rightarrow> rat option" where
  "digits_value digit v b marks e cs =
     (let ip = takeWhile digit cs; r1 = dropWhile digit cs;
          (fp, r2) = (case r1 of c # t \<Rightarrow> (if c = CHR ''.'' then (takeWhile digit t, dropWhile digit t) else ([], r1)) | [] \<Rightarrow> ([], []));
          m = of_nat (base_val b v 0 (ip @ fp)) / of_nat b ^ length fp
      in if ip = [] \<and> fp = [] then None else Some (m * exponent_factor marks e r2))"

definition has_prefix :: "string \<Rightarrow> string \<Rightarrow> bool" where
  "has_prefix p cs \<longleftrightarrow> take (length p) cs = p"

text \<open>
  The magnitude \<^verbatim>\<open>strtod\<close> reads: an infinity, no number, a hexadecimal or a decimal one. A result
  that overflows, or is inexact and smaller than any normal number, is out of range.
\<close>

definition strtod_magnitude :: "string \<Rightarrow> rat option" where
  "strtod_magnitude cs =
     (let hex = (if has_prefix ''0x'' (map tolower cs) then digits_value isxdigit xdigit_val 16 ''pP'' 2 (drop 2 cs) else None)
      in case hex of Some m \<Rightarrow> Some m | None \<Rightarrow> digits_value isdigit digit_val 10 ''eE'' 10 cs)"

definition stod :: "string \<Rightarrow> f64 res" where
  "stod str =
     (let (neg, cs) = split_sign (dropWhile isspace str)
      in if has_prefix ''inf'' (map tolower cs) then Inr (Inf neg)
         else if has_prefix ''nan'' (map tolower cs) then Inr NaN
         else case strtod_magnitude cs of
           None \<Rightarrow> Inl Std_exception
         | Some m \<Rightarrow>
             (case fl_round binary64 neg m of
                Fin s q \<Rightarrow> if q \<noteq> m \<and> q < 1 / 2 ^ 1022 then Inl Std_exception else Inr (Fin s q)
              | _ \<Rightarrow> Inl Std_exception))"

section \<open>Printing floating point numbers\<close>

text \<open>The decimal exponent of a positive number; 400 rounds reach every \<^verbatim>\<open>double\<close>.\<close>

fun decimal_exponent :: "nat \<Rightarrow> rat \<Rightarrow> int" where
  "decimal_exponent 0 q = 0"
| "decimal_exponent (Suc fuel) q =
     (if q < 1 then decimal_exponent fuel (10 * q) - 1
      else if 10 \<le> q then decimal_exponent fuel (q / 10) + 1 else 0)"

definition significant_digits :: "rat \<Rightarrow> nat \<times> int" where
  "significant_digits q =
     (let x = decimal_exponent 400 q; d = nat (round_half_even (q * 10 powi (5 - x)))
      in if d = 10 ^ 6 then (10 ^ 5, x + 1) else (d, x))"

definition strip_zeros :: "string \<Rightarrow> string" where
  "strip_zeros cs = rev (dropWhile (\<lambda>c. c = CHR ''0'') (rev cs))"

definition with_point :: "string \<Rightarrow> string \<Rightarrow> string" where
  "with_point ip fp = (if strip_zeros fp = [] then ip else ip @ CHR ''.'' # strip_zeros fp)"

definition print_magnitude :: "rat \<Rightarrow> string" where
  "print_magnitude q =
     (if q = 0 then ''0''
      else let (d, x) = significant_digits q; ds = decimal d
           in if x < - 4 \<or> 6 \<le> x
              then with_point (take 1 ds) (drop 1 ds) @ (if x < 0 then ''e-'' else ''e+'') @
                   (let e = decimal (nat \<bar>x\<bar>) in replicate (2 - length e) (CHR ''0'') @ e)
              else if x < 0 then with_point ''0'' (replicate (nat (- x) - 1) (CHR ''0'') @ ds)
              else with_point (take (nat x + 1) ds) (drop (nat x + 1) ds))"

fun print_double :: "f64 \<Rightarrow> string" where
  "print_double NaN = ''nan''"
| "print_double (Inf s) = (if s then ''-inf'' else ''inf'')"
| "print_double (Fin s q) = (if s then CHR ''-'' # print_magnitude q else print_magnitude q)"

section \<open>Integers\<close>

lemma leading_decimal:
  assumes "\<not> isdigit (hd (rest @ '' ''))"
  shows "leading_integer (decimal n @ rest) = Some (False, n)"
proof -
  obtain c cs where d: "decimal n = c # cs" "\<not> isspace c" "c \<noteq> CHR ''-''" "c \<noteq> CHR ''+''" by (rule decimal_head)
  have "dropWhile isspace (decimal n @ rest) = decimal n @ rest" using d by simp
  moreover have "split_sign (decimal n @ rest) = (False, decimal n @ rest)" using d by simp
  moreover have "takeWhile isdigit (decimal n @ rest) = decimal n"
    using assms decimal_digits [of n] by (cases rest) (simp_all add: takeWhile_append2 list_all_iff takeWhile_eq_all_conv)
  ultimately show ?thesis by (simp add: leading_integer_def)
qed

lemma stoul_decimal: "n < 2 ^ 64 \<Longrightarrow> stoul (decimal n) = Inr n"
  using leading_decimal [of "[]" n] by (simp add: stoul_def isdigit_def)

lemma stoll_decimal: "n < 2 ^ 63 \<Longrightarrow> stoll (decimal n) = Inr (int n)"
  using leading_decimal [of "[]" n] by (simp add: stoll_def isdigit_def Let_def)

section \<open>Labels\<close>

lemma base_val_decimal: "base_val 10 digit_val acc cs = decimal_val acc cs"
  by (induction cs arbitrary: acc) simp_all

lemma decimal_length_exact: "10 ^ k \<le> n \<Longrightarrow> n < 10 ^ Suc k \<Longrightarrow> length (decimal n) = Suc k"
proof (induction k arbitrary: n)
  case 0
  then show ?case by (subst decimal.simps) simp
next
  case (Suc k)
  have "10 ^ k \<le> n div 10" "n div 10 < 10 ^ Suc k" using Suc.prems by auto
  then have "length (decimal (n div 10)) = Suc k" by (rule Suc.IH)
  moreover have "\<not> n < 10"
    using Suc.prems(1) one_le_power [of "10 :: nat" k] by (simp only: power_Suc) linarith
  ultimately show ?case by (subst decimal.simps) simp
qed

lemma digit_char_0: "digit_char 0 = CHR ''0''"
  by code_simp

lemma decimal_times_ten: "0 < n \<Longrightarrow> decimal (n * 10 ^ k) = decimal n @ replicate k (CHR ''0'')"
proof (induction k)
  case (Suc k)
  have "decimal (n * 10 ^ Suc k) = decimal (n * 10 ^ k) @ [digit_char 0]"
    using Suc.prems by (subst decimal.simps) (simp add: algebra_simps)
  then show ?case using Suc by (simp add: digit_char_0 flip: replicate_append_same)
qed simp

lemma decimal_exponent_nat: "10 ^ k \<le> q \<Longrightarrow> q < 10 ^ Suc k \<Longrightarrow> k < fuel \<Longrightarrow> decimal_exponent fuel q = int k"
proof (induction k arbitrary: fuel q)
  case 0
  then show ?case by (cases fuel) auto
next
  case (Suc k)
  then obtain f where f: "fuel = Suc f" by (cases fuel) auto
  have "decimal_exponent f (q / 10) = int k" using Suc.prems f by (intro Suc.IH) (auto simp: field_simps)
  moreover have "10 \<le> q"
    using Suc.prems(1) one_le_power [of "10 :: rat" k] by (simp only: power_Suc) linarith
  ultimately show ?case using f by simp
qed

lemma print_small_nat:
  assumes "n < 10 ^ 6"
  shows "print_double (Fin False (of_nat n)) = decimal n"
proof (cases "n = 0")
  case True
  then show ?thesis by (subst decimal.simps) (simp add: print_magnitude_def digit_char_0)
next
  case False
  obtain k where k: "10 ^ k \<le> n" "n < 10 ^ Suc k"
    using ex_power_ivl1 [of 10 n] False by auto
  have "k < 6" using k(1) assms by (meson le_less_trans nat_power_less_imp_less zero_less_numeral)
  have "rat_of_nat (10 ^ k) \<le> of_nat n" "of_nat n < rat_of_nat (10 ^ Suc k)"
    using k by (simp_all only: of_nat_le_iff of_nat_less_iff)
  then have "(10 :: rat) ^ k \<le> of_nat n" "of_nat n < (10 :: rat) ^ Suc k"
    by (simp_all only: of_nat_power of_nat_numeral)
  then have x: "decimal_exponent 400 (of_nat n) = int k" using \<open>k < 6\<close> by (intro decimal_exponent_nat) auto
  have "5 - int k = int (5 - k)" using \<open>k < 6\<close> by simp
  then have "(of_nat n :: rat) * 10 powi (5 - int k) = of_int (int (n * 10 ^ (5 - k)))"
    by (simp only: power_int_of_nat) simp
  then have d: "nat (round_half_even (of_nat n * 10 powi (5 - int k))) = n * 10 ^ (5 - k)"
    by (simp only: round_half_even_of_int nat_int)
  have "n * 10 ^ (5 - k) < 10 ^ Suc k * 10 ^ (5 - k)" using k(2) by (intro mult_strict_right_mono) auto
  also have "\<dots> = 10 ^ 6" using \<open>k < 6\<close> by (simp flip: power_add)
  finally have "significant_digits (of_nat n) = (n * 10 ^ (5 - k), int k)"
    by (simp add: significant_digits_def x d Let_def)
  moreover have "decimal (n * 10 ^ (5 - k)) = decimal n @ replicate (5 - k) (CHR ''0'')"
    using False by (intro decimal_times_ten) simp
  moreover have "length (decimal n) = k + 1" using decimal_length_exact [OF k] by simp
  moreover have "strip_zeros (replicate j (CHR ''0'')) = []" for j
    by (simp add: strip_zeros_def)
  ultimately show ?thesis using \<open>k < 6\<close> False
    by (simp add: print_magnitude_def with_point_def nat_add_distrib)
qed

text \<open>Printing a whole number of at most six digits and reading it again gives it back.\<close>

lemma stod_decimal:
  assumes "n < 10 ^ 6"
  shows "stod (decimal n) = Inr (Fin False (of_nat n))"
proof -
  obtain c cs where d: "decimal n = c # cs" "isdigit c" "\<not> isspace c" "c \<noteq> CHR ''-''" "c \<noteq> CHR ''+''" by (rule decimal_head)
  have sp: "split_sign (dropWhile isspace (decimal n)) = (False, decimal n)" using d by simp
  have t: "tolower c = c" using d(2) by (simp add: tolower_def isdigit_def)
  have ne: "c \<noteq> CHR ''i''" "c \<noteq> CHR ''n''" using d(2) by (auto simp: isdigit_def)
  have "\<not> has_prefix ''inf'' (map tolower (decimal n))" "\<not> has_prefix ''nan'' (map tolower (decimal n))"
    using d(1) t ne by (auto simp: has_prefix_def)
  moreover have "\<not> has_prefix ''0x'' (map tolower (decimal n))"
  proof (cases cs)
    case (Cons b bs)
    then have "isdigit b" using decimal_digits [of n] d(1) by simp
    then have "tolower b \<noteq> CHR ''x''" by (auto simp: tolower_def isdigit_def)
    then show ?thesis using d(1) Cons by (simp add: has_prefix_def)
  qed (simp add: d(1) has_prefix_def)
  moreover have "digits_value isdigit digit_val 10 ''eE'' 10 (decimal n) = Some (of_nat n)"
    using decimal_digits [of n] d(1) decimal_val_decimal [of n]
    by (simp del: decimal_val_decimal add: digits_value_def base_val_decimal Let_def exponent_factor_def takeWhile_eq_all_conv [THEN iffD2] dropWhile_eq_Nil_conv [THEN iffD2])
  moreover have "n < 2 ^ 53" using assms by simp
  ultimately show ?thesis
    using fl_round_id [OF representable_nat [of n]] by (simp add: stod_def sp strtod_magnitude_def)
qed

end
