(* ===== verification/Command_Line.thy ===== *)
theory Command_Line
  imports Cpp_Numbers
begin

text \<open>
  The command line client (\<^verbatim>\<open>nofare_app/src/client/main.cpp\<close>) and the commands it shares with the
  server (\<^verbatim>\<open>nofare_app/src/common\<close>): the three kinds of message, how they are written and read, and
  what each call of the client does with its arguments. The message queue of the operating system,
  through which \<^verbatim>\<open>boost\<close> sends the messages, is a parameter: \<open>sends q bytes\<close> is the queue
  afterwards, an exception, or \<open>None\<close> if the call waits for room. What the program relies on is
  \<open>faithful_message_queue\<close>: messages that fit are received in the order they were sent.

  The lemmas show which text belongs to which command; the locale \<open>command_format\<close> states what client
  and server agree on, and that a command that was sent arrives.
\<close>

section \<open>Commands\<close>

record AddLabelCommand =
  command_event_id :: nat
  command_label :: f64

definition addLabelPrefix :: string where
  "addLabelPrefix = ''add-label:''"

definition isAddLabelCommand :: "string \<Rightarrow> bool" where
  "isAddLabelCommand str \<longleftrightarrow> take (length addLabelPrefix) str = addLabelPrefix"

definition serialize_AddLabel :: "AddLabelCommand \<Rightarrow> string" where
  "serialize_AddLabel c = addLabelPrefix @ decimal (command_event_id c) @ '','' @ print_double (command_label c)"

definition deserialize_AddLabel :: "string \<Rightarrow> AddLabelCommand res" where
  "deserialize_AddLabel str =
     (if \<not> isAddLabelCommand str then Inl Assert_failed
      else let values = drop (length addLabelPrefix) str
        in case find_index (\<lambda>c. c = CHR '','') values of
             None \<Rightarrow> Inl (Int_thrown (- 1))
           | Some comma_pos \<Rightarrow>
               if comma_pos = length values - 1 then Inl (Int_thrown (- 1))
               else res_bind (stoul (take comma_pos values)) (\<lambda>eid.
                    res_map (\<lambda>l. \<lparr>command_event_id = eid, command_label = l\<rparr>) (stod (drop (comma_pos + 1) values))))"

record ReclassifyCommand =
  reclassify_event_id :: nat

definition reclassifyPrefix :: string where
  "reclassifyPrefix = ''reclassify:''"

definition isReclassifyCommand :: "string \<Rightarrow> bool" where
  "isReclassifyCommand str \<longleftrightarrow> take (length reclassifyPrefix) str = reclassifyPrefix"

definition serialize_Reclassify :: "ReclassifyCommand \<Rightarrow> string" where
  "serialize_Reclassify c = reclassifyPrefix @ decimal (reclassify_event_id c)"

definition deserialize_Reclassify :: "string \<Rightarrow> ReclassifyCommand res" where
  "deserialize_Reclassify str =
     (if \<not> isReclassifyCommand str then Inl Assert_failed
      else res_map (\<lambda>eid. \<lparr>reclassify_event_id = eid\<rparr>) (stoul (drop (length reclassifyPrefix) str)))"

definition shutdownPrefix :: string where
  "shutdownPrefix = ''shutdown:''"

definition isShutDownCommand :: "string \<Rightarrow> bool" where
  "isShutDownCommand str \<longleftrightarrow> take (length shutdownPrefix) str = shutdownPrefix"

definition serialize_Shutdown :: string where
  "serialize_Shutdown = shutdownPrefix"

section \<open>The message queue\<close>

definition MAX_MESSAGE_NUMBER :: nat where
  "MAX_MESSAGE_NUMBER = 100"

definition MAX_MESSAGE_SIZE :: nat where
  "MAX_MESSAGE_SIZE = 200"

record 'q message_queue =
  sends :: "'q \<Rightarrow> string \<Rightarrow> ('q res) option"
  receives :: "'q \<Rightarrow> (string \<times> 'q) option"

text \<open>
  A queue that holds at most \<open>MAX_MESSAGE_NUMBER\<close> messages of at most \<open>MAX_MESSAGE_SIZE\<close> bytes:
  \<open>waiting\<close> is the list of the messages that wait in it.
\<close>

definition faithful_message_queue :: "('q \<Rightarrow> string list) \<Rightarrow> 'q message_queue \<Rightarrow> bool" where
  "faithful_message_queue waiting mq \<longleftrightarrow>
     (\<forall>q msg. length msg \<le> MAX_MESSAGE_SIZE \<longrightarrow> length (waiting q) < MAX_MESSAGE_NUMBER \<longrightarrow>
        (\<exists>q'. sends mq q msg = Some (Inr q') \<and> waiting q' = waiting q @ [msg])) \<and>
     (\<forall>q msg msgs. waiting q = msg # msgs \<longrightarrow> (\<exists>q'. receives mq q = Some (msg, q') \<and> waiting q' = msgs))"

text \<open>
  \<open>queue.send(message.c_str(), n, 1)\<close>: the characters of the string and the zero that ends it may
  be read, what lies behind them may not.
\<close>

definition send_string :: "'q message_queue \<Rightarrow> 'q \<Rightarrow> string \<Rightarrow> nat \<Rightarrow> ('q res) option" where
  "send_string mq q message n =
     (if length message + 1 < n then Some (Inl Undefined) else sends mq q (take n (message @ [CHR 0x00])))"

section \<open>The client\<close>

text \<open>The exit code and the queue afterwards. \<open>argv\<close> begins with the name of the program.\<close>

type_synonym 'q command_outcome = "('q \<times> int) res option"

definition exits :: "int \<Rightarrow> 'q res option \<Rightarrow> 'q command_outcome" where
  "exits code = map_option (res_map (\<lambda>q. (q, code)))"

definition client_addLabel :: "'q message_queue \<Rightarrow> 'q \<Rightarrow> string list \<Rightarrow> 'q command_outcome" where
  "client_addLabel mq q argv =
     (if length argv < 4 then Some (Inr (q, - 1))
      else case res_bind (stoll (argv ! 2)) (\<lambda>i.
                res_map (\<lambda>l. serialize_AddLabel \<lparr>command_event_id = to_unsigned i, command_label = l\<rparr>) (stod (argv ! 3))) of
             Inl e \<Rightarrow> Some (Inl e)
           | Inr message \<Rightarrow>
               if MAX_MESSAGE_SIZE < length message then Some (Inr (q, - 1))
               else exits 0 (send_string mq q message (length message)))"

definition client_shutdownCommand :: "'q message_queue \<Rightarrow> 'q \<Rightarrow> string list \<Rightarrow> 'q command_outcome" where
  "client_shutdownCommand mq q argv = exits 0 (send_string mq q serialize_Shutdown MAX_MESSAGE_SIZE)"

definition client_reclassifyCommand :: "'q message_queue \<Rightarrow> 'q \<Rightarrow> string list \<Rightarrow> 'q command_outcome" where
  "client_reclassifyCommand mq q argv =
     (if length argv < 3 then Some (Inr (q, - 1))
      else case res_map (\<lambda>i. serialize_Reclassify \<lparr>reclassify_event_id = i\<rparr>) (stoul (argv ! 2)) of
             Inl e \<Rightarrow> Some (Inl e)
           | Inr message \<Rightarrow>
               if MAX_MESSAGE_SIZE < length message then Some (Inr (q, - 1))
               else exits 0 (send_string mq q message (length message)))"

text \<open>\<open>opened\<close> is the queue, if it exists: opening it throws otherwise. All exceptions are caught.\<close>

definition client_main :: "'q message_queue \<Rightarrow> 'q option \<Rightarrow> string list \<Rightarrow> ('q option \<times> int) res option" where
  "client_main mq opened argv =
     (if length argv < 2 then Some (Inr (opened, - 1))
      else case opened of
             None \<Rightarrow> Some (Inr (None, - 2))
           | Some q \<Rightarrow>
               map_option (\<lambda>r. case r of
                   Inl e \<Rightarrow> if e \<in> {Assert_failed, Undefined} then Inl e else Inr (Some q, - 2)
                 | Inr (q', code) \<Rightarrow> Inr (Some q', code))
               (if argv ! 1 = ''add-label'' then client_addLabel mq q argv
                else if argv ! 1 = ''shutdown'' then client_shutdownCommand mq q argv
                else if argv ! 1 = ''reclassify'' then client_reclassifyCommand mq q argv
                else Some (Inr (q, - 1))))"

section \<open>Reading commands back\<close>

lemma isAddLabelCommand_serialize [simp]: "isAddLabelCommand (serialize_AddLabel c)"
  by (simp add: isAddLabelCommand_def serialize_AddLabel_def addLabelPrefix_def)

lemma kinds_exclude:
  "isAddLabelCommand str \<Longrightarrow> \<not> isReclassifyCommand str \<and> \<not> isShutDownCommand str"
  "isReclassifyCommand str \<Longrightarrow> \<not> isAddLabelCommand str \<and> \<not> isShutDownCommand str"
  by (cases str; simp add: isAddLabelCommand_def isReclassifyCommand_def isShutDownCommand_def
      addLabelPrefix_def reclassifyPrefix_def shutdownPrefix_def)+

lemma serialized_reclassify [simp]:
  "isReclassifyCommand (serialize_Reclassify c)" "\<not> isAddLabelCommand (serialize_Reclassify c)"
  by (simp_all add: isAddLabelCommand_def isReclassifyCommand_def serialize_Reclassify_def
      addLabelPrefix_def reclassifyPrefix_def)

lemma serialized_shutdown [simp]:
  "isShutDownCommand (serialize_Shutdown @ rest)" "\<not> isAddLabelCommand (serialize_Shutdown @ rest)" "\<not> isReclassifyCommand (serialize_Shutdown @ rest)"
  by (simp_all add: isAddLabelCommand_def isReclassifyCommand_def isShutDownCommand_def serialize_Shutdown_def
      addLabelPrefix_def reclassifyPrefix_def shutdownPrefix_def)

lemma find_index_append: "\<forall>x \<in> set xs. \<not> P x \<Longrightarrow> P y \<Longrightarrow> find_index P (xs @ y # ys) = Some (length xs)"
  by (induction xs) auto

lemma find_comma: "find_index (\<lambda>c. c = CHR '','') (decimal n @ CHR '','' # rest) = Some (length (decimal n))"
proof -
  have "\<forall>c \<in> set (decimal n). c \<noteq> CHR '',''" using decimal_digits [of n] by (auto simp: isdigit_def)
  then show ?thesis by (intro find_index_append) auto
qed

lemma reads_back_AddLabel:
  assumes "i < 2 ^ 64" and "n < 10 ^ 6"
  shows "deserialize_AddLabel (serialize_AddLabel \<lparr>command_event_id = i, command_label = Fin False (of_nat n)\<rparr>)
    = Inr \<lparr>command_event_id = i, command_label = Fin False (of_nat n)\<rparr>"
proof -
  obtain c cs where d: "decimal n = c # cs" by (rule decimal_head)
  have operands: "drop (length addLabelPrefix) (serialize_AddLabel \<lparr>command_event_id = i, command_label = Fin False (of_nat n)\<rparr>)
      = decimal i @ CHR '','' # decimal n"
    using print_small_nat [OF assms(2)] by (simp add: serialize_AddLabel_def)
  show ?thesis
    using find_comma [of i "decimal n"] stoul_decimal [OF assms(1)] stod_decimal [OF assms(2)]
    by (simp add: deserialize_AddLabel_def operands d)
qed

lemma reads_back_Reclassify: "i < 2 ^ 64 \<Longrightarrow> deserialize_Reclassify (serialize_Reclassify \<lparr>reclassify_event_id = i\<rparr>) = Inr \<lparr>reclassify_event_id = i\<rparr>"
  by (simp add: deserialize_Reclassify_def) (simp add: serialize_Reclassify_def stoul_decimal)

text \<open>Only six significant digits of a label are written.\<close>

lemma digit_chars:
  "digit_char 1 = CHR ''1''" "digit_char 2 = CHR ''2''" "digit_char 3 = CHR ''3''" "digit_char 4 = CHR ''4''"
  "digit_char 5 = CHR ''5''" "digit_char 6 = CHR ''6''" "digit_char 7 = CHR ''7''" "digit_char (Suc 0) = CHR ''1''"
  by code_simp+

lemma long_label_changes:
  "serialize_AddLabel \<lparr>command_event_id = 1, command_label = Fin False 1234567\<rparr> = ''add-label:1,1.23457e+06''"
proof -
  have x: "decimal_exponent 400 1234567 = 6" using decimal_exponent_nat [of 6 1234567 400] by simp
  have "\<lfloor>(1234567 / 10 :: rat)\<rfloor> = 123456" by (simp add: floor_eq_iff)
  then have "round_half_even (1234567 / 10) = 123457" by (simp add: round_half_even_def)
  moreover have "(1234567 :: rat) * 10 powi (5 - 6) = 1234567 / 10" by (simp add: power_int_def)
  ultimately have "nat (round_half_even (1234567 * 10 powi (5 - 6))) = 123457" by simp
  then have "significant_digits 1234567 = (123457, 6)"
    unfolding significant_digits_def x Let_def by simp
  moreover have "decimal 123457 = ''123457''" "decimal 6 = ''6''" "decimal 1 = ''1''"
    by (simp_all add: decimal.simps digit_chars)
  ultimately show ?thesis
    by (simp add: serialize_AddLabel_def addLabelPrefix_def print_magnitude_def with_point_def strip_zeros_def)
qed

lemma shutdown_reads_too_far: "client_main mq (Some q) (p # ''shutdown'' # rest) = Some (Inl Undefined)"
  by (simp add: client_main_def client_shutdownCommand_def send_string_def serialize_Shutdown_def shutdownPrefix_def
      MAX_MESSAGE_SIZE_def exits_def)

lemma decimal_short: "n < 10 ^ Suc k \<Longrightarrow> length (decimal n) \<le> Suc k"
proof (induction k arbitrary: n)
  case 0
  then show ?case by (subst decimal.simps) simp
next
  case (Suc k)
  have "n div 10 < 10 ^ Suc k" using Suc.prems by auto
  then have "length (decimal (n div 10)) \<le> Suc k" by (rule Suc.IH)
  then show ?case by (subst decimal.simps) simp
qed

section \<open>What client and server agree on\<close>

text \<open>
  A kind of command: its texts are recognised, and those of a valid command are read back. Under this
  contract a message that fits is received as the command that was sent.
\<close>

locale command_format =
  fixes is_command :: "string \<Rightarrow> bool"
    and write_command :: "'c \<Rightarrow> string"
    and read_command :: "string \<Rightarrow> 'c res"
    and valid_command :: "'c \<Rightarrow> bool"
  assumes recognised: "is_command (write_command c)"
    and reads_back: "valid_command c \<Longrightarrow> read_command (write_command c) = Inr c"
    and fits: "valid_command c \<Longrightarrow> length (write_command c) \<le> MAX_MESSAGE_SIZE"
begin

lemma command_arrives:
  assumes "faithful_message_queue waiting mq" and "length (waiting q) < MAX_MESSAGE_NUMBER" and "valid_command c"
  shows "\<exists>q'. send_string mq q (write_command c) (length (write_command c)) = Some (Inr q') \<and>
    waiting q' = waiting q @ [write_command c]"
  using assms fits [OF assms(3)] by (simp add: faithful_message_queue_def send_string_def)

lemma command_inject: "valid_command c \<Longrightarrow> valid_command c' \<Longrightarrow> write_command c = write_command c' \<longleftrightarrow> c = c'"
  using reads_back by (metis sum.inject(2))

end

text \<open>Labels of at most six digits are written exactly.\<close>

definition valid_AddLabel :: "AddLabelCommand \<Rightarrow> bool" where
  "valid_AddLabel c \<longleftrightarrow> command_event_id c < 2 ^ 64 \<and> (\<exists>n < 10 ^ 6. command_label c = Fin False (of_nat n))"

definition valid_Reclassify :: "ReclassifyCommand \<Rightarrow> bool" where
  "valid_Reclassify c \<longleftrightarrow> reclassify_event_id c < 2 ^ 64"

interpretation add_label_format: command_format isAddLabelCommand serialize_AddLabel deserialize_AddLabel valid_AddLabel
proof (unfold_locales, goal_cases)
  case (1 c)
  show ?case by simp
next
  case (2 c)
  then obtain n where n: "n < 10 ^ 6" "c = \<lparr>command_event_id = command_event_id c, command_label = Fin False (of_nat n)\<rparr>"
    by (auto simp: valid_AddLabel_def)
  then show ?case using 2 reads_back_AddLabel [of "command_event_id c" n] by (simp add: valid_AddLabel_def)
next
  case (3 c)
  then obtain n where n: "n < 10 ^ 6" "command_label c = Fin False (of_nat n)" by (auto simp: valid_AddLabel_def)
  have "length (decimal (command_event_id c)) \<le> Suc 19" "length (decimal n) \<le> Suc 5"
    using n(1) 3 by (intro decimal_short; simp add: valid_AddLabel_def)+
  then show ?case using print_small_nat [OF n(1)] n(2)
    by (simp add: serialize_AddLabel_def addLabelPrefix_def MAX_MESSAGE_SIZE_def)
qed

interpretation reclassify_format: command_format isReclassifyCommand serialize_Reclassify deserialize_Reclassify valid_Reclassify
proof (unfold_locales, goal_cases)
  case (1 c)
  show ?case by simp
next
  case (2 c)
  then show ?case by (cases c) (simp add: valid_Reclassify_def reads_back_Reclassify)
next
  case (3 c)
  then have "length (decimal (reclassify_event_id c)) \<le> Suc 19" by (intro decimal_short) (simp add: valid_Reclassify_def)
  then show ?case by (simp add: serialize_Reclassify_def reclassifyPrefix_def MAX_MESSAGE_SIZE_def)
qed

section \<open>What the client sends\<close>

lemma client_sends_label:
  assumes "faithful_message_queue waiting mq" and "length (waiting q) < MAX_MESSAGE_NUMBER" and "i < 2 ^ 63" and "n < 10 ^ 6"
  shows "\<exists>q'. client_main mq (Some q) [prog, ''add-label'', decimal i, decimal n] = Some (Inr (Some q', 0)) \<and>
    waiting q' = waiting q @ [serialize_AddLabel \<lparr>command_event_id = i, command_label = Fin False (of_nat n)\<rparr>]"
proof -
  let ?c = "\<lparr>command_event_id = i, command_label = Fin False (of_nat n)\<rparr>"
  have valid: "valid_AddLabel ?c" using assms(3,4) by (auto simp: valid_AddLabel_def)
  have "to_unsigned (int i) = i" using assms(3) by (simp add: to_unsigned_def nat_mod_as_int flip: of_nat_mod)
  then show ?thesis
    using add_label_format.command_arrives [OF assms(1,2) valid] add_label_format.fits [OF valid] stoll_decimal [OF assms(3)] stod_decimal [OF assms(4)]
    by (auto simp: client_main_def client_addLabel_def exits_def)
qed

lemma client_sends_reclassify:
  assumes "faithful_message_queue waiting mq" and "length (waiting q) < MAX_MESSAGE_NUMBER" and "i < 2 ^ 64"
  shows "\<exists>q'. client_main mq (Some q) [prog, ''reclassify'', decimal i] = Some (Inr (Some q', 0)) \<and>
    waiting q' = waiting q @ [serialize_Reclassify \<lparr>reclassify_event_id = i\<rparr>]"
proof -
  have valid: "valid_Reclassify \<lparr>reclassify_event_id = i\<rparr>" using assms(3) by (simp add: valid_Reclassify_def)
  show ?thesis
    using reclassify_format.command_arrives [OF assms(1,2) valid] reclassify_format.fits [OF valid] stoul_decimal [OF assms(3)]
    by (auto simp: client_main_def client_reclassifyCommand_def exits_def)
qed

end
