(* ===== verification/Nofare_Server.thy ===== *)
theory Nofare_Server
  imports Command_Line Smart_App
begin

text \<open>
  The server (\<^verbatim>\<open>nofare_app/src/server\<close>): the set-up of its message queue, the thread that receives
  the commands, the main loop, the handler of classified events, and the storing and loading of the
  label manager. An exception that leaves a thread's function ends the program, like a failed
  assertion. The archive format is \<^verbatim>\<open>boost\<close>'s: what is stored is a type parameter.

  The lemmas show that the commands are requests to the classifier, that the command of a client does
  what it says, and what the commands can do to an application whose events come from its detector.
\<close>

section \<open>Starting\<close>

text \<open>\<open>cin >> answer\<close>: a word, or nothing at the end of the input.\<close>

definition askUserForQueueReset :: "string \<Rightarrow> bool \<times> string" where
  "askUserForQueueReset input =
     (let rest = dropWhile isspace input
      in (map tolower (takeWhile (\<lambda>c. \<not> isspace c) rest) = ''yes'', dropWhile (\<lambda>c. \<not> isspace c) rest))"

text \<open>
  \<open>creates n\<close>: whether the \<open>n\<close>th attempt to create the queue succeeds. The other result is what is
  left of the input.
\<close>

function setupMessageQueue :: "(nat \<Rightarrow> bool) \<Rightarrow> nat \<Rightarrow> string \<Rightarrow> bool \<times> string" where
  "setupMessageQueue creates n input =
     (if creates n then (True, input)
      else case askUserForQueueReset input of
             (True, rest) \<Rightarrow> setupMessageQueue creates (n + 1) rest
           | (False, rest) \<Rightarrow> (False, rest))"
  by pat_completeness auto

lemma yes_is_consumed: "askUserForQueueReset input = (True, rest) \<Longrightarrow> length rest < length input"
proof -
  assume a: "askUserForQueueReset input = (True, rest)"
  let ?cs = "dropWhile isspace input"
  have yes: "map tolower (takeWhile (\<lambda>c. \<not> isspace c) ?cs) = ''yes''" and rest: "rest = dropWhile (\<lambda>c. \<not> isspace c) ?cs"
    using a by (auto simp: askUserForQueueReset_def Let_def)
  have "length (takeWhile (\<lambda>c. \<not> isspace c) ?cs) = 3" using arg_cong [OF yes, of length] by simp
  moreover have "length ?cs = length (takeWhile (\<lambda>c. \<not> isspace c) ?cs) + length rest"
    unfolding rest by (metis length_append takeWhile_dropWhile_id)
  ultimately show ?thesis using length_dropWhile_le [of isspace input] by linarith
qed

termination setupMessageQueue
  by (relation "measure (\<lambda>(creates, n, input). length input)") (simp_all add: yes_is_consumed)

declare setupMessageQueue.simps [simp del]

section \<open>Events and stored models\<close>

text \<open>The handler prints the label, which must be there.\<close>

definition onEventClassified :: "event_features \<Rightarrow> unit res" where
  "onEventClassified ev_features =
     (case event_label (event_meta_data ev_features) of None \<Rightarrow> Inl Undefined | Some l \<Rightarrow> Inr ())"

record 't archive_format =
  archive_text :: "label_manager \<Rightarrow> 't"
  parsed_archive :: "'t \<Rightarrow> label_manager option"

type_synonym 't files = "string \<Rightarrow> 't option"

definition OLD_SERIALIZED_PATH :: string where
  "OLD_SERIALIZED_PATH = ''model.archive.backup''"

definition NEW_SERIALIZED_PATH :: string where
  "NEW_SERIALIZED_PATH = ''model.archive''"

text \<open>A round of the storing thread: the backup is written and then takes the place of the model.\<close>

definition storeModel_round :: "'t archive_format \<Rightarrow> string \<Rightarrow> string \<Rightarrow> 'a data_classifier \<Rightarrow> 't files \<Rightarrow> 't files" where
  "storeModel_round ar old_path new_path stored fs =
     (let fs = fs(old_path \<mapsto> archive_text ar (event_label_manager stored));
          fs = fs(new_path := None)
      in fs(new_path := fs old_path, old_path := None))"

text \<open>All exceptions are caught, also those of rebuilding the matrix.\<close>

definition loadOldModel :: "'t archive_format \<Rightarrow> 't files \<Rightarrow> ('a, unit) operation" where
  "loadOldModel ar fs s =
     (case Option.bind (fs NEW_SERIALIZED_PATH) (parsed_archive ar) of
        None \<Rightarrow> Some (s, Inr ())
      | Some mgr \<Rightarrow>
          map_option (\<lambda>(s', r). (s', case r of Inl e \<Rightarrow> if is_exception e then Inr () else Inl e | Inr _ \<Rightarrow> Inr ()))
            (setEventLabelManager mgr s))"

section \<open>The message loop\<close>

text \<open>A message that has been received; the result is whether the thread returns.\<close>

definition handle_message :: "string \<Rightarrow> ('a, bool) operation" where
  "handle_message commandStr =
     (if isAddLabelCommand commandStr
      then op_bind (op_lift (\<lambda>_. deserialize_AddLabel commandStr)) (\<lambda>commandData.
           op_bind (addLabelById (command_event_id commandData) (command_label commandData)) (\<lambda>found. op_return False))
      else if isReclassifyCommand commandStr
      then op_bind (op_lift (\<lambda>_. deserialize_Reclassify commandStr)) (\<lambda>commandData.
           op_bind (reclassify (reclassify_event_id commandData)) (\<lambda>_. op_return False))
      else op_return (isShutDownCommand commandStr))"

record 'a server =
  server_app :: "'a smart_app"
  shutdown_nofare_app :: bool
  loop_returned :: bool

definition messageLoop_round :: "'q message_queue \<Rightarrow> 'q \<Rightarrow> 'a server \<Rightarrow> (('a server \<times> 'q) \<times> unit res) option" where
  "messageLoop_round mq q sv =
     (if loop_returned sv then None
      else Option.bind (receives mq q) (\<lambda>(commandStr, q').
        map_option (\<lambda>(c, r).
            let sv = sv\<lparr>server_app := (server_app sv)\<lparr>app_classifier := c\<rparr>\<rparr>
            in case r of
                 Inl e \<Rightarrow> ((sv, q'), Inl (if e = Undefined then Undefined else Assert_failed))
               | Inr stop \<Rightarrow> ((if stop then sv\<lparr>shutdown_nofare_app := True, loop_returned := True\<rparr> else sv, q'), Inr ()))
          (handle_message commandStr (app_classifier (server_app sv)))))"

text \<open>A round of the main loop; the result is whether there is another.\<close>

definition run_loop_round ::
  "platform \<Rightarrow> ('a \<Rightarrow> f32) \<Rightarrow> stream_meta \<Rightarrow> 'a async_queue \<Rightarrow> 'a server \<Rightarrow> (('a server \<times> 'a async_queue) \<times> bool res) option" where
  "run_loop_round p ampere sm q sv =
     (if shutdown_nofare_app sv then Some ((sv, q), Inr False)
      else map_option (\<lambda>((app, q'), r).
          ((sv\<lparr>server_app := app\<rparr>, q'),
           case r of Inl e \<Rightarrow> if is_exception e then Inr True else Inl e | Inr b \<Rightarrow> Inr b))
        (app_round p ampere sm q (server_app sv)))"

section \<open>Commands are requests\<close>

text \<open>The requests a server passes to its classifier.\<close>

fun server_request :: "'a request \<Rightarrow> bool" where
  "server_request (Add_label_by_id eid l) = True"
| "server_request (Reclassify eid) = True"
| "server_request (Start config) = (config = ClassificationConfig)"
| "server_request Stop = True"
| "server_request Join = True"
| "server_request Run_round = True"
| "server_request req = False"

lemma op_bind_map: "op_bind m (\<lambda>_. op_return c) s = map_option (\<lambda>(s', r). (s', res_map (\<lambda>_. c) r)) (m s)"
  by (auto simp: op_bind_def res_map_def split: option.splits sum.splits)

lemma handle_message_performs:
  assumes "handle_message str s = Some (s', r)"
  shows "s' = s \<or> (\<exists>req r'. server_request req \<and> perform env req s = Some (s', r') \<and> (case r of Inl e \<Rightarrow> r' = Inl e | Inr b \<Rightarrow> r' = Inr ()))"
proof -
  consider (add) "isAddLabelCommand str" | (re) "\<not> isAddLabelCommand str" "isReclassifyCommand str"
    | (other) "\<not> isAddLabelCommand str" "\<not> isReclassifyCommand str" by blast
  then show ?thesis
  proof cases
    case add
    show ?thesis
    proof (cases "deserialize_AddLabel str")
      case (Inl e)
      then show ?thesis using add assms by (simp add: handle_message_def)
    next
      case (Inr c)
      then have "map_option (\<lambda>(s', r). (s', res_map (\<lambda>_. False) r)) (addLabelById (command_event_id c) (command_label c) s) = Some (s', r)"
        using add assms by (simp add: handle_message_def op_bind_map)
      then have "perform env (Add_label_by_id (command_event_id c) (command_label c)) s = Some (s', res_map (\<lambda>_. ()) r)"
        by (auto simp: op_bind_map res_map_def split: sum.splits)
      then show ?thesis
        by (intro disjI2 exI [of _ "Add_label_by_id (command_event_id c) (command_label c)"] exI [of _ "res_map (\<lambda>_. ()) r"])
          (auto simp: res_map_def split: sum.splits)
    qed
  next
    case re
    show ?thesis
    proof (cases "deserialize_Reclassify str")
      case (Inl e)
      then show ?thesis using re assms by (simp add: handle_message_def)
    next
      case (Inr c)
      then have "map_option (\<lambda>(s', r). (s', res_map (\<lambda>_. False) r)) (reclassify (reclassify_event_id c) s) = Some (s', r)"
        using re assms by (simp add: handle_message_def op_bind_map)
      then obtain r0 where "reclassify (reclassify_event_id c) s = Some (s', r0)" "r = res_map (\<lambda>_. False) r0" by auto
      then have "perform env (Reclassify (reclassify_event_id c)) s = Some (s', res_map (\<lambda>_. ()) r)"
        by (cases r0) simp_all
      then show ?thesis
        by (intro disjI2 exI [of _ "Reclassify (reclassify_event_id c)"] exI [of _ "res_map (\<lambda>_. ()) r"])
          (auto simp: res_map_def split: sum.splits)
    qed
  next
    case other
    then show ?thesis using assms by (simp add: handle_message_def)
  qed
qed

lemma handle_label:
  assumes "i < 2 ^ 64" and "n < 10 ^ 6"
  shows "handle_message (serialize_AddLabel \<lparr>command_event_id = i, command_label = Fin False (of_nat n)\<rparr>) s
    = map_option (\<lambda>(s', r). (s', res_map (\<lambda>_. False) r)) (addLabelById i (Fin False (of_nat n)) s)"
  by (simp add: handle_message_def reads_back_AddLabel [OF assms] op_bind_map)

lemma handle_reclassify:
  assumes "i < 2 ^ 64"
  shows "handle_message (serialize_Reclassify \<lparr>reclassify_event_id = i\<rparr>) s
    = map_option (\<lambda>(s', r). (s', res_map (\<lambda>_. False) r)) (reclassify i s)"
  by (simp add: handle_message_def reads_back_Reclassify [OF assms] op_bind_map)

section \<open>Storing and loading\<close>

lemma stored_is_loaded:
  assumes "\<And>lm. parsed_archive ar (archive_text ar lm) = Some lm"
  shows "loadOldModel ar (storeModel_round ar OLD_SERIALIZED_PATH NEW_SERIALIZED_PATH stored fs) s =
    map_option (\<lambda>(s', r). (s', case r of Inl e \<Rightarrow> if is_exception e then Inr () else Inl e | Inr _ \<Rightarrow> Inr ()))
      (setEventLabelManager (event_label_manager stored) s)"
  by (simp add: loadOldModel_def storeModel_round_def OLD_SERIALIZED_PATH_def NEW_SERIALIZED_PATH_def assms)

section \<open>What commands can do\<close>

text \<open>
  Nothing is labelled and no event can be found by a number; nothing but unlabelled events has been
  classified.
\<close>

definition nothing_labelled :: "'a data_classifier \<Rightarrow> bool" where
  "nothing_labelled s \<longleftrightarrow> labeled s = [] \<and> labels (event_label_manager s) = [] \<and> (\<forall>ev \<in> set (event_stack s). anonymous ev) \<and>
     (\<forall>ev \<in> set (unlabeled_events (event_label_manager s)). feature_id ev = None) \<and>
     (\<forall>ev \<in> set (event_classified s). event_label (event_meta_data ev) = Some fl_zero)"

lemma no_number_found:
  assumes "nothing_labelled s"
  shows "find_index (\<lambda>ev. feature_id ev = Some eid) (unlabeled_events (event_label_manager s)) = None"
  using assms by (simp add: find_index_None_iff nothing_labelled_def)

lemma nothing_labelled_add: "nothing_labelled s \<Longrightarrow> addLabelById eid l s = Some (s, Inr False)"
  using no_number_found [of s eid] by (simp add: addLabelById_def addLabel_id_def nothing_labelled_def)

lemma nothing_labelled_reclassify: "nothing_labelled s \<Longrightarrow> reclassify eid s = Some (s, Inr ())"
  using no_number_found [of s eid] by (simp add: reclassify_def getEvent_def)

lemma nothing_labelled_process:
  assumes "processOneEvent env ev s = Some (s', r)" and "nothing_labelled s" and "anonymous ev"
  shows "nothing_labelled s' \<and> event_stack s' = event_stack s"
proof (cases "extractFeatures (env_libm env) (env_ampere env) (env_volt env) ev (the_extractor s)")
  case (Inl e)
  then show ?thesis using assms(1,2) by (simp add: processOneEvent_def)
next
  case (Inr pr)
  obtain features fe where pr: "pr = (features, fe)" by (cases pr)
  have meta: "event_meta_data features = event_meta ev"
    using Inr pr by (auto simp: extractFeatures_def res_bind_eq_Inr_iff EventFeatures_def)
  have "findLabelAndAddEvent features (event_label_manager s) = (False, event_label_manager s)"
    using assms(2) by (simp add: findLabelAndAddEvent_def getEventLabel_def nothing_labelled_def)
  moreover have "classifyOneEvent features (s\<lparr>the_extractor := fe\<rparr>) = Some (Inl (Int_thrown (- 1)))"
    using assms(2) by (simp add: classifyOneEvent_def nothing_labelled_def)
  ultimately have "s' = s\<lparr>the_extractor := fe, event_classified := event_classified s @ [set_label fl_zero features],
      event_label_manager := addClassifiedEvent (set_label fl_zero features) (addUnLabeledEvent (set_label fl_zero features) (event_label_manager s))\<rparr>"
    using assms(1) Inr pr by (simp add: processOneEvent_def classifyOneEventAndPushToLabelManager_def is_exception_def Let_def)
  then show ?thesis using assms(2,3) meta
    by (auto simp: nothing_labelled_def addClassifiedEvent_def addUnLabeledEvent_def anonymous_def)
qed

lemma nothing_labelled_round:
  assumes "run_round env s = Some (s', r)" and "nothing_labelled s"
  shows "nothing_labelled s'"
proof (cases "continue_analyzing s")
  case False
  then show ?thesis using assms by (auto simp: run_round_def nothing_labelled_def split: if_splits)
next
  case True
  then have ne: "event_stack s \<noteq> []" using assms(1) by (auto simp: run_round_def split: if_splits)
  then have "anonymous (last (event_stack s))" using assms(2) by (simp add: nothing_labelled_def)
  note step = nothing_labelled_process [OF _ assms(2) this]
  obtain s1 r1 where p: "processOneEvent env (last (event_stack s)) s = Some (s1, r1)"
    using assms(1) True ne by (auto simp: run_round_def split: if_splits option.splits)
  have "s' = s1 \<or> s' = s1\<lparr>event_stack := butlast (event_stack s1)\<rparr>"
    using assms(1) True ne p by (auto simp: run_round_def split: if_splits sum.splits)
  then show ?thesis using step [OF p] in_set_butlastD [of _ "event_stack s"] by (auto simp: nothing_labelled_def)
qed

lemma nothing_labelled_request:
  assumes "perform env req s = Some (s', r)" and "nothing_labelled s" and "server_request req"
  shows "nothing_labelled s'"
proof (cases req)
  case (Add_label_by_id eid l)
  then show ?thesis using assms(1,2) by (simp add: op_bind_map nothing_labelled_add)
next
  case (Reclassify eid)
  then show ?thesis using assms(1,2) nothing_labelled_reclassify [OF assms(2)] by simp
next
  case (Start config)
  then show ?thesis using assms(1,2) by (auto simp: startClassification_def Let_def nothing_labelled_def split: if_splits)
next
  case Stop
  then show ?thesis using assms(1,2) by (auto simp: stop_flag_def nothing_labelled_def)
next
  case Join
  then show ?thesis using assms(1,2) by (auto simp: join_runner_def nothing_labelled_def split: if_splits)
next
  case Run_round
  then show ?thesis using assms(1,2) nothing_labelled_round by auto
qed (use assms(3) in simp_all)

lemma nothing_labelled_runs:
  assumes "app_runs p ampere sm env server_request app0 stream pushed app" and "faithful_platform p" and "app_ready p sm det ri app0"
    and "\<forall>x \<in> set stream. is_fin (ampere x)" and "app_classifier app0 = DataClassifier"
  shows "nothing_labelled (app_classifier app)"
  using assms(1,4)
proof (induction rule: app_runs.induct)
  case app_start
  show ?case by (simp add: assms(5) nothing_labelled_def DataClassifier_def EventLabelManager_def)
next
  case (app_detects stream pushed app q xs q' app' b)
  have "app_classifier app' = app_classifier app"
    using app_detects.hyps(4) by (auto simp: app_round_def Let_def)
  then show ?case using app_detects.IH app_detects.prems by simp
next
  case (app_pushes stream pushed app ev evs)
  have "anonymous ev"
    using pending_anonymous [OF app_pushes.hyps(1) assms(2,3) app_pushes.prems] app_pushes.hyps(2) by simp
  then show ?case using app_pushes.IH [OF app_pushes.prems] by (simp add: nothing_labelled_def)
next
  case (app_classifies stream pushed app req c r)
  then show ?case using nothing_labelled_request by simp
qed

section \<open>Theorems\<close>

text \<open>
  C40: a user who labels an event with a number of at most six digits, or asks for it to be classified
  again, finds the command done: the client reports success, and the next message the server
  receives makes it label, or classify, exactly that event.
\<close>

theorem client_commands_are_executed:
  assumes "faithful_message_queue waiting mq" and "waiting q = []" and "i < 2 ^ 63" and "n < 10 ^ 6" and "\<not> loop_returned sv"
  shows "(\<exists>q1 q2. client_main mq (Some q) [prog, ''add-label'', decimal i, decimal n] = Some (Inr (Some q1, 0)) \<and> waiting q2 = [] \<and>
      messageLoop_round mq q1 sv = map_option (\<lambda>(c, r).
        ((sv\<lparr>server_app := (server_app sv)\<lparr>app_classifier := c\<rparr>\<rparr>, q2),
         case r of Inl e \<Rightarrow> Inl (if e = Undefined then Undefined else Assert_failed) | Inr found \<Rightarrow> Inr ()))
        (addLabelById i (Fin False (of_nat n)) (app_classifier (server_app sv)))) \<and>
    (\<exists>q1 q2. client_main mq (Some q) [prog, ''reclassify'', decimal i] = Some (Inr (Some q1, 0)) \<and> waiting q2 = [] \<and>
      messageLoop_round mq q1 sv = map_option (\<lambda>(c, r).
        ((sv\<lparr>server_app := (server_app sv)\<lparr>app_classifier := c\<rparr>\<rparr>, q2),
         case r of Inl e \<Rightarrow> Inl (if e = Undefined then Undefined else Assert_failed) | Inr _ \<Rightarrow> Inr ()))
        (reclassify i (app_classifier (server_app sv))))"
proof -
  have room: "length (waiting q) < MAX_MESSAGE_NUMBER" using assms(2) by (simp add: MAX_MESSAGE_NUMBER_def)
  have i: "i < 2 ^ 64" using assms(3) by simp
  have next_message: "\<exists>q2. receives mq q1 = Some (msg, q2) \<and> waiting q2 = []" if "waiting q1 = waiting q @ [msg]" for q1 msg
    using assms(1,2) that by (simp add: faithful_message_queue_def)
  obtain q1 where q1: "client_main mq (Some q) [prog, ''add-label'', decimal i, decimal n] = Some (Inr (Some q1, 0))"
    "waiting q1 = waiting q @ [serialize_AddLabel \<lparr>command_event_id = i, command_label = Fin False (of_nat n)\<rparr>]"
    using client_sends_label [OF assms(1) room assms(3,4)] by blast
  obtain q2 where q2: "receives mq q1 = Some (serialize_AddLabel \<lparr>command_event_id = i, command_label = Fin False (of_nat n)\<rparr>, q2)" "waiting q2 = []"
    using next_message [OF q1(2)] by blast
  obtain r1 where r1: "client_main mq (Some q) [prog, ''reclassify'', decimal i] = Some (Inr (Some r1, 0))"
    "waiting r1 = waiting q @ [serialize_Reclassify \<lparr>reclassify_event_id = i\<rparr>]"
    using client_sends_reclassify [OF assms(1) room i] by blast
  obtain r2 where r2: "receives mq r1 = Some (serialize_Reclassify \<lparr>reclassify_event_id = i\<rparr>, r2)" "waiting r2 = []"
    using next_message [OF r1(2)] by blast
  show ?thesis
    using q1(1) q2 r1(1) r2 assms(5)
    by (intro conjI exI [of _ q1] exI [of _ q2] exI [of _ r1] exI [of _ r2])
      (auto simp: messageLoop_round_def handle_label [OF i assms(4)] handle_reclassify [OF i] option.map_comp
        intro!: option.map_cong split: sum.splits)
qed

definition list_queue :: "string list message_queue" where
  "list_queue = \<lparr>sends = \<lambda>q msg. if MAX_MESSAGE_SIZE < length msg then Some (Inl Std_exception)
       else if MAX_MESSAGE_NUMBER \<le> length q then None else Some (Inr (q @ [msg])),
     receives = \<lambda>q. case q of [] \<Rightarrow> None | msg # msgs \<Rightarrow> Some (msg, msgs)\<rparr>"

lemma list_queue_faithful: "faithful_message_queue (\<lambda>q. q) list_queue"
  by (simp add: faithful_message_queue_def list_queue_def)

definition idle_server :: "default_data_point server" where
  "idle_server = \<lparr>server_app = \<lparr>app_distributor = DataStreamDistributor (), app_classifier = DataClassifier, app_pending = []\<rparr>,
     shutdown_nofare_app = False, loop_returned = False\<rparr>"

theorem client_commands_are_executed_witness:
  "\<exists>q1 q2. client_main list_queue (Some []) [''nofare'', ''add-label'', decimal 17, decimal 3] = Some (Inr (Some q1, 0)) \<and>
    messageLoop_round list_queue q1 idle_server = Some ((idle_server, q2), Inr ())"
proof -
  have "\<not> loop_returned idle_server" by (simp add: idle_server_def)
  from client_commands_are_executed [OF list_queue_faithful _ _ _ this, of "[]" 17 3 "''nofare''"]
  show ?thesis
    by (auto simp: idle_server_def addLabelById_def addLabel_id_def DataClassifier_def EventLabelManager_def)
qed



end
