(* ===== verification/Event_Storage.thy ===== *)
theory Event_Storage
  imports Smart_App Cpp_Numbers Blued_Hdf5
begin

text \<open>
  The two storages of events: as archives with a text of their data beside them
  (\<^verbatim>\<open>event_detector/src/EventStorage.h\<close>), and as HDF5 files (\<^verbatim>\<open>event_detector/src/Hdf5EventStorage.h\<close>,
  \<^verbatim>\<open>event_detector/src/Hdf5Serializations.h\<close>), which the server uses. A file system is a map from paths
  to contents; \<open>opens\<close> tells which paths can be created. The archive format is \<^verbatim>\<open>boost\<close>'s: what
  it writes is a type parameter; which members of an event go into it is the program's.

  The lemmas show that the names of numbered events differ, that stored events are loaded again, that
  the rows of an HDF5 event are the points, and what becomes of the events of a detector.
\<close>

section \<open>Names\<close>

text \<open>\<open>std::string(7 - size, '0') + result\<close> for names of at most seven characters.\<close>

definition pad_id :: "string \<Rightarrow> string" where
  "pad_id result = (if 7 < length result then result else replicate (7 - length result) (CHR ''0'') @ result)"

definition uuidToString :: "nat option \<Rightarrow> string" where
  "uuidToString uuid = pad_id (case uuid of Some n \<Rightarrow> decimal n | None \<Rightarrow> ''no_id'')"

record 'a event_storage =
  event_directory :: string
  storage_callback :: "'a event \<Rightarrow> 'a event"
  next_uuid :: nat

definition EventStorage :: "'a event_storage" where
  "EventStorage = \<lparr>event_directory = ''events/'', storage_callback = (\<lambda>ev. ev), next_uuid = 0\<rparr>"

definition setEventStorageCallback :: "('a event \<Rightarrow> 'a event) \<Rightarrow> 'a event_storage \<Rightarrow> 'a event_storage" where
  "setEventStorageCallback callBack st = st\<lparr>storage_callback := callBack\<rparr>"

definition createFilePath :: "nat \<Rightarrow> 'a event_storage \<Rightarrow> string" where
  "createFilePath uuid st = event_directory st @ ''/event_'' @ uuidToString (Some uuid) @ ''.archive''"

section \<open>Archives\<close>

definition with_id :: "nat \<Rightarrow> 'a event \<Rightarrow> 'a event" where
  "with_id n ev = ev\<lparr>event_meta := (event_meta ev)\<lparr>event_id := Some n\<rparr>\<rparr>"

lemma with_id_simps [simp]: "event_id (event_meta (with_id n ev)) = Some n" "event_data (with_id n ev) = event_data ev"
  by (simp_all add: with_id_def)

text \<open>The certainty of a classification is not stored.\<close>

definition archived_meta :: "event_meta_data \<Rightarrow> event_meta_data" where
  "archived_meta m = m\<lparr>classification_certainty := fl_zero\<rparr>"

definition archived :: "'a event \<Rightarrow> 'a event" where
  "archived ev = ev\<lparr>event_meta := archived_meta (event_meta ev)\<rparr>"

record ('a, 't) event_archive =
  event_text :: "'a event \<Rightarrow> 't"
  parsed_event :: "'t \<Rightarrow> 'a event option"

definition faithful_archive :: "('a, 't) event_archive \<Rightarrow> bool" where
  "faithful_archive ar \<longleftrightarrow> (\<forall>ev. parsed_event ar (event_text ar ev) = Some (archived ev))"

datatype 't content = Csv string | Archive 't

type_synonym 't stored_files = "string \<Rightarrow> 't content option"

fun archive_of :: "'t content \<Rightarrow> 't option" where
  "archive_of (Csv cs) = None"
| "archive_of (Archive t) = Some t"

definition csv_line :: "('a \<Rightarrow> f32) \<Rightarrow> ('a \<Rightarrow> f32) \<Rightarrow> 'a \<Rightarrow> string" where
  "csv_line volt ampere p = print_double (volt p) @ '','' @ print_double (ampere p) @ ''\<newline>''"

definition storeEventDataToCSV ::
  "('a \<Rightarrow> f32) \<Rightarrow> ('a \<Rightarrow> f32) \<Rightarrow> (string \<Rightarrow> bool) \<Rightarrow> 'a event_storage \<Rightarrow> 'a event \<Rightarrow> 't stored_files \<Rightarrow> 't stored_files res" where
  "storeEventDataToCSV volt ampere opens st ev fs =
     (let file_path = event_directory st @ ''/event_'' @ uuidToString (event_id (event_meta ev)) @ ''.csv''
      in if \<not> opens file_path then Inl Std_exception
         else Inr (fs(file_path \<mapsto> Csv (concat (map (csv_line volt ampere) (event_data ev))))))"

text \<open>The constructor of the archive throws if its stream has failed.\<close>

definition writeToFile ::
  "('a \<Rightarrow> f32) \<Rightarrow> ('a \<Rightarrow> f32) \<Rightarrow> ('a, 't) event_archive \<Rightarrow> (string \<Rightarrow> bool) \<Rightarrow> 'a event_storage \<Rightarrow> string \<Rightarrow> 'a event \<Rightarrow> 't stored_files \<Rightarrow> 't stored_files res" where
  "writeToFile volt ampere ar opens st file_name ev fs =
     (let ev = storage_callback st ev
      in res_bind (storeEventDataToCSV volt ampere opens st ev fs) (\<lambda>fs.
         if \<not> opens file_name then Inl Std_exception else Inr (fs(file_name \<mapsto> Archive (event_text ar ev)))))"

text \<open>The number the event was stored under, with the storage that has counted it.\<close>

definition storeEvent ::
  "('a \<Rightarrow> f32) \<Rightarrow> ('a \<Rightarrow> f32) \<Rightarrow> ('a, 't) event_archive \<Rightarrow> (string \<Rightarrow> bool) \<Rightarrow> 'a event \<Rightarrow> 'a event_storage \<times> 't stored_files \<Rightarrow>
     (nat \<times> 'a event_storage \<times> 't stored_files) res" where
  "storeEvent volt ampere ar opens ev = (\<lambda>(st, fs).
     let uuid = next_uuid st; ev = with_id uuid ev
     in res_map (\<lambda>fs. (uuid, st\<lparr>next_uuid := uadd uuid 1\<rparr>, fs)) (writeToFile volt ampere ar opens st (createFilePath uuid st) ev fs))"

definition loadEvent :: "('a, 't) event_archive \<Rightarrow> 'a event_storage \<Rightarrow> 't stored_files \<Rightarrow> nat \<Rightarrow> 'a event res" where
  "loadEvent ar st fs event_uuid =
     (case Option.bind (Option.bind (fs (createFilePath event_uuid st)) archive_of) (parsed_event ar) of
        None \<Rightarrow> Inl Std_exception | Some ev \<Rightarrow> Inr ev)"

definition writeToCSV :: "(string \<Rightarrow> bool) \<Rightarrow> f32 list \<Rightarrow> string \<Rightarrow> 't stored_files \<Rightarrow> 't stored_files res" where
  "writeToCSV opens xs file_name fs =
     (if \<not> opens file_name then Inl Std_exception
      else Inr (fs(file_name \<mapsto> Csv (concat (map (\<lambda>x. print_double x @ ''\<newline>'') xs)))))"

definition storeFeatureVector :: "(string \<Rightarrow> bool) \<Rightarrow> 'a event_storage \<Rightarrow> f32 list \<Rightarrow> nat \<Rightarrow> 't stored_files \<Rightarrow> 't stored_files res" where
  "storeFeatureVector opens st xs event_uuid fs =
     writeToCSV opens xs (event_directory st @ ''/event_'' @ uuidToString (Some event_uuid) @ ''_feature_vec.csv'') fs"

section \<open>HDF5 files\<close>

text \<open>A two-dimensional data set, whose cells are written row by row, and the attribute.\<close>

record event_file =
  ef_width :: nat
  ef_height :: nat
  ef_cells :: "f32 list"
  time_stamp :: f64

definition getFilePathForEvent :: "string \<Rightarrow> event_meta_data \<Rightarrow> string" where
  "getFilePathForEvent storage_path m =
     storage_path @ ''/event_'' @ pad_id (case event_id m of Some n \<Rightarrow> decimal n | None \<Rightarrow> ''no_id'') @ ''.hdf5''"

definition serialize_default :: "default_data_point list \<Rightarrow> nat \<times> nat \<times> f32 list" where
  "serialize_default points = (2, length points, concat (map (\<lambda>p. [default_voltage p, default_ampere p]) points))"

fun push_back_blued :: "blued_data_point list \<Rightarrow> f32 list \<Rightarrow> f32 list" where
  "push_back_blued [] raw_data = raw_data"
| "push_back_blued (p # ps) raw_data = push_back_blued ps (raw_data @ [x_value p, current_a p, current_b p, voltage_a p])"

definition serialize_blued :: "blued_data_point list \<Rightarrow> nat \<times> nat \<times> f32 list" where
  "serialize_blued points = (4, length points, push_back_blued points [])"

text \<open>Milliseconds, truncated towards zero, and divided in double precision.\<close>

definition event_seconds :: "event_meta_data \<Rightarrow> f64" where
  "event_seconds m = fl_div binary64 (fl_of_int binary64 (sgn (event_time m) * (\<bar>event_time m\<bar> div 1000))) (fl_of_int binary64 1000)"

type_synonym event_files = "string \<Rightarrow> event_file option"

text \<open>A file that exists is truncated.\<close>

definition storeEvent_hdf5 ::
  "('a list \<Rightarrow> nat \<times> nat \<times> f32 list) \<Rightarrow> (string \<Rightarrow> bool) \<Rightarrow> string \<Rightarrow> 'a event \<Rightarrow> event_files \<Rightarrow> event_files res" where
  "storeEvent_hdf5 serialize opens storage_path ev fs =
     (let file_name = getFilePathForEvent storage_path (event_meta ev); (w, h, cells) = serialize (event_data ev)
      in if \<not> opens file_name then Inl Std_exception
         else Inr (fs(file_name \<mapsto> \<lparr>ef_width = w, ef_height = h, ef_cells = cells, time_stamp = event_seconds (event_meta ev)\<rparr>)))"

fun store_all ::
  "('a list \<Rightarrow> nat \<times> nat \<times> f32 list) \<Rightarrow> (string \<Rightarrow> bool) \<Rightarrow> string \<Rightarrow> 'a event list \<Rightarrow> event_files \<Rightarrow> event_files res" where
  "store_all serialize opens storage_path [] fs = Inr fs"
| "store_all serialize opens storage_path (ev # evs) fs =
     res_bind (storeEvent_hdf5 serialize opens storage_path ev fs) (store_all serialize opens storage_path evs)"

section \<open>Stored events are loaded\<close>

lemma decimal_val_zeros [simp]: "decimal_val 0 (replicate k (CHR ''0'')) = 0"
  by (induction k) (simp_all add: digit_val_def)

lemma uuid_inject: "uuidToString (Some m) = uuidToString (Some n) \<longleftrightarrow> m = n"
proof
  assume "uuidToString (Some m) = uuidToString (Some n)"
  then have "decimal_val 0 (uuidToString (Some m)) = decimal_val 0 (uuidToString (Some n))" by simp
  then show "m = n" by (simp add: uuidToString_def pad_id_def split: if_splits)
qed simp

lemma createFilePath_inject: "createFilePath m st = createFilePath n st \<longleftrightarrow> m = n"
  by (simp add: createFilePath_def uuid_inject)

lemma archive_is_no_csv: "xs @ ''.archive'' \<noteq> ys @ ''.csv''"
proof
  assume "xs @ ''.archive'' = ys @ ''.csv''"
  from arg_cong [OF this, of last] show False by simp
qed

lemma storeEvent_result:
  assumes "\<forall>path. opens path" and "storage_callback st = (\<lambda>ev. ev)" and "next_uuid st < 2 ^ 64 - 1"
  shows "\<exists>fs'. storeEvent volt ampere ar opens ev (st, fs) = Inr (next_uuid st, st\<lparr>next_uuid := next_uuid st + 1\<rparr>, fs') \<and>
    fs' (createFilePath (next_uuid st) st) = Some (Archive (event_text ar (with_id (next_uuid st) ev))) \<and>
    (\<forall>n. n \<noteq> next_uuid st \<longrightarrow> fs' (createFilePath n st) = fs (createFilePath n st))"
proof -
  have "createFilePath n st \<noteq> event_directory st @ ''/event_'' @ uuidToString (Some m) @ ''.csv''" for n m
    using archive_is_no_csv [of "event_directory st @ ''/event_'' @ uuidToString (Some n)" "event_directory st @ ''/event_'' @ uuidToString (Some m)"]
    by (simp add: createFilePath_def)
  moreover have "createFilePath n st \<noteq> createFilePath (next_uuid st) st" if "n \<noteq> next_uuid st" for n
    using that createFilePath_inject [of n st "next_uuid st"] by blast
  ultimately show ?thesis using assms
    by (auto simp: storeEvent_def writeToFile_def storeEventDataToCSV_def Let_def uadd_def)
qed

fun store_events ::
  "('a \<Rightarrow> f32) \<Rightarrow> ('a \<Rightarrow> f32) \<Rightarrow> ('a, 't) event_archive \<Rightarrow> (string \<Rightarrow> bool) \<Rightarrow> 'a event list \<Rightarrow> 'a event_storage \<times> 't stored_files \<Rightarrow>
     ('a event_storage \<times> 't stored_files) res" where
  "store_events volt ampere ar opens [] s = Inr s"
| "store_events volt ampere ar opens (ev # evs) s =
     res_bind (storeEvent volt ampere ar opens ev s) (\<lambda>(uuid, s). store_events volt ampere ar opens evs s)"

lemma counted_storage [simp]:
  "createFilePath n (st\<lparr>next_uuid := k\<rparr>) = createFilePath n st" "loadEvent ar (st\<lparr>next_uuid := k\<rparr>) fs n = loadEvent ar st fs n"
  by (simp_all add: createFilePath_def loadEvent_def)

lemma stored_events_are_loaded:
  assumes "\<forall>path. opens path" and "storage_callback st = (\<lambda>ev. ev)" and "next_uuid st + length evs < 2 ^ 64" and "faithful_archive ar"
  shows "\<exists>fs'. store_events volt ampere ar opens evs (st, fs) = Inr (st\<lparr>next_uuid := next_uuid st + length evs\<rparr>, fs') \<and>
    (\<forall>i < length evs. loadEvent ar st fs' (next_uuid st + i)
       = Inr (archived (with_id (next_uuid st + i) (evs ! i)))) \<and>
    (\<forall>n. n < next_uuid st \<longrightarrow> fs' (createFilePath n st) = fs (createFilePath n st))"
  using assms(2,3)
proof (induction evs arbitrary: st fs)
  case (Cons ev evs)
  obtain fs1 where s1: "storeEvent volt ampere ar opens ev (st, fs) = Inr (next_uuid st, st\<lparr>next_uuid := next_uuid st + 1\<rparr>, fs1)"
    "fs1 (createFilePath (next_uuid st) st) = Some (Archive (event_text ar (with_id (next_uuid st) ev)))"
    "\<forall>n. n \<noteq> next_uuid st \<longrightarrow> fs1 (createFilePath n st) = fs (createFilePath n st)"
    using storeEvent_result [OF assms(1) Cons.prems(1), of volt ampere ar ev fs] Cons.prems(2) by auto
  let ?st = "st\<lparr>next_uuid := next_uuid st + 1\<rparr>"
  have "storage_callback ?st = (\<lambda>ev. ev)" "next_uuid ?st + length evs < 2 ^ 64" using Cons.prems by simp_all
  from Cons.IH [OF this, of fs1] obtain fs' where
    IH: "store_events volt ampere ar opens evs (?st, fs1) = Inr (st\<lparr>next_uuid := next_uuid st + 1 + length evs\<rparr>, fs')"
      "\<forall>i < length evs. loadEvent ar st fs' (next_uuid st + 1 + i)
         = Inr (archived (with_id (next_uuid st + 1 + i) (evs ! i)))"
      "\<forall>n. n < next_uuid st + 1 \<longrightarrow> fs' (createFilePath n st) = fs1 (createFilePath n st)"
    by auto
  have "loadEvent ar st fs' (next_uuid st + i)
      = Inr (archived (with_id (next_uuid st + i) ((ev # evs) ! i)))"
    if i: "i < length (ev # evs)" for i
  proof (cases i)
    case 0
    then show ?thesis using IH(3) s1(2) assms(4) by (simp add: loadEvent_def faithful_archive_def)
  next
    case (Suc j)
    then show ?thesis using IH(2) i by (simp add: add.assoc)
  qed
  then show ?case using s1(1,3) IH(1,3) by (intro exI [of _ fs']) (simp add: add.assoc less_Suc_eq)
qed simp

section \<open>The cells of an HDF5 event\<close>

lemma push_back_rows: "push_back_blued ps raw_data = raw_data @ concat (map point_row ps)"
  by (induction ps arbitrary: raw_data) (simp_all add: point_row_def)

text \<open>Row \<open>i\<close> of the data set.\<close>

definition ef_row :: "event_file \<Rightarrow> nat \<Rightarrow> f32 list" where
  "ef_row f i = Prelude.slice (ef_cells f) (i * ef_width f) (ef_width f)"

lemma slice_concat:
  "\<forall>r \<in> set rows. length r = w \<Longrightarrow> i < length rows \<Longrightarrow> Prelude.slice (concat rows) (i * w) w = rows ! i"
proof (induction rows arbitrary: i)
  case (Cons r rows)
  then show ?case by (cases i) (simp_all add: Prelude.slice_def)
qed simp

lemma stored_rows:
  assumes "storeEvent_hdf5 serialize_blued opens path ev fs = Inr fs'"
  shows "\<exists>f. fs' (getFilePathForEvent path (event_meta ev)) = Some f \<and> ef_height f = length (event_data ev) \<and> ef_width f = 4 \<and>
    map (row_point \<circ> ef_row f) [0..<ef_height f] = event_data ev"
proof -
  let ?f = "\<lparr>ef_width = 4, ef_height = length (event_data ev), ef_cells = concat (map point_row (event_data ev)), time_stamp = event_seconds (event_meta ev)\<rparr>"
  have f: "fs' (getFilePathForEvent path (event_meta ev)) = Some ?f"
    using assms by (auto simp: storeEvent_hdf5_def serialize_blued_def push_back_rows Let_def split: if_splits)
  have "ef_row ?f i = point_row (event_data ev ! i)" if "i < length (event_data ev)" for i
    using slice_concat [of "map point_row (event_data ev)" 4 i] that by (simp add: ef_row_def point_row_def)
  then have "map (row_point \<circ> ef_row ?f) [0..<ef_height ?f] = event_data ev"
    by (intro nth_equalityI) (simp_all add: row_point_def point_row_def)
  then show ?thesis using f by auto
qed

text \<open>Events without a number have one name.\<close>

lemma anonymous_path: "anonymous ev \<Longrightarrow> getFilePathForEvent path (event_meta ev) = path @ ''/event_00no_id.hdf5''"
  by (simp add: getFilePathForEvent_def anonymous_def pad_id_def numeral_2_eq_2)

lemma store_all_anonymous:
  assumes "\<forall>ev \<in> set evs. anonymous ev" and "\<forall>p. opens p" and "evs \<noteq> []"
  shows "\<exists>f. store_all serialize opens path evs fs = Inr (fs(path @ ''/event_00no_id.hdf5'' \<mapsto> f)) \<and>
    storeEvent_hdf5 serialize opens path (last evs) Map.empty = Inr [path @ ''/event_00no_id.hdf5'' \<mapsto> f]"
  using assms(1,3)
proof (induction evs arbitrary: fs)
  case (Cons ev evs)
  obtain w h cells where c: "serialize (event_data ev) = (w, h, cells)" by (cases "serialize (event_data ev)")
  let ?f = "\<lparr>ef_width = w, ef_height = h, ef_cells = cells, time_stamp = event_seconds (event_meta ev)\<rparr>"
  have one: "storeEvent_hdf5 serialize opens path ev gs = Inr (gs(path @ ''/event_00no_id.hdf5'' \<mapsto> ?f))" for gs
    using assms(2) Cons.prems(1) anonymous_path [of ev path] by (simp add: storeEvent_hdf5_def c)
  show ?case
  proof (cases "evs = []")
    case True
    have "store_all serialize opens path [ev] fs = Inr (fs(path @ ''/event_00no_id.hdf5'' \<mapsto> ?f))"
      by (simp only: store_all.simps one res_bind_simps)
    then show ?thesis using one True by (intro exI [of _ ?f]) (simp only: last.simps if_True simp_thms)
  next
    case False
    from Cons.IH [OF _ False, of "fs(path @ ''/event_00no_id.hdf5'' \<mapsto> ?f)"] Cons.prems(1) obtain f where
      "store_all serialize opens path evs (fs(path @ ''/event_00no_id.hdf5'' \<mapsto> ?f)) = Inr (fs(path @ ''/event_00no_id.hdf5'' \<mapsto> f))"
      "storeEvent_hdf5 serialize opens path (last evs) Map.empty = Inr [path @ ''/event_00no_id.hdf5'' \<mapsto> f]"
      by (simp only: fun_upd_upd set_simps ball_simps) blast
    then show ?thesis using False by (intro exI [of _ f]) (simp only: store_all.simps one res_bind_simps last_ConsR simp_thms if_False last.simps)
  qed
qed simp

section \<open>Theorems\<close>

text \<open>
  Events that have been stored as archives are loaded again under the numbers they were given, with
  everything but the certainty of their classification.
\<close>

theorem event_archive_roundtrip:
  assumes "\<forall>path. opens path" and "faithful_archive ar" and "length evs < 2 ^ 64"
  shows "\<exists>st fs. store_events volt ampere ar opens evs (EventStorage, Map.empty) = Inr (st, fs) \<and>
    map (loadEvent ar st fs) [0..<length evs]
      = map2 (\<lambda>ev n. Inr (archived (with_id n ev))) evs [0..<length evs]"
proof -
  let ?st = "EventStorage\<lparr>next_uuid := length evs\<rparr>"
  have "storage_callback EventStorage = (\<lambda>ev. ev)" "next_uuid EventStorage + length evs < 2 ^ 64"
    using assms(3) by (simp_all add: EventStorage_def)
  from stored_events_are_loaded [OF assms(1) this assms(2), of volt ampere Map.empty] obtain fs where
    "store_events volt ampere ar opens evs (EventStorage, Map.empty) = Inr (?st, fs)"
    "\<forall>i < length evs. loadEvent ar EventStorage fs i = Inr (archived (with_id i (evs ! i)))"
    by (auto simp: EventStorage_def)
  then show ?thesis by (intro exI [of _ ?st] exI [of _ fs]) (auto intro: nth_equalityI)
qed

definition event_list_archive :: "('a, 'a event) event_archive" where
  "event_list_archive = \<lparr>event_text = archived, parsed_event = Some\<rparr>"

lemma event_list_archive_faithful: "faithful_archive event_list_archive"
  by (simp add: faithful_archive_def event_list_archive_def)

theorem event_archive_roundtrip_witness:
  "\<exists>st fs. store_events default_voltage default_ampere event_list_archive (\<lambda>_. True) [four_points, four_points] (EventStorage, Map.empty) = Inr (st, fs) \<and>
    map (loadEvent event_list_archive st fs) [0..<2] = [Inr (archived (with_id 0 four_points)), Inr (archived (with_id 1 four_points))]"
proof -
  have "length [four_points, four_points] < 2 ^ 64" by simp
  from event_archive_roundtrip [OF _ event_list_archive_faithful this, of "\<lambda>_. True" default_voltage default_ampere]
  show ?thesis by (simp add: upt_rec numeral_2_eq_2 del: store_events.simps)
qed



end
