(* ===== verification/Event_Visualizer.thy ===== *)
theory Event_Visualizer
  imports Event_Storage Cross_Validation
begin

text \<open>
  The programs around stored events: loading all of them into a classifier
  (\<^verbatim>\<open>experiments/event_classification_setup/main.cpp\<close>), and printing what an archive contains
  (\<^verbatim>\<open>experiments/data_vis/EventVisualizer.h\<close>, \<^verbatim>\<open>experiments/data_vis/main.cpp\<close>). A printing
  operation gives the text it prints; what the options contain has been parsed by a library and is a
  record. An exception ends the program.

  The lemmas show that a program that has stored events and one that loads them hand the classifier the
  same points, and that the printed data is what was written beside the archive.
\<close>

section \<open>Loading events into a classifier\<close>

text \<open>The loop ends with the first number that cannot be loaded.\<close>

partial_function (option) push_stored_events ::
  "('a, 't) event_archive \<Rightarrow> 'a event_storage \<Rightarrow> 't stored_files \<Rightarrow> nat \<Rightarrow> 'a data_classifier \<Rightarrow> 'a data_classifier option" where
  "push_stored_events ar st fs i analyzer =
     (case loadEvent ar st fs i of
        Inl e \<Rightarrow> Some analyzer
      | Inr ev \<Rightarrow> Option.bind (pushEvent ev analyzer) (\<lambda>(analyzer, _). push_stored_events ar st fs (i + 1) analyzer))"

section \<open>Printing events\<close>

definition print_lines :: "f32 list \<Rightarrow> string" where
  "print_lines xs = concat (map (\<lambda>x. print_double x @ ''\<newline>'') xs)"

definition printEvent :: "('a \<Rightarrow> f32) \<Rightarrow> ('a \<Rightarrow> f32) \<Rightarrow> ('a, 't) event_archive \<Rightarrow> 'a event_storage \<Rightarrow> 't stored_files \<Rightarrow> nat \<Rightarrow> string res" where
  "printEvent volt ampere ar st fs i = res_map (\<lambda>e. concat (map (csv_line volt ampere) (event_data e))) (loadEvent ar st fs i)"

definition printFeatureVector ::
  "libm \<Rightarrow> ('a \<Rightarrow> f32) \<Rightarrow> ('a \<Rightarrow> f32) \<Rightarrow> ('a, 't) event_archive \<Rightarrow> 'a event_storage \<Rightarrow> 't stored_files \<Rightarrow> nat \<Rightarrow> feature_extractor \<Rightarrow>
     (string \<times> feature_extractor) res" where
  "printFeatureVector lib volt ampere ar st fs i fe =
     res_bind (loadEvent ar st fs i) (\<lambda>e.
     res_map (\<lambda>(features, fe). (print_lines (feature_vector features), fe)) (extractFeatures lib ampere volt e fe))"

definition print_fft :: "libm \<Rightarrow> ('a \<Rightarrow> f32) \<Rightarrow> 'a list \<Rightarrow> string res" where
  "print_fft lib ampere points =
     res_map (\<lambda>(fft, _). print_lines (map cpx_r fft)) (calculateAmpereFFTWithBlackmanHarris lib ampere points FastFourierTransformCalculator)"

definition printFFTOfEvent :: "libm \<Rightarrow> ('a \<Rightarrow> f32) \<Rightarrow> ('a, 't) event_archive \<Rightarrow> 'a event_storage \<Rightarrow> 't stored_files \<Rightarrow> nat \<Rightarrow> string res" where
  "printFFTOfEvent lib ampere ar st fs i = res_bind (loadEvent ar st fs i) (\<lambda>e. res_bind (during_event e) (print_fft lib ampere))"

definition printFFTOfEventLimitDataPoints ::
  "libm \<Rightarrow> ('a \<Rightarrow> f32) \<Rightarrow> ('a, 't) event_archive \<Rightarrow> 'a event_storage \<Rightarrow> 't stored_files \<Rightarrow> nat \<Rightarrow> string res" where
  "printFFTOfEventLimitDataPoints lib ampere ar st fs i =
     res_bind (loadEvent ar st fs i) (\<lambda>e. res_bind (before_event e) (\<lambda>before. res_bind (during_event e) (\<lambda>during.
       print_fft lib ampere (take (min (length before) (length during)) during))))"

definition printFFTBeforeEvent :: "libm \<Rightarrow> ('a \<Rightarrow> f32) \<Rightarrow> ('a, 't) event_archive \<Rightarrow> 'a event_storage \<Rightarrow> 't stored_files \<Rightarrow> nat \<Rightarrow> string res" where
  "printFFTBeforeEvent lib ampere ar st fs i = res_bind (loadEvent ar st fs i) (\<lambda>e. res_bind (before_event e) (print_fft lib ampere))"

definition printBlackmanHarris :: "libm \<Rightarrow> nat \<Rightarrow> string" where
  "printBlackmanHarris lib n = print_lines (blackman_harris_buffer (getBlackmanHarrisBuffer lib n FastFourierTransformCalculator))"

section \<open>The program\<close>

text \<open>\<open>opt_validation\<close>: no archive was named, or what it was parsed into (nothing if that failed).\<close>

record visual_options =
  opt_command :: string
  opt_event_id :: "nat option"
  opt_event_directory :: string
  opt_validation :: "cross_validation_result list option option"
  opt_number_of_elements :: nat

definition false_classification_line :: "guess \<Rightarrow> string" where
  "false_classification_line g =
     print_double (actual_label g) @ '', '' @ print_double (classified_label g) @ '', '' @ decimal (guessed_event g) @ ''\<newline>''"

definition appliance_line :: "f64 \<times> nat \<times> nat \<Rightarrow> string" where
  "appliance_line st = print_double (fst st) @ '', '' @ decimal (fst (snd st)) @ '', '' @ decimal (snd (snd st)) @ ''\<newline>''"

text \<open>Whether the command was known, and the text.\<close>

definition performValidationResultsVisualisation :: "visual_options \<Rightarrow> (bool \<times> string) res" where
  "performValidationResultsVisualisation options =
     (case opt_validation options of
        None \<Rightarrow> Inr (True, [])
      | Some None \<Rightarrow> Inl Std_exception
      | Some (Some results) \<Rightarrow>
          if opt_command options = ''false-classifications''
          then Inr (True, concat (map false_classification_line (all_incorrectClassifications results)))
          else if opt_command options = ''stats''
          then Inr (True, ''correct classifications: '' @ decimal (length (all_correctClassifications results)) @
                 ''  false classifications: '' @ decimal (length (all_incorrectClassifications results)) @ ''\<newline>'')
          else if opt_command options = ''appliance-stats''
          then res_map (\<lambda>app_stats. (True, ''Label, Correct Classifications, Incorrect Classifications\<newline>'' @
                 concat (map appliance_line app_stats) @ ''\<newline>'')) (classificationStats results)
          else Inr (False, []))"

text \<open>A command that needs the number of an event prints nothing without it.\<close>

definition performVisualisation ::
  "libm \<Rightarrow> (blued_data_point, 't) event_archive \<Rightarrow> 't stored_files \<Rightarrow> visual_options \<Rightarrow> string res" where
  "performVisualisation lib ar fs options =
     (let st = EventStorage\<lparr>event_directory := opt_event_directory options\<rparr>;
          for_event = (\<lambda>action. case opt_event_id options of None \<Rightarrow> Inr [] | Some i \<Rightarrow> action i)
      in if opt_command options = ''event'' then for_event (printEvent blued_voltage blued_ampere ar st fs)
         else if opt_command options = ''fvect''
         then for_event (\<lambda>i. res_map fst (printFeatureVector lib blued_voltage blued_ampere ar st fs i FeatureExtractor))
         else if opt_command options = ''fft'' then for_event (printFFTOfEvent lib blued_ampere ar st fs)
         else if opt_command options = ''fft-before'' then for_event (printFFTBeforeEvent lib blued_ampere ar st fs)
         else if opt_command options = ''fft-limited'' then for_event (printFFTOfEventLimitDataPoints lib blued_ampere ar st fs)
         else if opt_command options = ''bmh'' then Inr (printBlackmanHarris lib (opt_number_of_elements options))
         else res_map snd (performValidationResultsVisualisation options))"

section \<open>What is loaded and printed\<close>

lemma push_stored_from:
  assumes "\<forall>i < n. loadEvent ar st fs (k + i) = Inr (evs i)" and "\<exists>e. loadEvent ar st fs (k + n) = Inl e"
  shows "push_stored_events ar st fs k c = Some (c\<lparr>event_stack := event_stack c @ map evs [0..<n]\<rparr>)"
  using assms
proof (induction n arbitrary: k evs c)
  case 0
  then show ?case by (subst push_stored_events.simps) auto
next
  case (Suc n)
  have "\<forall>i < n. loadEvent ar st fs (Suc k + i) = Inr (evs (Suc i))"
  proof (intro allI impI)
    fix i assume "i < n"
    then show "loadEvent ar st fs (Suc k + i) = Inr (evs (Suc i))" using Suc.prems(1) [rule_format, of "Suc i"] by simp
  qed
  from Suc.IH [OF this, of "c\<lparr>event_stack := event_stack c @ [evs 0]\<rparr>"] Suc.prems(2)
  have "push_stored_events ar st fs (Suc k) (c\<lparr>event_stack := event_stack c @ [evs 0]\<rparr>)
      = Some (c\<lparr>event_stack := event_stack c @ [evs 0] @ map (\<lambda>i. evs (Suc i)) [0..<n]\<rparr>)" by simp
  moreover have "map evs [0..<Suc n] = evs 0 # map (\<lambda>i. evs (Suc i)) [0..<n]"
    by (simp add: upt_conv_Cons map_Suc_upt [symmetric] del: upt_Suc)
  ultimately show ?case using Suc.prems(1) [rule_format, of 0]
    by (subst push_stored_events.simps) (simp add: pushEvent_def)
qed

lemma printed_is_csv:
  assumes "loadEvent ar st fs i = Inr (archived (with_id i ev))"
    and "storeEventDataToCSV volt ampere opens st (with_id i ev) fs = Inr fs'"
  shows "\<exists>path cs. printEvent volt ampere ar st fs i = Inr cs \<and> fs' path = Some (Csv cs)"
  using assms by (auto simp: printEvent_def storeEventDataToCSV_def archived_def Let_def split: if_splits)

end
