(* ===== verification/C_Interface.thy ===== *)
theory C_Interface
  imports Async_Queue Stream_Meta
begin

text \<open>
  The C interface of the application (\<^verbatim>\<open>nofare_app_c_interface/src/NofareCInterface.cpp\<close>), as it is
  configured: the points are \<^verbatim>\<open>BluedDataPoint\<close>s. They are collected in a global buffer that is handed
  to the queue when it is full; \<open>None\<close> is a call that waits for the queue.

  The lemmas show that the queue is handed the points in order, and that a voltage comes out negated.
\<close>

record c_interface =
  c_buffer :: "blued_data_point list"
  buffer_pos :: nat

definition C_INTERFACE_BUFFER_SIZE :: nat where
  "C_INTERFACE_BUFFER_SIZE = 1000"

definition new_c_interface :: c_interface where
  "new_c_interface = \<lparr>c_buffer = replicate C_INTERFACE_BUFFER_SIZE BluedDataPoint, buffer_pos = 0\<rparr>"

definition interface_point :: "f32 \<Rightarrow> f32 \<Rightarrow> blued_data_point" where
  "interface_point v a = blued_set_ampere a (blued_set_voltage v BluedDataPoint)"

definition c_addDataPoint ::
  "f32 \<times> f32 \<Rightarrow> c_interface \<times> blued_data_point async_queue \<Rightarrow> (c_interface \<times> blued_data_point async_queue) option" where
  "c_addDataPoint = (\<lambda>(v, a) (ci, q).
     let ci = ci\<lparr>c_buffer := (c_buffer ci)[buffer_pos ci := interface_point v a], buffer_pos := buffer_pos ci + 1\<rparr>
     in if C_INTERFACE_BUFFER_SIZE \<le> buffer_pos ci
        then map_option (\<lambda>q. (ci\<lparr>buffer_pos := 0\<rparr>, q)) (addDataPoints (take C_INTERFACE_BUFFER_SIZE (c_buffer ci)) q)
        else Some (ci, q))"

fun c_addDataPoint_all ::
  "(f32 \<times> f32) list \<Rightarrow> c_interface \<times> blued_data_point async_queue \<Rightarrow> (c_interface \<times> blued_data_point async_queue) option" where
  "c_addDataPoint_all [] s = Some s"
| "c_addDataPoint_all (x # xs) s = Option.bind (c_addDataPoint x s) (c_addDataPoint_all xs)"

section \<open>Batches\<close>

lemma voltage_is_negated: "blued_voltage (interface_point v a) = fl_neg v"
  "blued_ampere (interface_point v a) = a"
  by (simp_all add: interface_point_def blued_voltage_def blued_ampere_def blued_set_voltage_def blued_set_ampere_def)

lemma c_addDataPoint_all_append:
  "c_addDataPoint_all (xs @ ys) s = Option.bind (c_addDataPoint_all xs s) (c_addDataPoint_all ys)"
  by (induction xs arbitrary: s) (auto split: bind_splits)

lemma collects:
  assumes "length (c_buffer ci) = 1000" and "buffer_pos ci + length xs < 1000"
  shows "\<exists>buffer. c_addDataPoint_all xs (ci, q) = Some (\<lparr>c_buffer = buffer, buffer_pos = buffer_pos ci + length xs\<rparr>, q) \<and>
    length buffer = 1000 \<and> take (buffer_pos ci + length xs) buffer = take (buffer_pos ci) (c_buffer ci) @ map (\<lambda>(v, a). interface_point v a) xs"
  using assms
proof (induction xs arbitrary: ci)
  case Nil
  then show ?case by (intro exI [of _ "c_buffer ci"]) simp
next
  case (Cons x xs)
  obtain v a where x: "x = (v, a)" by (cases x)
  let ?ci = "\<lparr>c_buffer = (c_buffer ci)[buffer_pos ci := interface_point v a], buffer_pos = buffer_pos ci + 1\<rparr>"
  have step: "c_addDataPoint x (ci, q) = Some (?ci, q)"
    using Cons.prems(2) by (simp add: x c_addDataPoint_def C_INTERFACE_BUFFER_SIZE_def)
  have "take (buffer_pos ci + 1) (c_buffer ?ci) = take (buffer_pos ci) (c_buffer ci) @ [interface_point v a]"
    using Cons.prems by (simp add: take_Suc_conv_app_nth)
  then show ?case using Cons.IH [of ?ci] Cons.prems step by (auto simp: x)
qed

text \<open>A full batch is one call of the queue's \<open>addDataPoints\<close>.\<close>

lemma batch_is_delivered:
  assumes "length (c_buffer ci) = 1000" and "buffer_pos ci = 0" and "length xs = 1000"
  shows "\<exists>buffer. length buffer = 1000 \<and> c_addDataPoint_all xs (ci, q) =
    map_option (\<lambda>q. (\<lparr>c_buffer = buffer, buffer_pos = 0\<rparr>, q)) (addDataPoints (map (\<lambda>(v, a). interface_point v a) xs) q)"
proof -
  have "xs \<noteq> []" using assms(3) by auto
  then obtain ys v a where xs: "xs = ys @ [(v, a)]" by (metis rev_exhaust surj_pair)
  then have len: "length ys = 999" using assms(3) by simp
  then obtain buffer where b: "c_addDataPoint_all ys (ci, q) = Some (\<lparr>c_buffer = buffer, buffer_pos = 999\<rparr>, q)" "length buffer = 1000"
    "take 999 buffer = map (\<lambda>(v, a). interface_point v a) ys"
    using collects [OF assms(1), of ys q] assms(2) by auto
  have full: "take 1000 (buffer[999 := interface_point v a]) = map (\<lambda>(v, a). interface_point v a) xs"
    using b(2,3) take_Suc_conv_app_nth [of 999 "buffer[999 := interface_point v a]"] by (simp add: xs len)
  have "c_addDataPoint_all xs (ci, q) = c_addDataPoint_all [(v, a)] (\<lparr>c_buffer = buffer, buffer_pos = 999\<rparr>, q)"
    using b(1) by (simp only: xs c_addDataPoint_all_append Option.bind.simps)
  also have "\<dots> = map_option (\<lambda>q. (\<lparr>c_buffer = buffer[999 := interface_point v a], buffer_pos = 0\<rparr>, q))
      (addDataPoints (take 1000 (buffer[999 := interface_point v a])) q)"
    by (cases "addDataPoints (take 1000 (buffer[999 := interface_point v a])) q") (simp_all add: c_addDataPoint_def C_INTERFACE_BUFFER_SIZE_def)
  finally show ?thesis using b(2) full assms(3) by (intro exI [of _ "buffer[999 := interface_point v a]"]) simp
qed

end
