(* ===== verification/Spec2Isabelle.thy ===== *)
theory Spec2Isabelle
  imports Queue_Order Ini_Parser Program_Config Blued_Hdf5 Blued_Text Classifier_Types Cross_Validation Smart_App Nofare_Server
    Event_Storage Event_Visualizer C_Interface
begin

text \<open>
  A verification library for the smart screen: a program that reads a stream of voltage and current,
  detects when a device is switched on, extracts the features of such an event and names the device by
  comparing it with events that its user has labelled.

  \<^bold>\<open>The program and its theories.\<close> Paths are relative to \<^verbatim>\<open>src/\<close>. Definitions have the names of
  the functions they translate; a suffix tells overloads apart, or keeps a name of the library free.

  \<^item> \<^bold>\<open>Foundations.\<close> \<^verbatim>\<open>Prelude\<close>: errors as values, unsigned arithmetic of 64 bits, ranges of iterators.
    \<^verbatim>\<open>Ieee_Float\<close>: \<^verbatim>\<open>float\<close> and \<^verbatim>\<open>double\<close> with every operation rounded. \<^verbatim>\<open>Cpp_Stream\<close> and
    \<^verbatim>\<open>Cpp_Numbers\<close>: input streams, \<^verbatim>\<open>std::stoul\<close> and its relatives, the printing of numbers.

  \<^item> \<^bold>\<open>From the source to the analysis.\<close> A thread reads points from a file or a device
    (\<^verbatim>\<open>Blued_Text\<close> for \<^verbatim>\<open>data_loader/src/BluedInputSource.cpp\<close>, \<^verbatim>\<open>Blued_Hdf5\<close> for
    \<^verbatim>\<open>data_loader/src/BluedHdf5InputSource.cpp\<close>, the converter between the two and the template of an
    input source, \<^verbatim>\<open>C_Interface\<close> for \<^verbatim>\<open>nofare_app_c_interface\<close>), puts them into a bounded queue and
    synchronises the clock (\<^verbatim>\<open>Stream_Meta\<close> for \<^verbatim>\<open>data_loader/src/DynamicStreamMetaData.cpp\<close> and the
    types of points). The queue is \<^verbatim>\<open>data_loader/src/AsyncDataQueue.h\<close>: \<^verbatim>\<open>Async_Queue\<close> has its
    critical sections and its operations run alone, \<^verbatim>\<open>Queue_Threads\<close> the steps of any number of
    threads with mutex and condition variables, \<^verbatim>\<open>Queue_Order\<close> what every interleaving keeps.

  \<^item> \<^bold>\<open>Detection.\<close> The main loop takes points from the queue into a window and hands its workers the
    pieces they ask for (\<^verbatim>\<open>Stream_Distributor\<close> for \<^verbatim>\<open>event_detector/src/DataStreamDistributor.h\<close>).
    The worker that detects events is \<^verbatim>\<open>Event_Detector\<close> (\<^verbatim>\<open>event_detector/src/EventDetector.h\<close>), with
    the root mean squares of \<^verbatim>\<open>Algorithms\<close> (\<^verbatim>\<open>libanalyze/src/Algorithms.h\<close>); an event is
    \<^verbatim>\<open>Event_Data\<close> (\<^verbatim>\<open>event_detector/src/Event.h\<close>), and it is stored by \<^verbatim>\<open>Event_Storage\<close>
    (\<^verbatim>\<open>event_detector/src/EventStorage.h\<close>, \<^verbatim>\<open>Hdf5EventStorage.h\<close>).

  \<^item> \<^bold>\<open>Classification.\<close> \<^verbatim>\<open>Feature_Extractor\<close> computes the features, with the Fourier transform of
    \<^verbatim>\<open>Kiss_Fft\<close> (\<^verbatim>\<open>external/kiss_fft\<close>); \<^verbatim>\<open>Label_Manager\<close> keeps labelled and unlabelled events;
    \<^verbatim>\<open>Data_Classifier\<close> normalises the labelled ones into a matrix, builds a search tree over it and
    votes among the nearest neighbours; the search is \<^verbatim>\<open>Index_Heap\<close>, \<^verbatim>\<open>Kd_Tree\<close> and \<^verbatim>\<open>Kd_Search\<close>
    (\<^verbatim>\<open>external/libnabo\<close>). \<^verbatim>\<open>Classifier_Types\<close> shows the machine types of its state, and
    \<^verbatim>\<open>Cross_Validation\<close> and \<^verbatim>\<open>Event_Visualizer\<close> are the experiments around it.

  \<^item> \<^bold>\<open>The application.\<close> \<^verbatim>\<open>Ini_Parser\<close> (\<^verbatim>\<open>external/inih\<close>) and \<^verbatim>\<open>Program_Config\<close> read the
    configuration; \<^verbatim>\<open>Smart_App\<close> joins the parts (\<^verbatim>\<open>smart_app/src\<close>); \<^verbatim>\<open>Command_Line\<close> is the client
    and \<^verbatim>\<open>Nofare_Server\<close> the server (\<^verbatim>\<open>nofare_app/src\<close>).

  \<^bold>\<open>How code is written down.\<close> A class is a record with one definition per member function, which
  returns the new state. A step that fails is \<open>Inl\<close> of an error: a failed assertion, an exception, a
  thrown number, or undefined behaviour. An operation of type \<open>option\<close> is \<open>None\<close> when it does not
  return: it waits for another thread, or loops for ever. What threads do to the queue is the step
  relation \<open>run_step\<close>; what they do to the classifier is \<open>classifier_runs\<close>, since every operation holds
  one mutex; \<open>app_runs\<close> interleaves the main loop, the pushes of its events, and the other threads.

  \<^bold>\<open>Interfaces.\<close> \<open>point_source\<close> (a reader's view of the queue, interpreted on \<open>popDataPoints\<close>),
  \<open>stream_worker\<close> (what the distributor needs of a worker, interpreted on the detector, on the metric
  provider and on the two together), \<open>neighbour_heap\<close> (interpreted on both heaps), \<open>tolerant_set\<close> (a
  set whose comparator is tolerant, interpreted on the labels) and \<open>command_format\<close> (what client and
  server agree on, interpreted on both commands).

  \<^bold>\<open>What is shown.\<close> For the queue: order, conservation, bound, and progress of one writer and one reader,
  with the runs in which the end of the stream is missed. For detection: the distributor with its
  workers refines \<open>advance\<close>, a function of the stream alone, so that the events depend neither on how
  points arrive nor on the other worker, are pieces of the stream, and reach the classifier once and
  in order. For classification: the transform is the discrete Fourier transform over exact arithmetic,
  the tree search finds what the exhaustive search finds, a classification is the majority of the five
  neighbours, the tree that is searched always belongs to the matrix, and the matrix holds values of
  its type. For texts: configurations, label files, converted data sets, archived events and commands
  are read back. Several theorems state what the code does where it hardly means to: what becomes of a
  classification, of a command's event, of a stored event, of a validation.

  \<^bold>\<open>Bounds and fuel.\<close> Loops are structural or have a termination proof; those that may not end are
  \<open>partial_function (option)\<close>, and the theorems say that they return. Fuel is used twice:
  \<open>read_labels\<close> has one unit more than the text has characters, and every round that goes on reads one;
  \<open>decimal_exponent\<close> has 400, and the exponents of \<^verbatim>\<open>double\<close> lie between -324 and 308. Sizes are natural
  numbers below \<open>2 ^ 64\<close> and wrap where the code computes with them; assumptions such as
  \<open>faithful_platform\<close> state the range in which a library's conversion keeps its value.

  \<^bold>\<open>Parameters.\<close> The libraries that are not part of the repository: HDF5 (\<open>h5_library\<close>), the message
  queue of the operating system (\<open>message_queue\<close>), the archives of boost (\<open>event_archive\<close>,
  \<open>archive_format\<close>), conversions of \<^verbatim>\<open>cpp_int\<close> (\<open>platform\<close>), functions of \<^verbatim>\<open>math.h\<close> whose rounding is
  free (\<open>libm\<close>), what Eigen leaves in a resized matrix, and \<^verbatim>\<open>std::random_shuffle\<close>.

  \<^bold>\<open>Not modelled.\<close> Logging and text for the user; the order in which the server's \<open>run\<close> starts and stops
  its threads, its signal handlers and the timing of the thread that stores the model; the creation of
  HDF5 files and boost's archive format; the sign and payload of a NaN; spurious wake-ups and memory
  orders weaker than sequential consistency; the OpenCL searches, fixed point and SIMD transforms,
  which are not compiled; the main function \<^verbatim>\<open>experiments/simple_setup/main.cpp\<close>, which only calls
  what is modelled; the vendored \<^verbatim>\<open>cpp-netlib\<close>, which no target uses, and \<^verbatim>\<open>spdlog\<close>; and the tests.
\<close>

end
